(* ===== verification/Kernel_Prelude.thy ===== *)
theory Kernel_Prelude
  imports Main "HOL-Library.Word" "HOL-Library.Monad_Syntax"
begin

text \<open>
  Shared vocabulary of the development.

  Every kernel function is a HOL function over explicit state.  A result of type
  \<open>'a option\<close> is the outcome of running it: \<open>Some\<close> is a normal return,
  \<open>None\<close> is the kernel not continuing, which is what a failed \<open>assert\<close>, a call of
  \<open>panic\<close>, an access outside an object or a read of an uninitialised variable is.
  The integer codes that the kernel's functions return are the datatype \<open>errno\<close>, one
  constructor per constant of \<open>src/kern/include/kern/errno.h\<close> and \<open>ESUCCESS\<close> for
  the 0 of a successful call; a function that also hands a value back through a pointer
  returns \<open>errno + 'a\<close>.

  C's \<open>int\<close> is \<open>int\<close> with its 32-bit wrap-around written as \<open>c_int\<close>; unsigned
  types are words.
\<close>

section \<open>Error codes\<close>

datatype errno =
    ESUCCESS | EINVAL | EFAULT | ENAMETOOLONG | ENOMEM | EIO | ENOENT | ENOTDIR | EISDIR
  | EEXIST | EXDEV | EAGAIN | ESPIPE | EUNIMP | ENXIO | ENODEV | EBUSY | EIOCTL | ENOTEMPTY
  | ERANGE | ENOSPC | EMFILE | ENFILE | ENOSYS | ENOEXEC | E2BIG | EBADF

text \<open>The numbers behind the names.\<close>

definition errno_code :: "errno \<Rightarrow> int" where
  "errno_code e = (case e of
      ESUCCESS \<Rightarrow> 0 | EINVAL \<Rightarrow> 1 | EFAULT \<Rightarrow> 2 | ENAMETOOLONG \<Rightarrow> 3 | ENOMEM \<Rightarrow> 4
    | EIO \<Rightarrow> 5 | ENOENT \<Rightarrow> 6 | ENOTDIR \<Rightarrow> 7 | EISDIR \<Rightarrow> 8 | EEXIST \<Rightarrow> 9 | EXDEV \<Rightarrow> 10
    | EAGAIN \<Rightarrow> 11 | ESPIPE \<Rightarrow> 12 | EUNIMP \<Rightarrow> 13 | ENXIO \<Rightarrow> 14 | ENODEV \<Rightarrow> 15
    | EBUSY \<Rightarrow> 16 | EIOCTL \<Rightarrow> 17 | ENOTEMPTY \<Rightarrow> 18 | ERANGE \<Rightarrow> 19 | ENOSPC \<Rightarrow> 20
    | EMFILE \<Rightarrow> 21 | ENFILE \<Rightarrow> 22 | ENOSYS \<Rightarrow> 23 | ENOEXEC \<Rightarrow> 24 | E2BIG \<Rightarrow> 25
    | EBADF \<Rightarrow> 26)"

section \<open>Machine integers\<close>

type_synonym u8 = "8 word"
type_synonym u16 = "16 word"
type_synonym u32 = "32 word"
type_synonym vaddr = "32 word"
type_synonym paddr = "32 word"

text \<open>The value an \<open>int\<close> expression has after 32-bit two's complement wrap-around.\<close>

definition c_int :: "int \<Rightarrow> int" where
  "c_int x = (x + 2 ^ 31) mod 2 ^ 32 - 2 ^ 31"

text \<open>C's \<open>%\<close>, which truncates towards zero.\<close>

definition c_rem :: "int \<Rightarrow> int \<Rightarrow> int" where
  "c_rem a b = sgn a * (\<bar>a\<bar> mod \<bar>b\<bar>)"

text \<open>Pointers in a block of \<open>n * sizeof(void *)\<close> bytes, the product taken in \<open>size_t\<close>.\<close>

definition ptr_cells :: "int \<Rightarrow> nat" where
  "ptr_cells n = unat (word_of_int n * 4 :: u32) div 4"

section \<open>Assertions\<close>

definition kassert :: "bool \<Rightarrow> unit option" where
  "kassert b = (if b then Some () else None)"

text \<open>
  Reading and writing a cell of an array of known extent; both are stuck outside it.
\<close>

definition rd :: "'a list \<Rightarrow> int \<Rightarrow> 'a option" where
  "rd xs i = (if 0 \<le> i \<and> nat i < length xs then Some (xs ! nat i) else None)"

definition wr :: "'a list \<Rightarrow> int \<Rightarrow> 'a \<Rightarrow> 'a list option" where
  "wr xs i x = (if 0 \<le> i \<and> nat i < length xs then Some (xs[nat i := x]) else None)"

text \<open>
  The loop \<open>for (i = 0; i < n; i++) if (P(i)) break;\<close> that many kernel tables are searched
  with: the least index that satisfies the test.
\<close>

definition first_index :: "(nat \<Rightarrow> bool) \<Rightarrow> nat \<Rightarrow> nat option" where
  "first_index P n = find P [0..<n]"

section \<open>Lemmas\<close>

lemma kassert_bind [simp]: "(kassert b \<bind> f) = (if b then f () else None)"
  by (simp add: kassert_def)

lemma kassert_eq_Some [simp]: "kassert b = Some u \<longleftrightarrow> b"
  by (simp add: kassert_def)

lemma kassert_eq_None [simp]: "kassert b = None \<longleftrightarrow> \<not> b"
  by (simp add: kassert_def)

lemma rd_Some_iff: "rd xs i = Some x \<longleftrightarrow> 0 \<le> i \<and> nat i < length xs \<and> xs ! nat i = x"
  by (auto simp: rd_def)

lemma rd_nat [simp]: "i < length xs \<Longrightarrow> rd xs (int i) = Some (xs ! i)"
  by (simp add: rd_def)

lemma wr_Some_iff: "wr xs i x = Some ys \<longleftrightarrow> 0 \<le> i \<and> nat i < length xs \<and> ys = xs[nat i := x]"
  by (auto simp: wr_def)

lemma wr_nat [simp]: "i < length xs \<Longrightarrow> wr xs (int i) x = Some (xs[i := x])"
  by (simp add: wr_def)

lemma c_int_id: "- (2 ^ 31) \<le> x \<Longrightarrow> x < 2 ^ 31 \<Longrightarrow> c_int x = x"
  by (simp add: c_int_def)

lemma c_int_wrap: "2 ^ 31 \<le> x \<Longrightarrow> x < 2 ^ 32 + 2 ^ 31 \<Longrightarrow> c_int x = x - 2 ^ 32"
proof -
  assume x: "2 ^ 31 \<le> x" "x < 2 ^ 32 + 2 ^ 31"
  have "(x + 2 ^ 31) mod 2 ^ 32 = ((x - 2 ^ 31) + 2 ^ 32) mod 2 ^ 32" by (simp add: add.commute)
  also have "\<dots> = (x - 2 ^ 31) mod 2 ^ 32" by (rule mod_add_self2)
  also have "\<dots> = x - 2 ^ 31" using x by (intro mod_pos_pos_trivial) auto
  finally show ?thesis by (simp add: c_int_def)
qed

lemma c_int_range: "- (2 ^ 31) \<le> c_int x" "c_int x < 2 ^ 31"
proof -
  have "0 \<le> (x + 2 ^ 31) mod 2 ^ 32" "(x + 2 ^ 31) mod 2 ^ 32 < 2 ^ 32" by auto
  then show "- (2 ^ 31) \<le> c_int x" "c_int x < 2 ^ 31" by (simp_all add: c_int_def)
qed

lemma unat_u32: "unat (x :: u32) < 2 ^ 32"
  using unsigned_less[of x, where ?'a = nat] by simp

lemma ptr_cells_small: "0 \<le> m \<Longrightarrow> m < 2 ^ 30 \<Longrightarrow> ptr_cells m = nat m"
proof -
  assume m: "0 \<le> m" "m < 2 ^ 30"
  have "uint (word_of_int m * 4 :: u32) = m * 4"
    using m by (simp add: uint_word_ariths uint_word_of_int_eq take_bit_eq_mod)
  then have "unat (word_of_int m * 4 :: u32) = nat (m * 4)"
    by (simp add: unat_eq_nat_uint)
  then show ?thesis using m by (simp add: ptr_cells_def nat_mult_distrib)
qed

lemma c_rem_nonneg [simp]: "0 \<le> a \<Longrightarrow> 0 < b \<Longrightarrow> c_rem a b = a mod b"
  by (cases "a = 0") (auto simp: c_rem_def sgn_if)

lemma first_index_Some_iff:
  "first_index P n = Some i \<longleftrightarrow> i < n \<and> P i \<and> (\<forall>j<i. \<not> P j)"
  by (auto simp: first_index_def find_Some_iff)

lemma first_index_None_iff: "first_index P n = None \<longleftrightarrow> (\<forall>i<n. \<not> P i)"
  by (auto simp: first_index_def find_None_iff)

lemma first_index_cong [fundef_cong]:
  "n = m \<Longrightarrow> (\<And>i. i < m \<Longrightarrow> P i = Q i) \<Longrightarrow> first_index P n = first_index Q m"
  by (auto simp: first_index_def intro: find_cong)

lemma first_index_exists: "i < n \<Longrightarrow> P i \<Longrightarrow> \<exists>j. first_index P n = Some j \<and> j \<le> i"
  by (cases "first_index P n")
    (auto simp: first_index_Some_iff first_index_None_iff not_less[symmetric])

text \<open>When at most one index passes the test, the search finds it.\<close>

lemma first_index_unique:
  assumes "\<And>i. i < n \<Longrightarrow> P i \<longleftrightarrow> Q i" and "\<And>i. Q i \<Longrightarrow> i < n" and "\<And>i j. Q i \<Longrightarrow> Q j \<Longrightarrow> i = j"
  shows "first_index P n = Some i \<longleftrightarrow> Q i"
proof
  assume "first_index P n = Some i"
  then show "Q i" using assms(1) by (auto simp: first_index_Some_iff)
next
  assume q: "Q i"
  then have "\<not> P j" if "j < i" for j
    using assms(1)[of j] assms(2)[of i] assms(3)[of i j] that by auto
  then show "first_index P n = Some i" using q assms(1,2) by (auto simp: first_index_Some_iff)
qed

lemma take_list_update_Suc: "n < length xs \<Longrightarrow> take (Suc n) (xs[n := x]) = take n xs @ [x]"
  by (simp add: take_Suc_conv_app_nth)

end
