(* ===== verification/Kernel_Words.thy ===== *)
theory Kernel_Words
  imports Kernel_Prelude
begin

text \<open>
  The bytes of a 32-bit word.  The machine is big-endian: memory and the disk hold the most
  significant byte first.
\<close>

unbundle bit_operations_syntax

section \<open>Words\<close>

definition be32_put :: "u32 \<Rightarrow> u8 list" where
  "be32_put w = [ucast (drop_bit 24 w), ucast (drop_bit 16 w), ucast (drop_bit 8 w), ucast w]"

definition be32_get :: "u8 list \<Rightarrow> u32" where
  "be32_get bs = push_bit 24 (ucast (bs ! 0)) OR push_bit 16 (ucast (bs ! 1))
                 OR push_bit 8 (ucast (bs ! 2)) OR ucast (bs ! 3)"

fun put_words :: "u32 list \<Rightarrow> u8 list" where
  "put_words [] = []"
| "put_words (w # ws) = be32_put w @ put_words ws"

fun get_words :: "nat \<Rightarrow> u8 list \<Rightarrow> u32 list" where
  "get_words 0 bs = []"
| "get_words (Suc n) bs = be32_get (take 4 bs) # get_words n (drop 4 bs)"

lemma be32_get_put [simp]: "be32_get (be32_put w) = w"
proof (rule bit_word_eqI)
  fix n assume n: "n < LENGTH(32)"
  then consider "n < 8" | "8 \<le> n" "n < 16" | "16 \<le> n" "n < 24" | "24 \<le> n" "n < 32" by force
  then show "bit (be32_get (be32_put w)) n = bit w n"
    by cases (auto simp: be32_get_def be32_put_def bit_or_iff bit_push_bit_iff bit_unsigned_iff
        bit_drop_bit_eq less_diff_conv2)
qed

lemma length_be32_put [simp]: "length (be32_put w) = 4"
  by (simp add: be32_put_def)

lemma be32_put_get:
  assumes "length bs = 4" shows "be32_put (be32_get bs) = bs"
proof -
  obtain a b c d where bs: "bs = [a, b, c, d]"
    using assms by (auto simp: numeral_eq_Suc length_Suc_conv)
  have "ucast (drop_bit 24 (be32_get bs)) = a" "ucast (drop_bit 16 (be32_get bs)) = b"
    "ucast (drop_bit 8 (be32_get bs)) = c" "ucast (be32_get bs) = d"
    by (rule bit_word_eqI, auto simp: bs be32_get_def bit_or_iff bit_push_bit_iff bit_unsigned_iff
        bit_drop_bit_eq dest: bit_imp_le_length)+
  then show ?thesis by (simp add: be32_put_def bs)
qed

lemma length_put_words [simp]: "length (put_words ws) = 4 * length ws"
  by (induction ws) auto

lemma length_get_words [simp]: "length (get_words n bs) = n"
  by (induction n arbitrary: bs) auto

lemma get_put_words [simp]: "length ws = n \<Longrightarrow> get_words n (put_words ws) = ws"
  by (induction ws arbitrary: n) auto

lemma get_put_words_append: "length ws = n \<Longrightarrow> get_words n (put_words ws @ bs) = ws"
  by (induction ws arbitrary: n) auto

lemma put_get_words: "length bs = 4 * n \<Longrightarrow> put_words (get_words n bs) = bs"
  by (induction n arbitrary: bs) (auto simp: be32_put_get)

lemma put_words_append: "put_words (xs @ ys) = put_words xs @ put_words ys"
  by (induction xs) auto

end
