(* ===== verification/Lib_Mem.thy ===== *)
theory Lib_Mem
  imports Kernel_Words
begin

text \<open>
  The memory functions of \<open>src/lib/libc\<close>, which the kernel and the programs share: \<open>memcpy\<close>,
  \<open>memmove\<close>, \<open>bzero\<close>, \<open>memset\<close> and \<open>memcmp\<close>.

  Memory is a function from 32-bit addresses to bytes and a pointer is an address, so that two
  regions may overlap in any way.  The word-at-a-time loops are modelled as they are, on the
  big-endian words of the machine; \<open>copied\<close> and \<open>moved\<close> say what they come to.  The functions
  that return their first argument return the memory only.
\<close>

section \<open>Memory\<close>

type_synonym mem = "u32 \<Rightarrow> u8"

definition load_long :: "mem \<Rightarrow> u32 \<Rightarrow> u32" where
  "load_long m a = be32_get [m a, m (a + 1), m (a + 2), m (a + 3)]"

fun store_bytes :: "u32 \<Rightarrow> u8 list \<Rightarrow> mem \<Rightarrow> mem" where
  "store_bytes a [] m = m"
| "store_bytes a (b # bs) m = store_bytes (a + 1) bs (m(a := b))"

definition store_long :: "u32 \<Rightarrow> u32 \<Rightarrow> mem \<Rightarrow> mem" where
  "store_long a w m = store_bytes a (be32_put w) m"

section \<open>Model\<close>

text \<open>One turn of the loops, \<open>d[i] = s[i]\<close>, for \<open>long\<close> and for \<open>char\<close>.\<close>

definition copy_long :: "u32 \<Rightarrow> u32 \<Rightarrow> nat \<Rightarrow> mem \<Rightarrow> mem" where
  "copy_long dst src i m = store_long (dst + 4 * of_nat i) (load_long m (src + 4 * of_nat i)) m"

definition copy_char :: "u32 \<Rightarrow> u32 \<Rightarrow> nat \<Rightarrow> mem \<Rightarrow> mem" where
  "copy_char dst src i m = m(dst + of_nat i := m (src + of_nat i))"

definition memcpy :: "u32 \<Rightarrow> u32 \<Rightarrow> u32 \<Rightarrow> mem \<Rightarrow> mem" where
  "memcpy dst src len m =
     (if dst mod 4 = 0 \<and> src mod 4 = 0 \<and> len mod 4 = 0
      then fold (copy_long dst src) [0..<unat (len div 4)] m
      else fold (copy_char dst src) [0..<unat len] m)"

definition memmove :: "u32 \<Rightarrow> u32 \<Rightarrow> u32 \<Rightarrow> mem \<Rightarrow> mem" where
  "memmove dst src len m =
     (if dst < src then memcpy dst src len m
      else if dst mod 4 = 0 \<and> src mod 4 = 0 \<and> len mod 4 = 0
      then fold (copy_long dst src) (rev [0..<unat (len div 4)]) m
      else fold (copy_char dst src) (rev [0..<unat len]) m)"

definition bzero :: "u32 \<Rightarrow> u32 \<Rightarrow> mem \<Rightarrow> mem" where
  "bzero vblock len m =
     (if vblock mod 4 = 0 \<and> len mod 4 = 0
      then fold (\<lambda>i. store_long (vblock + 4 * of_nat i) 0) [0..<unat (len div 4)] m
      else fold (\<lambda>i m. m(vblock + of_nat i := 0)) [0..<unat len] m)"

definition memset :: "u32 \<Rightarrow> int \<Rightarrow> u32 \<Rightarrow> mem \<Rightarrow> mem" where
  "memset ptr ch len m = fold (\<lambda>i m. m(ptr + of_nat i := word_of_int ch)) [0..<unat len] m"

definition memcmp :: "u32 \<Rightarrow> u32 \<Rightarrow> u32 \<Rightarrow> mem \<Rightarrow> int" where
  "memcmp a b len m =
     (case first_index (\<lambda>i. m (a + of_nat i) \<noteq> m (b + of_nat i)) (unat len) of
        Some i \<Rightarrow> uint (m (a + of_nat i)) - uint (m (b + of_nat i))
      | None \<Rightarrow> 0)"

section \<open>What a copy comes to\<close>

text \<open>The bytes with index in \<open>K\<close> have been copied.\<close>

definition copied :: "u32 \<Rightarrow> u32 \<Rightarrow> nat set \<Rightarrow> mem \<Rightarrow> mem" where
  "copied dst src K m = (\<lambda>a. if a \<in> (\<lambda>i. dst + of_nat i) ` K then m (src + (a - dst)) else m a)"

text \<open>The reference: all bytes are read before any is written.\<close>

definition moved :: "u32 \<Rightarrow> u32 \<Rightarrow> u32 \<Rightarrow> mem \<Rightarrow> mem" where
  "moved dst src len m =
     (\<lambda>a. if unat dst \<le> unat a \<and> unat a < unat dst + unat len then m (src + (a - dst)) else m a)"

definition cleared :: "u32 \<Rightarrow> u32 \<Rightarrow> u8 \<Rightarrow> mem \<Rightarrow> mem" where
  "cleared p len c m = (\<lambda>a. if unat p \<le> unat a \<and> unat a < unat p + unat len then c else m a)"

lemma unat_small: "k < 2 ^ 32 \<Longrightarrow> unat (of_nat k :: u32) = k"
  by (simp add: unat_of_nat take_bit_nat_eq_self)

lemma copied_empty [simp]: "copied dst src {} m = m"
  by (simp add: copied_def)

lemma copied_read: "src + of_nat i \<notin> (\<lambda>j. dst + of_nat j) ` K \<Longrightarrow> copied dst src K m (src + of_nat i) = m (src + of_nat i)"
  by (simp add: copied_def)

lemma copy_char_step:
  assumes "src + of_nat i \<notin> (\<lambda>j. dst + of_nat j) ` K"
  shows "copy_char dst src i (copied dst src K m) = copied dst src (insert i K) m"
  using assms by (auto simp: copy_char_def copied_def fun_eq_iff)

lemma store_bytes_nth:
  "length bs < 2 ^ 32 \<Longrightarrow> store_bytes a bs m = (\<lambda>x. if unat (x - a) < length bs then bs ! unat (x - a) else m x)"
proof (induction bs arbitrary: a m)
  case (Cons b bs)
  show ?case
  proof
    fix x
    have "unat (x - a) = Suc (unat (x - (a + 1)))" if "x \<noteq> a"
    proof -
      have "x - a \<noteq> 0" using that by simp
      then have "unat (x - a) = Suc (unat (x - a - 1))" by (simp add: unat_minus_one unat_gt_0 Suc_diff_1)
      then show ?thesis by (simp add: diff_diff_eq)
    qed
    moreover have "unat (a - (a + 1)) = 2 ^ 32 - 1" by (simp add: unsigned_minus_1_eq_mask mask_eq_exp_minus_1)
    ultimately show "store_bytes a (b # bs) m x = (if unat (x - a) < length (b # bs) then (b # bs) ! unat (x - a) else m x)"
      using Cons by (cases "x = a") auto
  qed
qed simp

lemma long_bytes: "a \<in> (\<lambda>j. p + of_nat j) ` {4 * i..<4 * i + 4} \<longleftrightarrow> unat (a - (p + 4 * of_nat i :: u32)) < 4"
proof
  assume "a \<in> (\<lambda>j. p + of_nat j) ` {4 * i..<4 * i + 4}"
  then obtain j where j: "a = p + of_nat j" "4 * i \<le> j" "j < 4 * i + 4" by auto
  then obtain b where "j = 4 * i + b" "b < 4" by (metis add_less_cancel_left le_Suc_ex)
  then show "unat (a - (p + 4 * of_nat i)) < 4" using j(1) by (simp add: unat_small)
next
  assume "unat (a - (p + 4 * of_nat i)) < 4"
  moreover have "a = p + of_nat (4 * i + unat (a - (p + 4 * of_nat i)))" by simp
  ultimately show "a \<in> (\<lambda>j. p + of_nat j) ` {4 * i..<4 * i + 4}"
    by (intro image_eqI[where x = "4 * i + unat (a - (p + 4 * of_nat i))"]) simp_all
qed

lemma copy_long_step:
  assumes "\<forall>b<4. src + of_nat (4 * i + b) \<notin> (\<lambda>j. dst + of_nat j) ` K"
  shows "copy_long dst src i (copied dst src K m) = copied dst src (K \<union> {4 * i..<4 * i + 4}) m"
proof
  fix a
  let ?d = "dst + 4 * of_nat i" and ?s = "src + 4 * of_nat i"
  have r: "copied dst src K m (?s + of_nat b) = m (?s + of_nat b)" if "b < 4" for b
    using assms that copied_read[of src "4 * i + b" dst K m] by (simp add: add.assoc)
  have bytes: "be32_put (load_long (copied dst src K m) ?s) = map (\<lambda>b. m (?s + of_nat b)) [0..<4]"
    using r[of 0] r[of 1] r[of 2] r[of 3] by (simp add: load_long_def be32_put_get upt_rec numeral_eq_Suc)
  have "?s + of_nat (unat (a - ?d)) = src + (a - dst)" by simp
  then show "copy_long dst src i (copied dst src K m) a = copied dst src (K \<union> {4 * i..<4 * i + 4}) m a"
    unfolding copy_long_def store_long_def bytes
    by (subst store_bytes_nth) (auto simp: long_bytes image_Un copied_def)
qed

text \<open>A loop that never reads what it has written copies all its bytes.\<close>

lemma copy_chars:
  assumes "sorted_wrt (\<lambda>j i. src + of_nat i \<noteq> dst + of_nat j) js"
  shows "fold (copy_char dst src) js m = copied dst src (set js) m"
  using assms
proof (induction js rule: rev_induct)
  case (snoc i js)
  then have "src + of_nat i \<notin> (\<lambda>j. dst + of_nat j) ` set js" by (auto simp: sorted_wrt_append)
  then show ?case using snoc by (simp add: sorted_wrt_append copy_char_step)
qed simp

lemma copy_longs:
  assumes "sorted_wrt (\<lambda>j i. \<forall>b<4. \<forall>c<4. src + of_nat (4 * i + b) \<noteq> dst + of_nat (4 * j + c)) js"
  shows "fold (copy_long dst src) js m = copied dst src (\<Union>j\<in>set js. {4 * j..<4 * j + 4}) m"
  using assms
proof (induction js rule: rev_induct)
  case (snoc i js)
  have "src + of_nat (4 * i + b) \<notin> (\<lambda>j. dst + of_nat j) ` (\<Union>j\<in>set js. {4 * j..<4 * j + 4})" if "b < 4" for b
  proof
    assume "src + of_nat (4 * i + b) \<in> (\<lambda>j. dst + of_nat j) ` (\<Union>j\<in>set js. {4 * j..<4 * j + 4})"
    then obtain j k where j: "j \<in> set js" "4 * j \<le> k" "k < 4 * j + 4" "src + of_nat (4 * i + b) = dst + of_nat k" by auto
    then obtain c where "k = 4 * j + c" "c < 4" by (metis add_less_cancel_left le_Suc_ex)
    then show False using snoc.prems j(1,4) that by (auto simp: sorted_wrt_append)
  qed
  then show ?case using snoc by (simp add: sorted_wrt_append copy_long_step Un_commute)
qed simp

lemma longs_cover: "(\<Union>j\<in>{0..<n}. {4 * j..<4 * j + 4}) = {0..<4 * n :: nat}"
proof (induction n)
  case (Suc n)
  have "{0..<Suc n} = insert n {0..<n}" by auto
  then show ?case using Suc by auto
qed simp

section \<open>Addresses that do not roll over\<close>

lemma unat_plus_nat:
  assumes "unat (p :: u32) + k < 2 ^ 32" shows "unat (p + of_nat k) = unat p + k"
proof -
  have "unat (of_nat k :: u32) = k" using assms by (intro unat_small) simp
  then show ?thesis using assms by (simp add: unat_word_ariths)
qed

lemma addr_neq:
  assumes "unat (p :: u32) + i < 2 ^ 32" "unat q + j < 2 ^ 32" "unat p + i \<noteq> unat q + j"
  shows "p + of_nat i \<noteq> q + of_nat j"
  using assms unat_plus_nat by metis

lemma unat_div4: "(len :: u32) mod 4 = 0 \<Longrightarrow> 4 * unat (len div 4) = unat len"
proof -
  assume "len mod 4 = 0"
  then have "unat (len mod 4) = 0" by (simp only: unat_0)
  then have "unat len mod 4 = 0" by (simp add: unat_mod)
  then show ?thesis by (simp add: unat_div) presburger
qed

lemma region_iff:
  assumes "unat (p :: u32) + n \<le> 2 ^ 32"
  shows "a \<in> (\<lambda>i. p + of_nat i) ` {0..<n} \<longleftrightarrow> unat p \<le> unat a \<and> unat a < unat p + n"
proof
  assume "a \<in> (\<lambda>i. p + of_nat i) ` {0..<n}"
  then show "unat p \<le> unat a \<and> unat a < unat p + n" using assms unat_plus_nat[of p] by auto
next
  assume a: "unat p \<le> unat a \<and> unat a < unat p + n"
  have "a = p + of_nat (unat a - unat p)" using a by (simp add: of_nat_diff)
  then show "a \<in> (\<lambda>i. p + of_nat i) ` {0..<n}" using a by (intro image_eqI[where x = "unat a - unat p"]) auto
qed

lemma copied_moved:
  assumes "unat dst + unat len \<le> 2 ^ 32"
  shows "copied dst src {0..<unat len} m = moved dst src len m"
  by (simp add: copied_def moved_def region_iff[OF assms])

text \<open>Both loops, with the order of the turns and what makes it right: no turn writes what a later one reads.\<close>

lemma char_loop:
  assumes "unat dst + unat len \<le> 2 ^ 32" "unat src + unat len \<le> 2 ^ 32" "set js = {0..<unat len}"
    "sorted_wrt (\<lambda>j i. unat src + i \<noteq> unat dst + j) js"
  shows "fold (copy_char dst src) js m = moved dst src len m"
proof -
  have "sorted_wrt (\<lambda>j i. src + of_nat i \<noteq> dst + of_nat j) js"
    by (rule sorted_wrt_mono_rel[OF _ assms(4)], rule addr_neq) (use assms(1-3) in auto)
  then show ?thesis using copy_chars[of src dst js m] copied_moved[OF assms(1)] by (simp add: assms(3))
qed

lemma long_loop:
  assumes "unat dst + unat len \<le> 2 ^ 32" "unat src + unat len \<le> 2 ^ 32" "len mod 4 = 0" "set js = {0..<unat (len div 4)}"
    "sorted_wrt (\<lambda>j i. \<forall>b<4. \<forall>c<4. unat src + (4 * i + b) \<noteq> unat dst + (4 * j + c)) js"
  shows "fold (copy_long dst src) js m = moved dst src len m"
proof -
  note n = unat_div4[OF assms(3)]
  have "sorted_wrt (\<lambda>j i. \<forall>b<4. \<forall>c<4. src + of_nat (4 * i + b) \<noteq> dst + of_nat (4 * j + c)) js"
  proof (rule sorted_wrt_mono_rel[OF _ assms(5)], intro allI impI)
    fix j i b c :: nat
    assume ji: "j \<in> set js" "i \<in> set js" "b < 4" "c < 4"
      and ne: "\<forall>b<4. \<forall>c<4. unat src + (4 * i + b) \<noteq> unat dst + (4 * j + c)"
    have "4 * i + b < unat len" "4 * j + c < unat len" using ji assms(4) n by auto
    then show "src + of_nat (4 * i + b) \<noteq> dst + of_nat (4 * j + c)"
      using assms(1,2) ne ji(3,4) by (intro addr_neq) auto
  qed
  then have "fold (copy_long dst src) js m = copied dst src {0..<unat len} m"
    using copy_longs[of src dst js m] by (simp add: assms(4) longs_cover n)
  then show ?thesis using copied_moved[OF assms(1)] by simp
qed

lemma memcpy_moved:
  assumes "unat dst + unat len \<le> 2 ^ 32" "unat src + unat len \<le> 2 ^ 32"
    "unat dst \<le> unat src \<or> unat src + unat len \<le> unat dst"
  shows "memcpy dst src len m = moved dst src len m"
proof (cases "dst mod 4 = 0 \<and> src mod 4 = 0 \<and> len mod 4 = 0")
  case True
  have n: "4 * unat (len div 4) \<le> unat len" by (simp add: unat_div)
  have "sorted_wrt (\<lambda>j i. \<forall>b<4. \<forall>c<4. unat src + (4 * i + b) \<noteq> unat dst + (4 * j + c)) [0..<unat (len div 4)]"
    by (rule sorted_wrt_mono_rel[OF _ sorted_wrt_upt]) (use assms(3) n in auto)
  then show ?thesis using long_loop[OF assms(1,2)] True by (simp add: memcpy_def)
next
  case False
  have "sorted_wrt (\<lambda>j i. unat src + i \<noteq> unat dst + j) [0..<unat len]"
    by (rule sorted_wrt_mono_rel[OF _ sorted_wrt_upt]) (use assms(3) in auto)
  then show ?thesis unfolding memcpy_def if_not_P[OF False] by (intro char_loop[OF assms(1,2)]) simp_all
qed

lemma memmove_moved:
  assumes "unat dst + unat len \<le> 2 ^ 32" "unat src + unat len \<le> 2 ^ 32"
  shows "memmove dst src len m = moved dst src len m"
proof (cases "dst < src")
  case True
  then show ?thesis using memcpy_moved[OF assms] by (simp add: memmove_def word_less_nat_alt)
next
  case False
  then have le: "unat src \<le> unat dst" by (simp add: word_less_nat_alt)
  show ?thesis
  proof (cases "dst mod 4 = 0 \<and> src mod 4 = 0 \<and> len mod 4 = 0")
    case True
    have "sorted_wrt (\<lambda>i j. \<forall>b<4. \<forall>c<4. unat src + (4 * i + b) \<noteq> unat dst + (4 * j + c)) [0..<unat (len div 4)]"
      by (rule sorted_wrt_mono_rel[OF _ sorted_wrt_upt]) (use le in auto)
    then have "sorted_wrt (\<lambda>j i. \<forall>b<4. \<forall>c<4. unat src + (4 * i + b) \<noteq> unat dst + (4 * j + c)) (rev [0..<unat (len div 4)])"
      by (simp add: sorted_wrt_rev)
    then show ?thesis using long_loop[OF assms] True \<open>\<not> dst < src\<close> by (simp add: memmove_def)
  next
    case False
    have "sorted_wrt (\<lambda>i j. unat src + i \<noteq> unat dst + j) [0..<unat len]"
      by (rule sorted_wrt_mono_rel[OF _ sorted_wrt_upt]) (use le in auto)
    then have "sorted_wrt (\<lambda>j i. unat src + i \<noteq> unat dst + j) (rev [0..<unat len])" by (simp add: sorted_wrt_rev)
    then show ?thesis unfolding memmove_def if_not_P[OF False] if_not_P[OF \<open>\<not> dst < src\<close>] by (intro char_loop[OF assms]) simp_all
  qed
qed

lemma zero_long: "store_long a 0 m = (\<lambda>x. if unat (x - a) < 4 then 0 else m x)"
proof -
  have "be32_put 0 = replicate 4 0" by (simp add: be32_put_def numeral_eq_Suc)
  then show ?thesis by (simp add: store_long_def store_bytes_nth fun_eq_iff)
qed

lemma fill_chars:
  "fold (\<lambda>i m. m(p + of_nat i := c)) js m = (\<lambda>a. if a \<in> (\<lambda>i. p + of_nat i) ` set js then c else m a)"
  by (induction js rule: rev_induct) (auto simp: fun_eq_iff)

lemma fill_longs:
  "fold (\<lambda>i. store_long (p + 4 * of_nat i) 0) js m
   = (\<lambda>a. if a \<in> (\<lambda>i. p + of_nat i) ` (\<Union>j\<in>set js. {4 * j..<4 * j + 4}) then 0 else m a)"
proof (induction js rule: rev_induct)
  case (snoc i js)
  then show ?case by (simp add: zero_long long_bytes image_Un fun_eq_iff)
qed simp

lemma memcmp_zero: "memcmp a b len m = 0 \<longleftrightarrow> (\<forall>i<unat len. m (a + of_nat i) = m (b + of_nat i))"
proof (cases "first_index (\<lambda>i. m (a + of_nat i) \<noteq> m (b + of_nat i)) (unat len)")
  case None
  then have "\<forall>i<unat len. m (a + of_nat i) = m (b + of_nat i)" by (simp add: first_index_None_iff)
  then show ?thesis by (simp add: memcmp_def None)
next
  case (Some i)
  then have "i < unat len" "m (a + of_nat i) \<noteq> m (b + of_nat i)" by (auto simp: first_index_Some_iff)
  then show ?thesis using Some by (auto simp: memcmp_def word_uint_eq_iff)
qed

section \<open>Properties\<close>

text \<open>C0. \<open>memmove\<close>, whichever of its loops runs (forwards or backwards, by words or by bytes), does
  what reading all bytes before writing any would do, for regions that overlap in any way as long
  as neither rolls over the top of memory; and so does \<open>memcpy\<close> when the destination starts no
  later than the source or past its end.\<close>

theorem memmove_correct:
  assumes "unat dst + unat len \<le> 2 ^ 32" and "unat src + unat len \<le> 2 ^ 32"
  shows "memmove dst src len m = moved dst src len m
     \<and> (unat dst \<le> unat src \<or> unat src + unat len \<le> unat dst \<longrightarrow> memcpy dst src len m = moved dst src len m)"
  using memmove_moved[OF assms] memcpy_moved[OF assms] by blast

theorem memmove_correct_witness:
  "memmove 101 100 3 (\<lambda>a. ucast a) 103 = 102 \<and> memcpy 101 100 3 (\<lambda>a. ucast a) 103 = 100"
proof -
  have "memmove 101 100 3 (\<lambda>a. ucast a) = moved 101 100 3 (\<lambda>a. ucast a)"
    using memmove_correct[of 101 3 100 "\<lambda>a. ucast a"] by simp
  moreover have "memcpy 101 100 3 (\<lambda>a. ucast a) 103 = 100" by code_simp
  ultimately show ?thesis by (simp add: moved_def)
qed

text \<open>\<open>bzero\<close> clears its block and nothing else, by words or by bytes; \<open>memset\<close> fills it.\<close>

lemma bzero_cleared:
  assumes "unat p + unat len \<le> 2 ^ 32"
  shows "bzero p len m = cleared p len 0 m" "memset p ch len m = cleared p len (word_of_int ch) m"
proof -
  show "memset p ch len m = cleared p len (word_of_int ch) m"
    by (simp add: memset_def fill_chars cleared_def region_iff[OF assms])
  show "bzero p len m = cleared p len 0 m"
    using region_iff[OF assms]
    by (auto simp: bzero_def fill_chars fill_longs longs_cover unat_div4 cleared_def)
qed

end
