(* ===== verification/Lib_String.thy ===== *)
theory Lib_String
  imports Lib_Mem
begin

text \<open>
  The string functions of \<open>src/lib/libc\<close>: \<open>strlen\<close>, \<open>strcmp\<close>, \<open>strcpy\<close>, \<open>strcat\<close>, \<open>strchr\<close>,
  \<open>strrchr\<close>, \<open>strtok_r\<close> and \<open>atoi\<close>, on the memory of \<open>Lib_Mem\<close>.

  A string is where its first character is; \<open>str_at m s xs\<close> says which characters stand there.  The
  loops look for the terminator and need not end where there is none, so they are partial functions;
  the lemmas show that they return on every string.  A \<open>char\<close> is signed, as the compiler has it.
  \<open>NULL\<close> is the address 0.
\<close>

section \<open>Model\<close>

partial_function (option) strlen_from :: "u32 \<Rightarrow> u32 \<Rightarrow> mem \<Rightarrow> u32 option" where
  "strlen_from s ret m = (if m (s + ret) \<noteq> 0 then strlen_from s (ret + 1) m else Some ret)"

definition strlen :: "u32 \<Rightarrow> mem \<Rightarrow> u32 option" where
  "strlen s m = strlen_from s 0 m"

partial_function (option) strcmp_from :: "u32 \<Rightarrow> u32 \<Rightarrow> u32 \<Rightarrow> mem \<Rightarrow> u32 option" where
  "strcmp_from a b i m =
     (if m (a + i) \<noteq> 0 \<and> m (a + i) = m (b + i) then strcmp_from a b (i + 1) m else Some i)"

definition strcmp :: "u32 \<Rightarrow> u32 \<Rightarrow> mem \<Rightarrow> int option" where
  "strcmp a b m = do {
     i \<leftarrow> strcmp_from a b 0 m;
     Some (if sint (m (a + i)) > sint (m (b + i)) then 1
           else if m (a + i) = m (b + i) then 0 else - 1) }"

partial_function (option) strcpy_from :: "u32 \<Rightarrow> u32 \<Rightarrow> u32 \<Rightarrow> mem \<Rightarrow> mem option" where
  "strcpy_from dest src i m =
     (if m (src + i) \<noteq> 0 then strcpy_from dest src (i + 1) (m(dest + i := m (src + i)))
      else Some (m(dest + i := 0)))"

definition strcpy :: "u32 \<Rightarrow> u32 \<Rightarrow> mem \<Rightarrow> mem option" where
  "strcpy dest src m = strcpy_from dest src 0 m"

definition strcat :: "u32 \<Rightarrow> u32 \<Rightarrow> mem \<Rightarrow> mem option" where
  "strcat dest src m = do {
     offset \<leftarrow> strlen dest m;
     strcpy (dest + offset) src m }"

partial_function (option) strchr :: "u32 \<Rightarrow> int \<Rightarrow> mem \<Rightarrow> u32 option" where
  "strchr s ch m =
     (if m s \<noteq> 0 then (if sint (m s) = ch then Some s else strchr (s + 1) ch m)
      else if sint (m s) = ch then Some s
      else Some 0)"

definition strrchr :: "u32 \<Rightarrow> int \<Rightarrow> mem \<Rightarrow> u32 option" where
  "strrchr s ch m = do {
     n \<leftarrow> strlen s m;
     Some (case find (\<lambda>i. sint (m (s + of_nat i)) = ch) (rev [0..<unat (n + 1)]) of
             Some i \<Rightarrow> s + of_nat i
           | None \<Rightarrow> 0) }"

partial_function (option) skip_seps :: "u32 \<Rightarrow> u32 \<Rightarrow> mem \<Rightarrow> u32 option" where
  "skip_seps head seps m =
     (if m head \<noteq> 0 then do {
        p \<leftarrow> strchr seps (sint (m head)) m;
        if p \<noteq> 0 then skip_seps (head + 1) seps m else Some head }
      else Some head)"

partial_function (option) skip_word :: "u32 \<Rightarrow> u32 \<Rightarrow> mem \<Rightarrow> u32 option" where
  "skip_word tail seps m =
     (if m tail \<noteq> 0 then do {
        p \<leftarrow> strchr seps (sint (m tail)) m;
        if p = 0 then skip_word (tail + 1) seps m else Some tail }
      else Some tail)"

text \<open>The result and \<open>*context\<close> as it is left.\<close>

definition strtok_r :: "u32 \<Rightarrow> u32 \<Rightarrow> u32 \<Rightarrow> mem \<Rightarrow> (u32 \<times> u32 \<times> mem) option" where
  "strtok_r string seps context m = do {
     let context = (if string \<noteq> 0 then string else context);
     if context = 0 then Some (0, context, m)
     else do {
       head \<leftarrow> skip_seps context seps m;
       if m head = 0 then Some (0, 0, m)
       else do {
         tail \<leftarrow> skip_word head seps m;
         if m tail = 0 then Some (head, 0, m)
         else Some (head, tail + 1, m(tail := 0)) } } }"

definition c_digits :: "u8 list" where
  "c_digits = map of_char ''0123456789''"

text \<open>\<open>strchr(digits, *s)\<close>, as the index it stands for.\<close>

definition digit_at :: "u8 \<Rightarrow> nat option" where
  "digit_at c = first_index (\<lambda>i. c_digits ! i = c) 10"

partial_function (option) skip_blanks :: "u32 \<Rightarrow> mem \<Rightarrow> u32 option" where
  "skip_blanks s m = (if m s = of_char CHR '' '' \<or> m s = 9 then skip_blanks (s + 1) m else Some s)"

partial_function (option) atoi_digits :: "u32 \<Rightarrow> u32 \<Rightarrow> mem \<Rightarrow> u32 option" where
  "atoi_digits s val m =
     (if m s \<noteq> 0 then
        (case digit_at (m s) of
           None \<Rightarrow> Some val
         | Some digit \<Rightarrow> atoi_digits (s + 1) (val * 10 + of_nat digit) m)
      else Some val)"

definition atoi :: "u32 \<Rightarrow> mem \<Rightarrow> int option" where
  "atoi s m = do {
     s \<leftarrow> skip_blanks s m;
     let neg = (m s = of_char CHR ''-'');
     let s = (if neg \<or> m s = of_char CHR ''+'' then s + 1 else s);
     val \<leftarrow> atoi_digits s 0 m;
     Some (if neg then sint (- val) else sint val) }"

section \<open>Strings in memory\<close>

fun str_at :: "mem \<Rightarrow> u32 \<Rightarrow> u8 list \<Rightarrow> bool" where
  "str_at m s [] \<longleftrightarrow> m s = 0"
| "str_at m s (x # xs) \<longleftrightarrow> x \<noteq> 0 \<and> m s = x \<and> str_at m (s + 1) xs"

lemma str_at_append: "str_at m s (xs @ ys) \<longleftrightarrow> 0 \<notin> set xs \<and> (\<forall>i<length xs. m (s + of_nat i) = xs ! i) \<and> str_at m (s + of_nat (length xs)) ys"
proof (induction xs arbitrary: s)
  case (Cons x xs)
  have "(\<forall>i<length (x # xs). m (s + of_nat i) = (x # xs) ! i) \<longleftrightarrow> m s = x \<and> (\<forall>i<length xs. m (s + 1 + of_nat i) = xs ! i)"
    by (simp add: All_less_Suc2 add.assoc)
  then show ?case using Cons by (auto simp: add.assoc)
qed simp

lemma str_at_nth: "str_at m s xs \<longleftrightarrow> 0 \<notin> set xs \<and> (\<forall>i<length xs. m (s + of_nat i) = xs ! i) \<and> m (s + of_nat (length xs)) = 0"
  using str_at_append[of m s xs "[]"] by simp

lemma strlen_from_at: "str_at m (s + ret) xs \<Longrightarrow> strlen_from s ret m = Some (ret + of_nat (length xs))"
proof (induction xs arbitrary: ret)
  case Nil
  then show ?case by (simp add: strlen_from.simps)
next
  case (Cons x xs)
  then show ?case by (subst strlen_from.simps) (simp add: add.assoc)
qed

lemma strlen_at: "str_at m s xs \<Longrightarrow> strlen s m = Some (of_nat (length xs))"
  using strlen_from_at[of m s 0 xs] by (simp add: strlen_def)

lemma strcmp_from_at:
  assumes "str_at m (a + i) xs" "str_at m (b + i) ys"
  obtains k where "strcmp_from a b i m = Some k" "m (a + k) = m (b + k) \<longleftrightarrow> xs = ys"
  using assms
proof (induction xs arbitrary: i ys thesis)
  case Nil
  then show thesis by (cases ys) (auto simp: strcmp_from.simps)
next
  case (Cons x xs)
  show thesis
  proof (cases "m (b + i) = x")
    case True
    then obtain ys' where ys: "ys = x # ys'" "str_at m (b + (i + 1)) ys'" using Cons.prems by (cases ys) (auto simp: add.assoc)
    have "str_at m (a + (i + 1)) xs" using Cons.prems by (simp add: add.assoc)
    then obtain k where "strcmp_from a b (i + 1) m = Some k" "m (a + k) = m (b + k) \<longleftrightarrow> xs = ys'"
      using Cons.IH ys(2) by blast
    then show thesis using Cons.prems True ys(1) by (subst (asm) (1) strcmp_from.simps[of a b i]) auto
  next
    case False
    then show thesis using Cons.prems by (cases ys) (auto simp: strcmp_from.simps[of a b i])
  qed
qed

lemma strcmp_at:
  assumes "str_at m a xs" "str_at m b ys"
  obtains r where "strcmp a b m = Some r" "r \<in> {-1, 0, 1}" "r = 0 \<longleftrightarrow> xs = ys"
proof -
  obtain k where k: "strcmp_from a b 0 m = Some k" "m (a + k) = m (b + k) \<longleftrightarrow> xs = ys"
    using strcmp_from_at[of m a 0 xs b ys] assms by auto
  then show thesis using that by (auto simp: strcmp_def split: if_splits)
qed

text \<open>Copying to where the source is not.\<close>

lemma str_at_other: "str_at m s xs \<Longrightarrow> \<forall>i\<le>length xs. p \<noteq> s + of_nat i \<Longrightarrow> str_at (m(p := c)) s xs"
proof -
  assume s: "str_at m s xs" and p: "\<forall>i\<le>length xs. p \<noteq> s + of_nat i"
  have "(m(p := c)) (s + of_nat i) = m (s + of_nat i)" if "i \<le> length xs" for i using p that by (metis fun_upd_other)
  then show ?thesis using s by (simp add: str_at_nth)
qed

lemma strcpy_from_at:
  "str_at m (src + i) xs \<Longrightarrow> \<forall>j\<le>length xs. \<forall>k\<le>length xs. dest + i + of_nat j \<noteq> src + i + of_nat k \<Longrightarrow>
   strcpy_from dest src i m = Some (store_bytes (dest + i) (xs @ [0]) m)"
proof (induction xs arbitrary: i m)
  case Nil
  then show ?case by (simp add: strcpy_from.simps fun_upd_def)
next
  case (Cons x xs)
  let ?m = "m(dest + i := x)"
  have a: "dest + i \<noteq> src + (i + 1) + of_nat j" if "j \<le> length xs" for j
    using Cons.prems(2)[rule_format, of 0 "Suc j"] that by (simp add: algebra_simps)
  have b: "dest + (i + 1) + of_nat j \<noteq> src + (i + 1) + of_nat k" if "j \<le> length xs" "k \<le> length xs" for j k
    using Cons.prems(2)[rule_format, of "Suc j" "Suc k"] that by (simp add: algebra_simps)
  have "str_at ?m (src + (i + 1)) xs" using Cons.prems(1) a by (intro str_at_other) (simp_all add: add.assoc)
  then have "strcpy_from dest src (i + 1) ?m = Some (store_bytes (dest + (i + 1)) (xs @ [0]) ?m)"
    by (rule Cons.IH) (use b in blast)
  then show ?case using Cons.prems(1) by (subst strcpy_from.simps) (simp add: add.assoc fun_upd_def)
qed

lemma store_str_at: "0 \<notin> set xs \<Longrightarrow> length xs < 2 ^ 32 - 1 \<Longrightarrow> str_at (store_bytes p (xs @ [0]) m) p xs"
  by (auto simp: str_at_nth store_bytes_nth unat_small nth_append)

lemma strcpy_at:
  assumes "str_at m src xs" "\<forall>j\<le>length xs. \<forall>k\<le>length xs. dest + of_nat j \<noteq> src + of_nat k"
  shows "strcpy dest src m = Some (store_bytes dest (xs @ [0]) m)"
  using strcpy_from_at[of m src 0 xs dest] assms by (simp add: strcpy_def)

text \<open>Searching.\<close>

definition occurs :: "int \<Rightarrow> u8 list \<Rightarrow> bool" where
  "occurs ch xs \<longleftrightarrow> ch \<in> sint ` set xs"

lemma strchr_at:
  assumes "str_at m s xs" "ch \<noteq> 0"
  shows "strchr s ch m = Some (if occurs ch xs then s + of_nat (length (takeWhile (\<lambda>x. sint x \<noteq> ch) xs)) else 0)"
  using assms
proof (induction xs arbitrary: s)
  case Nil
  then show ?case by (simp add: strchr.simps occurs_def)
next
  case (Cons x xs)
  then show ?case by (subst strchr.simps) (auto simp: occurs_def add.assoc)
qed

text \<open>A string that does not reach the top of memory has no character at address 0.\<close>

definition below_top :: "u32 \<Rightarrow> u8 list \<Rightarrow> bool" where
  "below_top s xs \<longleftrightarrow> 0 < unat s \<and> unat s + length xs < 2 ^ 32"

lemma below_top_addr: "below_top s xs \<Longrightarrow> i \<le> length xs \<Longrightarrow> s + of_nat i \<noteq> 0"
  using addr_neq[of s i 0 0] by (auto simp: below_top_def)

lemma strchr_null:
  assumes "str_at m s xs" "below_top s xs" "ch \<noteq> 0"
  obtains p where "strchr s ch m = Some p" "p \<noteq> 0 \<longleftrightarrow> occurs ch xs"
proof -
  have "length (takeWhile (\<lambda>x. sint x \<noteq> ch) xs) \<le> length xs" by (simp add: length_takeWhile_le)
  then have "s + of_nat (length (takeWhile (\<lambda>x. sint x \<noteq> ch) xs)) \<noteq> 0" by (rule below_top_addr[OF assms(2)])
  then show thesis using that strchr_at[OF assms(1,3)] by simp
qed

definition sep :: "u8 list \<Rightarrow> u8 \<Rightarrow> bool" where
  "sep seps x \<longleftrightarrow> x \<in> set seps"

lemma occurs_sep: "occurs (sint x) seps \<longleftrightarrow> sep seps x"
  by (auto simp: occurs_def sep_def image_iff dest: signed_word_eqI)

lemma skip_seps_at:
  assumes "str_at m h xs" "str_at m ps seps" "below_top ps seps"
  shows "skip_seps h ps m = Some (h + of_nat (length (takeWhile (sep seps) xs)))"
  using assms(1)
proof (induction xs arbitrary: h)
  case Nil
  then show ?case by (simp add: skip_seps.simps)
next
  case (Cons x xs)
  then have x: "m h = x" "x \<noteq> 0" "sint x \<noteq> 0" using signed_word_eqI[of x 0] by auto
  obtain p where p: "strchr ps (sint x) m = Some p" "p \<noteq> 0 \<longleftrightarrow> occurs (sint x) seps"
    by (rule strchr_null[OF assms(2,3) x(3)])
  then show ?case using Cons x by (subst skip_seps.simps) (simp add: occurs_sep add.assoc)
qed

lemma skip_word_at:
  assumes "str_at m h xs" "str_at m ps seps" "below_top ps seps"
  shows "skip_word h ps m = Some (h + of_nat (length (takeWhile (\<lambda>x. \<not> sep seps x) xs)))"
  using assms(1)
proof (induction xs arbitrary: h)
  case Nil
  then show ?case by (simp add: skip_word.simps)
next
  case (Cons x xs)
  then have x: "m h = x" "x \<noteq> 0" "sint x \<noteq> 0" using signed_word_eqI[of x 0] by auto
  obtain p where p: "strchr ps (sint x) m = Some p" "p \<noteq> 0 \<longleftrightarrow> occurs (sint x) seps"
    by (rule strchr_null[OF assms(2,3) x(3)])
  then show ?case using Cons x by (subst skip_word.simps) (auto simp: occurs_sep add.assoc)
qed

text \<open>What one call of \<open>strtok_r\<close> finds: the first word, and what follows the separator after it.\<close>

definition first_word :: "u8 list \<Rightarrow> u8 list \<Rightarrow> u8 list" where
  "first_word seps xs = takeWhile (\<lambda>x. \<not> sep seps x) (dropWhile (sep seps) xs)"

definition after_word :: "u8 list \<Rightarrow> u8 list \<Rightarrow> u8 list" where
  "after_word seps xs = dropWhile (\<lambda>x. \<not> sep seps x) (dropWhile (sep seps) xs)"

lemma words_split: "xs = takeWhile (sep seps) xs @ first_word seps xs @ after_word seps xs"
  by (simp add: first_word_def after_word_def)

lemma strtok_head:
  assumes "str_at m s xs" "s \<noteq> 0" "str_at m ps seps" "below_top ps seps" "dropWhile (sep seps) xs = []"
  shows "strtok_r s ps context m = Some (0, 0, m)"
proof -
  have t: "takeWhile (sep seps) xs = xs" using takeWhile_dropWhile_id[of "sep seps" xs] assms(5) by simp
  have "m (s + of_nat (length xs)) = 0" using assms(1) by (simp add: str_at_nth)
  then show ?thesis using skip_seps_at[OF assms(1,3,4)] t assms(2) by (simp add: strtok_r_def)
qed

lemma strtok_word:
  assumes "str_at m s xs" "s \<noteq> 0" "str_at m ps seps" "below_top ps seps" "dropWhile (sep seps) xs \<noteq> []"
  shows "strtok_r s ps context m =
    (let head = s + of_nat (length (takeWhile (sep seps) xs)); tail = head + of_nat (length (first_word seps xs)) in
     if after_word seps xs = [] then Some (head, 0, m) else Some (head, tail + 1, m(tail := 0)))"
proof -
  let ?h = "s + of_nat (length (takeWhile (sep seps) xs))"
  let ?ys = "dropWhile (sep seps) xs"
  have h: "str_at m ?h ?ys" using assms(1) str_at_append[of m s "takeWhile (sep seps) xs" ?ys] by simp
  then have nz: "m ?h \<noteq> 0" using assms(5) by (cases ?ys) auto
  have "str_at m (?h + of_nat (length (first_word seps xs))) (after_word seps xs)"
    using h str_at_append[of m ?h "first_word seps xs" "after_word seps xs"] by (simp add: first_word_def after_word_def)
  then have t: "m (?h + of_nat (length (first_word seps xs))) = 0 \<longleftrightarrow> after_word seps xs = []"
    by (cases "after_word seps xs") auto
  show ?thesis using skip_seps_at[OF assms(1,3,4)] skip_word_at[OF h assms(3,4)] nz t assms(2)
    by (simp add: strtok_r_def Let_def first_word_def)
qed

section \<open>Numbers\<close>

definition digit_char :: "nat \<Rightarrow> u8" where
  "digit_char d = c_digits ! d"

definition decimal_value :: "nat list \<Rightarrow> nat" where
  "decimal_value ds = foldl (\<lambda>v d. v * 10 + d) 0 ds"

lemma less10: "d < 10 \<longleftrightarrow> d \<in> {0, 1, 2, 3, 4, 5, 6, 7, 8, 9 :: nat}"
  by auto

lemma digit_char_facts:
  assumes "d < 10"
  shows "digit_at (digit_char d) = Some d" "digit_char d \<noteq> 0" "digit_char d \<noteq> of_char CHR ''-''" "digit_char d \<noteq> of_char CHR ''+''"
    "digit_char d \<noteq> of_char CHR '' ''" "digit_char d \<noteq> 9"
proof -
  have "digit_at (digit_char d) = Some d \<and> digit_char d \<noteq> 0 \<and> digit_char d \<noteq> of_char CHR ''-'' \<and> digit_char d \<noteq> of_char CHR ''+''
    \<and> digit_char d \<noteq> of_char CHR '' '' \<and> digit_char d \<noteq> 9"
    using assms unfolding less10 by (elim insertE emptyE; hypsubst; code_simp)
  then show "digit_at (digit_char d) = Some d" "digit_char d \<noteq> 0" "digit_char d \<noteq> of_char CHR ''-''" "digit_char d \<noteq> of_char CHR ''+''"
    "digit_char d \<noteq> of_char CHR '' ''" "digit_char d \<noteq> 9" by auto
qed

lemma atoi_digits_at:
  "str_at m s (map digit_char ds) \<Longrightarrow> \<forall>d\<in>set ds. d < 10 \<Longrightarrow>
   atoi_digits s val m = Some (foldl (\<lambda>v d. v * 10 + of_nat d) val ds)"
proof (induction ds arbitrary: s val)
  case Nil
  then show ?case by (simp add: atoi_digits.simps)
next
  case (Cons d ds)
  then show ?case by (subst atoi_digits.simps) (auto simp: digit_char_facts)
qed

lemma foldl_of_nat: "foldl (\<lambda>v d. v * 10 + of_nat d) (of_nat v) ds = (of_nat (foldl (\<lambda>v d. v * 10 + d) v ds) :: u32)"
proof (induction ds arbitrary: v)
  case (Cons d ds)
  then show ?case using Cons[of "v * 10 + d"] by simp
qed simp

text \<open>What \<open>atoi\<close> makes of a decimal numeral, with or without a minus sign.\<close>

lemma atoi_numeral:
  assumes "str_at m s (map digit_char ds)" "\<forall>d\<in>set ds. d < 10" "ds \<noteq> []"
  shows "atoi s m = Some (sint (of_nat (decimal_value ds) :: u32))"
proof -
  obtain d ds' where d: "ds = d # ds'" using assms(3) by (cases ds) auto
  then have "m s = digit_char d" "d < 10" using assms by auto
  then have "skip_blanks s m = Some s" "m s \<noteq> of_char CHR ''-''" "m s \<noteq> of_char CHR ''+''"
    using digit_char_facts[of d] by (auto simp: skip_blanks.simps)
  then show ?thesis using atoi_digits_at[OF assms(1,2), of 0] foldl_of_nat[of 0 ds]
    by (simp add: atoi_def decimal_value_def)
qed

lemma atoi_minus:
  assumes "str_at m s (of_char CHR ''-'' # map digit_char ds)" "\<forall>d\<in>set ds. d < 10"
  shows "atoi s m = Some (sint (- of_nat (decimal_value ds) :: u32))"
proof -
  have "m s = of_char CHR ''-''" using assms(1) by simp
  then have "skip_blanks s m = Some s" by (simp add: skip_blanks.simps)
  then show ?thesis using atoi_digits_at[of m "s + 1" ds 0] assms foldl_of_nat[of 0 ds]
    by (simp add: atoi_def decimal_value_def)
qed

end
