(* ===== verification/Lib_Printf.thy ===== *)
theory Lib_Printf
  imports Lib_String
begin

text \<open>
  Formatted output: \<open>__printf.c\<close> and \<open>snprintf.c\<close> of \<open>src/lib/libc\<close>, shared by the kernel's
  \<open>kprintf\<close> and the programs' \<open>printf\<close>.

  The state of a session is the record \<open>pf\<close> together with the client's data, which the send function
  changes.  The variable arguments are a list; a string argument is its characters, or \<open>None\<close> for a
  null pointer, so a format, its string arguments and the buffer of \<open>snprintf\<close> are apart.
  \<open>pf_simulation\<close> relates two send functions; through it \<open>snprintf\<close> is compared with output that is
  just collected.
\<close>

section \<open>Model\<close>

abbreviation asc :: "char \<Rightarrow> u8" where
  "asc c \<equiv> of_char c"

datatype varg = VWord u32 | VStr "u8 list option"

datatype intsize = INTSZ | LONGSZ

record pf =
  pf_ap :: "varg list"
  pf_charcount :: int
  pf_in_pct :: bool
  pf_size :: intsize
  pf_num :: u32
  pf_sign :: int
  pf_spacing :: int
  pf_rightspc :: bool
  pf_fillchar :: u8
  pf_base :: u32
  pf_baseprefix :: bool
  pf_altformat :: bool

type_synonym 'c sendfunc = "u8 list \<Rightarrow> 'c \<Rightarrow> 'c option"

definition pf_print :: "'c sendfunc \<Rightarrow> u8 list \<Rightarrow> pf \<times> 'c \<Rightarrow> (pf \<times> 'c) option" where
  "pf_print send str = (\<lambda>(pf, c). do {
     c \<leftarrow> send str c;
     Some (pf\<lparr>pf_charcount := c_int (pf_charcount pf + int (length str))\<rparr>, c) })"

definition pf_endfield :: "pf \<Rightarrow> pf" where
  "pf_endfield pf = pf\<lparr>pf_in_pct := False, pf_size := INTSZ, pf_num := 0, pf_sign := 0, pf_spacing := 0,
     pf_rightspc := False, pf_fillchar := asc CHR '' '', pf_base := 0, pf_baseprefix := False, pf_altformat := False\<rparr>"

definition pf_modifier :: "u8 \<Rightarrow> pf \<Rightarrow> pf option" where
  "pf_modifier ch pf =
     (if ch = asc CHR ''#'' then Some (pf\<lparr>pf_altformat := True\<rparr>)
      else if ch = asc CHR ''-'' then Some (pf\<lparr>pf_rightspc := True\<rparr>)
      else if ch = asc CHR ''l'' then Some (if pf_size pf = LONGSZ then pf else pf\<lparr>pf_size := LONGSZ\<rparr>)
      else if ch = asc CHR ''q'' then Some (pf\<lparr>pf_size := LONGSZ\<rparr>)
      else if ch = asc CHR ''0'' then
        Some (if pf_spacing pf > 0 then pf\<lparr>pf_spacing := c_int (pf_spacing pf * 10)\<rparr>
              else pf\<lparr>pf_fillchar := asc CHR ''0''\<rparr>)
      else do {
        kassert (ch > asc CHR ''0'' \<and> ch \<le> asc CHR ''9'');
        Some (pf\<lparr>pf_spacing := c_int (pf_spacing pf * 10 + (uint ch - 48))\<rparr>) })"

text \<open>\<open>va_arg\<close>: the next argument, of the kind that is asked for.\<close>

definition va_word :: "pf \<Rightarrow> (u32 \<times> pf) option" where
  "va_word pf = (case pf_ap pf of VWord w # ap \<Rightarrow> Some (w, pf\<lparr>pf_ap := ap\<rparr>) | _ \<Rightarrow> None)"

definition va_str :: "pf \<Rightarrow> (u8 list option \<times> pf) option" where
  "va_str pf = (case pf_ap pf of VStr s # ap \<Rightarrow> Some (s, pf\<lparr>pf_ap := ap\<rparr>) | _ \<Rightarrow> None)"

text \<open>An \<open>int\<close>, a \<open>long\<close> and a pointer have 32 bits; \<open>- signednum\<close> wraps for the least number.\<close>

definition pf_getnum :: "u8 \<Rightarrow> pf \<Rightarrow> pf option" where
  "pf_getnum ch pf = do {
     (w, pf) \<leftarrow> va_word pf;
     Some (if ch = asc CHR ''d'' \<and> sint w < 0 then pf\<lparr>pf_sign := - 1, pf_num := - w\<rparr>
           else pf\<lparr>pf_num := w\<rparr>) }"

definition pf_setbase :: "u8 \<Rightarrow> pf \<Rightarrow> pf" where
  "pf_setbase ch pf =
     (let pf = (if ch = asc CHR ''d'' \<or> ch = asc CHR ''u'' then pf\<lparr>pf_base := 10\<rparr>
                else if ch = asc CHR ''x'' \<or> ch = asc CHR ''p'' then pf\<lparr>pf_base := 16\<rparr>
                else if ch = asc CHR ''o'' then pf\<lparr>pf_base := 8\<rparr>
                else pf)
      in if pf_altformat pf \<or> ch = asc CHR ''p'' then pf\<lparr>pf_baseprefix := True\<rparr> else pf)"

fun pf_fill :: "'c sendfunc \<Rightarrow> nat \<Rightarrow> pf \<times> 'c \<Rightarrow> (pf \<times> 'c) option" where
  "pf_fill send 0 st = Some st"
| "pf_fill send (Suc n) st = do {
     st \<leftarrow> pf_print send [pf_fillchar (fst st)] st;
     pf_fill send n st }"

definition pf_printstuff :: "'c sendfunc \<Rightarrow> u8 list \<Rightarrow> u8 list \<Rightarrow> u8 list \<Rightarrow> pf \<times> 'c \<Rightarrow> (pf \<times> 'c) option" where
  "pf_printstuff send prefix prefix2 stuff st = do {
     let pf = fst st;
     let len = c_int (int (length prefix) + int (length prefix2) + int (length stuff));
     let spc = (if pf_spacing pf > len then c_int (pf_spacing pf - len) else 0);
     st \<leftarrow> (if spc > 0 \<and> \<not> pf_rightspc pf \<and> pf_fillchar pf \<noteq> asc CHR ''0'' then pf_fill send (nat spc) st else Some st);
     st \<leftarrow> pf_print send prefix st;
     st \<leftarrow> pf_print send prefix2 st;
     st \<leftarrow> (if spc > 0 \<and> \<not> pf_rightspc pf \<and> pf_fillchar pf = asc CHR ''0'' then pf_fill send (nat spc) st else Some st);
     st \<leftarrow> pf_print send stuff st;
     if spc > 0 \<and> pf_rightspc pf then pf_fill send (nat spc) st else Some st }"

definition NUMBER_BUF_SIZE :: nat where
  "NUMBER_BUF_SIZE = (4 * 8) div 3 + 2"

definition pf_hexdigits :: "u8 list" where
  "pf_hexdigits = map of_char ''0123456789abcdef''"

text \<open>
  The loop of \<open>__pf_printnum\<close>, from right to left in the buffer.  Base 0 divides by zero and base 1
  does not end; \<open>__pf_setbase\<close> sets neither.
\<close>

function pf_digits :: "u32 \<Rightarrow> u32 \<Rightarrow> u8 list \<Rightarrow> int \<Rightarrow> (u8 list \<times> int) option" where
  "pf_digits base xnum buf x =
     (if base \<le> 1 then None
      else do {
        d \<leftarrow> rd pf_hexdigits (uint (xnum mod base));
        buf \<leftarrow> wr buf x d;
        if xnum div base > 0 then pf_digits base (xnum div base) buf (x - 1) else Some (buf, x - 1) })"
  by pat_completeness auto
termination
proof (relation "measure (\<lambda>(base, xnum, buf, x). unat xnum)", goal_cases)
  case (2 base xnum buf x d buf')
  then have b: "1 < unat base" by (simp add: word_le_nat_alt)
  have "0 < unat xnum" using 2 by (cases "xnum = 0") (auto simp: unat_gt_0)
  then have "unat xnum div unat base < unat xnum" using b by (rule div_less_dividend[rotated])
  then show ?case by (simp add: unat_div)
qed simp

declare pf_digits.simps [simp del]

definition pf_printnum :: "'c sendfunc \<Rightarrow> pf \<times> 'c \<Rightarrow> (pf \<times> 'c) option" where
  "pf_printnum send st = do {
     let pf = fst st;
     let x = int NUMBER_BUF_SIZE - 1;
     buf \<leftarrow> wr (replicate NUMBER_BUF_SIZE 0) x 0;
     (buf, x) \<leftarrow> pf_digits (pf_base pf) (pf_num pf) buf (x - 1);
     let x = x + 1;
     let bprefix = (if pf_baseprefix pf \<and> pf_base pf = 16 then map of_char ''0x''
                    else if pf_baseprefix pf \<and> pf_base pf = 8 then map of_char ''0'' else []);
     let sprefix = (if pf_sign pf \<noteq> 0 then map of_char ''-'' else []);
     pf_printstuff send sprefix bprefix (takeWhile (\<lambda>c. c \<noteq> 0) (drop (nat x) buf)) st }"

definition pf_send :: "'c sendfunc \<Rightarrow> u8 \<Rightarrow> pf \<times> 'c \<Rightarrow> (pf \<times> 'c) option" where
  "pf_send send ch st = do {
     kassert (ch \<noteq> 0);
     let (pf, c) = st;
     if \<not> pf_in_pct pf \<and> ch \<noteq> asc CHR ''%'' then pf_print send [ch] st
     else if \<not> pf_in_pct pf then Some (pf\<lparr>pf_in_pct := True\<rparr>, c)
     else if ch \<in> set (map of_char ''#-ql0123456789'') then do {
       pf \<leftarrow> pf_modifier ch pf;
       Some (pf, c) }
     else if ch \<in> set (map of_char ''doupx'') then do {
       pf \<leftarrow> pf_getnum ch pf;
       (pf, c) \<leftarrow> pf_printnum send (pf_setbase ch pf, c);
       Some (pf_endfield pf, c) }
     else if ch = asc CHR ''s'' then do {
       (str, pf) \<leftarrow> va_str pf;
       (pf, c) \<leftarrow> pf_printstuff send [] [] (case str of None \<Rightarrow> map of_char ''(null)'' | Some s \<Rightarrow> s) (pf, c);
       Some (pf_endfield pf, c) }
     else do {
       (x, pf) \<leftarrow> (if ch = asc CHR ''c'' then do { (w, pf) \<leftarrow> va_word pf; Some (ucast w, pf) } else Some (ch, pf));
       (pf, c) \<leftarrow> pf_printstuff send [] [] (if x = 0 then [] else [x]) (pf, c);
       Some (pf_endfield pf, c) } }"

fun pf_sends :: "'c sendfunc \<Rightarrow> u8 list \<Rightarrow> pf \<times> 'c \<Rightarrow> (pf \<times> 'c) option" where
  "pf_sends send [] st = Some st"
| "pf_sends send (ch # chs) st = do { st \<leftarrow> pf_send send ch st; pf_sends send chs st }"

definition pf_init :: "varg list \<Rightarrow> pf" where
  "pf_init ap = pf_endfield \<lparr>pf_ap = ap, pf_charcount = 0, pf_in_pct = False, pf_size = INTSZ, pf_num = 0, pf_sign = 0,
     pf_spacing = 0, pf_rightspc = False, pf_fillchar = 0, pf_base = 0, pf_baseprefix = False, pf_altformat = False\<rparr>"

definition vprintf :: "'c sendfunc \<Rightarrow> 'c \<Rightarrow> u8 list \<Rightarrow> varg list \<Rightarrow> (int \<times> 'c) option" where
  "vprintf send clientdata format ap = do {
     (pf, c) \<leftarrow> pf_sends send format (pf_init ap, clientdata);
     Some (pf_charcount pf, c) }"

subsection \<open>Printing into a buffer\<close>

record snp =
  snp_buf :: "u8 list"
  snp_buflen :: u32
  snp_bufpos :: u32

fun snprintf_send :: "u8 list \<Rightarrow> snp \<Rightarrow> snp option" where
  "snprintf_send [] snp = Some snp"
| "snprintf_send (c # cs) snp =
     (if snp_bufpos snp < snp_buflen snp then do {
        buf \<leftarrow> wr (snp_buf snp) (uint (snp_bufpos snp)) c;
        snprintf_send cs (snp\<lparr>snp_buf := buf, snp_bufpos := snp_bufpos snp + 1\<rparr>) }
      else snprintf_send cs snp)"

definition vsnprintf :: "u8 list \<Rightarrow> u32 \<Rightarrow> u8 list \<Rightarrow> varg list \<Rightarrow> (int \<times> u8 list) option" where
  "vsnprintf buf len fmt ap = do {
     (chars, snp) \<leftarrow> vprintf snprintf_send
       \<lparr>snp_buf = buf, snp_buflen = (if len = 0 then 0 else len - 1), snp_bufpos = 0\<rparr> fmt ap;
     buf \<leftarrow> (if len > 0 then wr (snp_buf snp) (uint (snp_bufpos snp)) 0 else Some (snp_buf snp));
     Some (chars, buf) }"

text \<open>Output that is only collected.\<close>

definition collect :: "u8 list sendfunc" where
  "collect str out = Some (out @ str)"

section \<open>Two ways to send\<close>

definition sim :: "('c \<Rightarrow> 'd \<Rightarrow> bool) \<Rightarrow> (pf \<times> 'c) option \<Rightarrow> (pf \<times> 'd) option \<Rightarrow> bool" where
  "sim R x y \<longleftrightarrow> (\<forall>pf c. x = Some (pf, c) \<longrightarrow> (\<exists>d. y = Some (pf, d) \<and> R c d))"

lemma sim_Some [simp]: "sim R (Some (pf, c)) (Some (pf', d)) \<longleftrightarrow> pf' = pf \<and> R c d"
  by (auto simp: sim_def)

lemma sim_None [simp]: "sim R None y"
  by (simp add: sim_def)

lemma sim_bind:
  assumes "sim R x y" "\<And>pf c d. R c d \<Longrightarrow> sim R (f (pf, c)) (g (pf, d))"
  shows "sim R (x \<bind> f) (y \<bind> g)"
proof (cases x)
  case (Some st)
  then obtain pf c where x: "x = Some (pf, c)" by (cases st) auto
  then obtain d where "y = Some (pf, d)" "R c d" using assms(1) by (auto simp: sim_def)
  then show ?thesis using assms(2) x by simp
qed simp

lemma sim_bind_same: "(\<And>v. x = Some v \<Longrightarrow> sim R (f v) (g v)) \<Longrightarrow> sim R (x \<bind> f) (x \<bind> g)"
  by (cases x) auto

locale pf_simulation =
  fixes send1 :: "'c sendfunc" and send2 :: "'d sendfunc" and R :: "'c \<Rightarrow> 'd \<Rightarrow> bool"
  assumes step: "R c d \<Longrightarrow> send1 str c = Some c' \<Longrightarrow> \<exists>d'. send2 str d = Some d' \<and> R c' d'"
begin

lemma print_sim: "R c d \<Longrightarrow> sim R (pf_print send1 str (pf, c)) (pf_print send2 str (pf, d))"
  using step by (fastforce simp: pf_print_def sim_def bind_eq_Some_conv)

lemma fill_sim: "R c d \<Longrightarrow> sim R (pf_fill send1 n (pf, c)) (pf_fill send2 n (pf, d))"
proof (induction n arbitrary: pf c d)
  case (Suc n)
  then show ?case by (auto intro!: sim_bind print_sim)
qed simp

lemma when_sim: "R c d \<Longrightarrow> sim R (if b then pf_fill send1 n (pf, c) else Some (pf, c)) (if b then pf_fill send2 n (pf, d) else Some (pf, d))"
  by (simp add: fill_sim)

lemma printstuff_sim: "R c d \<Longrightarrow> sim R (pf_printstuff send1 p q s (pf, c)) (pf_printstuff send2 p q s (pf, d))"
  unfolding pf_printstuff_def Let_def fst_conv
  by (intro sim_bind when_sim print_sim) assumption+

lemma printnum_sim: "R c d \<Longrightarrow> sim R (pf_printnum send1 (pf, c)) (pf_printnum send2 (pf, d))"
  unfolding pf_printnum_def Let_def fst_conv
  by (intro sim_bind_same) (simp add: printstuff_sim split: prod.splits)

lemma send_sim:
  assumes "R c d" shows "sim R (pf_send send1 ch (pf, c)) (pf_send send2 ch (pf, d))"
proof -
  have e: "sim R (x \<bind> (\<lambda>(pf, c). Some (pf_endfield pf, c))) (y \<bind> (\<lambda>(pf, c). Some (pf_endfield pf, c)))"
    if "sim R x y" for x :: "(pf \<times> 'c) option" and y :: "(pf \<times> 'd) option"
    using that by (rule sim_bind) simp
  show ?thesis unfolding pf_send_def Let_def prod.case
    using assms by (auto intro!: sim_bind_same e print_sim printnum_sim printstuff_sim split: prod.splits)
qed

lemma sends_sim: "R c d \<Longrightarrow> sim R (pf_sends send1 fmt (pf, c)) (pf_sends send2 fmt (pf, d))"
proof (induction fmt arbitrary: pf c d)
  case (Cons ch fmt)
  then show ?case by (auto intro!: sim_bind send_sim)
qed simp

lemma vprintf_sim:
  assumes "R c d" "vprintf send1 c fmt ap = Some (n, c')"
  obtains d' where "vprintf send2 d fmt ap = Some (n, d')" "R c' d'"
proof -
  obtain pf where "pf_sends send1 fmt (pf_init ap, c) = Some (pf, c')" "n = pf_charcount pf"
    using assms(2) by (auto simp: vprintf_def bind_eq_Some_conv)
  then show thesis using sends_sim[OF assms(1), of fmt "pf_init ap"] that by (auto simp: sim_def vprintf_def)
qed

end

text \<open>The buffer of \<open>snprintf\<close> holds what has been sent, as far as there is room.\<close>

definition snp_rel :: "u8 list \<Rightarrow> u32 \<Rightarrow> u8 list \<Rightarrow> snp \<Rightarrow> bool" where
  "snp_rel buf n out snp \<longleftrightarrow> unat n \<le> length buf \<and> snp_buflen snp = n
     \<and> unat (snp_bufpos snp) = min (unat n) (length out)
     \<and> snp_buf snp = take (unat n) out @ drop (min (unat n) (length out)) buf"

lemma snprintf_send_rel: "snp_rel buf n out snp \<Longrightarrow> \<exists>snp'. snprintf_send str snp = Some snp' \<and> snp_rel buf n (out @ str) snp'"
proof (induction str arbitrary: out snp)
  case Nil
  then show ?case by simp
next
  case (Cons c str)
  have n: "unat n \<le> length buf" "snp_buflen snp = n" "unat (snp_bufpos snp) = min (unat n) (length out)"
    "snp_buf snp = take (unat n) out @ drop (min (unat n) (length out)) buf" using Cons.prems by (auto simp: snp_rel_def)
  show ?case
  proof (cases "length out < unat n")
    case True
    then have p: "snp_bufpos snp < n" "unat (snp_bufpos snp) = length out" using n by (auto simp: word_less_nat_alt)
    have "unat (snp_bufpos snp + 1) = Suc (length out)" using p True unat_u32[of n] unat_plus_nat[of "snp_bufpos snp" 1] by simp
    moreover have "wr (snp_buf snp) (uint (snp_bufpos snp)) c = Some (out @ [c] @ drop (Suc (length out)) buf)"
      using True n p by (simp add: wr_def nat_uint_eq list_update_append flip: Cons_nth_drop_Suc)
    ultimately have "snp_rel buf n (out @ [c]) (snp\<lparr>snp_buf := out @ [c] @ drop (Suc (length out)) buf, snp_bufpos := snp_bufpos snp + 1\<rparr>)"
      using n True by (simp add: snp_rel_def)
    then show ?thesis using Cons.IH[of "out @ [c]"] p(1) n(2)
      \<open>wr (snp_buf snp) (uint (snp_bufpos snp)) c = Some (out @ [c] @ drop (Suc (length out)) buf)\<close> by simp
  next
    case False
    then have "\<not> snp_bufpos snp < snp_buflen snp" using n by (simp add: word_less_nat_alt)
    moreover have "snp_rel buf n (out @ [c]) snp" using False n by (simp add: snp_rel_def)
    ultimately show ?thesis using Cons.IH[of "out @ [c]" snp] by simp
  qed
qed

interpretation snp: pf_simulation collect snprintf_send "snp_rel buf n" for buf n
  by unfold_locales (auto simp: collect_def dest: snprintf_send_rel)

section \<open>Numbers\<close>

function numeral_of :: "nat \<Rightarrow> nat \<Rightarrow> nat list" where
  "numeral_of b n = (if b \<le> 1 \<or> n < b then [n] else numeral_of b (n div b) @ [n mod b])"
  by pat_completeness auto
termination
proof (relation "measure snd", goal_cases)
  case (2 b n)
  then have "0 < n" "1 < b" by auto
  then show ?case by (simp add: div_less_dividend)
qed simp

declare numeral_of.simps [simp del]

lemma numeral_of_digits: "1 < b \<Longrightarrow> d \<in> set (numeral_of b n) \<Longrightarrow> d < b"
proof (induction b n rule: numeral_of.induct)
  case (1 b n)
  then show ?case by (subst (asm) (2) numeral_of.simps) (auto split: if_splits)
qed

lemma numeral_of_length: "1 < b \<Longrightarrow> n < b ^ Suc k \<Longrightarrow> length (numeral_of b n) \<le> Suc k"
proof (induction k arbitrary: n)
  case 0
  then show ?case by (simp add: numeral_of.simps)
next
  case (Suc k)
  have "n div b < b ^ Suc k" using Suc.prems by (simp add: less_mult_imp_div_less mult.commute)
  then show ?case using Suc.IH[of "n div b"] Suc.prems(1) by (subst numeral_of.simps) auto
qed

lemma decimal_numeral: "decimal_value (numeral_of 10 n) = n"
proof (induction "10 :: nat" n rule: numeral_of.induct)
  case (1 n)
  then show ?case by (subst numeral_of.simps) (simp add: decimal_value_def)
qed

definition hex_digit :: "nat \<Rightarrow> u8" where
  "hex_digit d = pf_hexdigits ! d"

lemma hex_decimal: "d < 10 \<Longrightarrow> hex_digit d = digit_char d"
  unfolding less10 by (elim insertE emptyE; hypsubst; code_simp)

lemma hex_nonzero: "d < 16 \<Longrightarrow> hex_digit d \<noteq> 0"
proof -
  assume "d < 16"
  moreover have "length pf_hexdigits = 16" by (simp add: pf_hexdigits_def)
  ultimately have "hex_digit d \<in> set pf_hexdigits" unfolding hex_digit_def by (intro nth_mem) simp
  moreover have "0 \<notin> set pf_hexdigits" by code_simp
  ultimately show ?thesis by metis
qed

text \<open>The digits come to stand left of the terminator, most significant first.\<close>

lemma pf_digits_ok:
  assumes "1 < unat base" "unat base \<le> 16" "length (numeral_of (unat base) (unat xnum)) \<le> k" "k < length buf"
  shows "pf_digits base xnum buf (int k - 1) =
    (let ds = numeral_of (unat base) (unat xnum) in
     Some (take (k - length ds) buf @ map hex_digit ds @ drop k buf, int k - 1 - int (length ds)))"
  using assms(3,4)
proof (induction "unat xnum" arbitrary: xnum k buf rule: less_induct)
  case less
  let ?b = "unat base" and ?n = "unat xnum"
  have k: "0 < k" using less.prems(1) by (cases k) (auto simp: numeral_of.simps split: if_splits)
  have d: "rd pf_hexdigits (uint (xnum mod base)) = Some (hex_digit (?n mod ?b))"
  proof -
    have "?n mod ?b < 16" using assms(1,2) mod_less_divisor[of ?b ?n] by linarith
    then show ?thesis by (simp add: rd_def hex_digit_def pf_hexdigits_def nat_uint_eq unat_mod)
  qed
  let ?buf = "buf[k - 1 := hex_digit (?n mod ?b)]"
  have w: "wr buf (int k - 1) (hex_digit (?n mod ?b)) = Some ?buf" using k less.prems(2) by (simp add: wr_def nat_diff_distrib)
  have step: "pf_digits base xnum buf (int k - 1) =
    (if xnum div base > 0 then pf_digits base (xnum div base) ?buf (int k - 2) else Some (?buf, int k - 2))"
    using assms(1) by (subst pf_digits.simps) (simp add: d w word_le_nat_alt)
  have one: "take (k - 1) buf @ hex_digit (?n mod ?b) # drop k buf = ?buf"
    using k less.prems(2) by (simp add: upd_conv_take_nth_drop)
  show ?case
  proof (cases "?n < ?b")
    case True
    then have "\<not> xnum div base > 0" by (simp add: word_gt_0 word_unat_eq_iff unat_div)
    moreover have "numeral_of ?b ?n = [?n mod ?b]" using True by (simp add: numeral_of.simps)
    ultimately show ?thesis using step one by (simp add: Let_def)
  next
    case False
    then have pos: "xnum div base > 0" "unat (xnum div base) = ?n div ?b" "?n div ?b < ?n"
      using assms(1) by (auto simp: word_gt_0 word_unat_eq_iff unat_div div_eq_0_iff)
    have ds: "numeral_of ?b ?n = numeral_of ?b (?n div ?b) @ [?n mod ?b]" using False assms(1) by (subst numeral_of.simps) simp
    let ?ds = "numeral_of ?b (?n div ?b)"
    have l: "length ?ds \<le> k - 1" "k - 1 < length ?buf" using less.prems ds by auto
    have "pf_digits base (xnum div base) ?buf (int (k - 1) - 1) =
      Some (take (k - 1 - length ?ds) ?buf @ map hex_digit ?ds @ drop (k - 1) ?buf, int (k - 1) - 1 - int (length ?ds))"
      using less.hyps[of "xnum div base" "k - 1" ?buf] pos l by (simp add: Let_def)
    moreover have "drop (k - 1) ?buf = hex_digit (?n mod ?b) # drop k buf"
      using k less.prems(2) by (subst one[symmetric]) simp
    ultimately show ?thesis using step pos(1) k by (simp add: Let_def ds of_nat_diff algebra_simps)
  qed
qed

definition base_ok :: "u32 \<Rightarrow> bool" where
  "base_ok b \<longleftrightarrow> b = 8 \<or> b = 10 \<or> b = 16"

text \<open>The longest number, 32 bits in base 8, has 11 digits: the buffer is just large enough.\<close>

lemma number_fits:
  assumes "base_ok b" shows "1 < unat b" "unat b \<le> 16" "length (numeral_of (unat b) (unat (w :: u32))) \<le> 11"
proof -
  show b: "1 < unat b" "unat b \<le> 16" using assms by (auto simp: base_ok_def)
  have "unat w < 8 ^ Suc 10" using unat_u32[of w] by simp
  also have "8 ^ Suc 10 \<le> unat b ^ Suc 10" by (rule power_mono) (use assms in \<open>auto simp: base_ok_def\<close>)
  finally show "length (numeral_of (unat b) (unat w)) \<le> 11" using numeral_of_length[OF b(1), of "unat w" 10] by simp
qed

definition num_text :: "u32 \<Rightarrow> u32 \<Rightarrow> u8 list" where
  "num_text b w = map hex_digit (numeral_of (unat b) (unat w))"

lemma printnum_text:
  assumes "base_ok (pf_base pf)"
  shows "pf_printnum send (pf, c) = pf_printstuff send
    (if pf_sign pf \<noteq> 0 then map of_char ''-'' else [])
    (if pf_baseprefix pf \<and> pf_base pf = 16 then map of_char ''0x''
     else if pf_baseprefix pf \<and> pf_base pf = 8 then map of_char ''0'' else [])
    (num_text (pf_base pf) (pf_num pf)) (pf, c)"
proof -
  let ?ds = "numeral_of (unat (pf_base pf)) (unat (pf_num pf))"
  note fit = number_fits(1,2)[OF assms] number_fits(3)[OF assms, of "pf_num pf"]
  have sz: "NUMBER_BUF_SIZE = 12" by (simp add: NUMBER_BUF_SIZE_def)
  have w: "wr (replicate 12 0) 11 0 = Some (replicate 12 (0 :: u8))" by (simp add: wr_def numeral_eq_Suc)
  have d: "pf_digits (pf_base pf) (pf_num pf) (replicate 12 0) 10
    = Some (replicate (11 - length ?ds) 0 @ map hex_digit ?ds @ [0], 10 - int (length ?ds))"
    using pf_digits_ok[OF fit(1,2,3), of "replicate 12 0"] by (simp add: Let_def)
  have x: "nat (11 - int (length ?ds)) = 11 - length ?ds" by simp
  have nz: "\<forall>c\<in>set (map hex_digit ?ds). c \<noteq> 0" using hex_nonzero numeral_of_digits[OF fit(1)] fit(2) by fastforce
  have "takeWhile (\<lambda>c. c \<noteq> 0) (drop (11 - length ?ds) (replicate (11 - length ?ds) 0 @ map hex_digit ?ds @ [0])) = map hex_digit ?ds"
    using takeWhile_append2[of "map hex_digit ?ds" "\<lambda>c. c \<noteq> 0" "[0]"] nz by simp
  then show ?thesis by (simp add: pf_printnum_def sz w d x num_text_def Let_def)
qed

section \<open>What is printed\<close>

text \<open>A text in a field: padded on the right, or on the left with blanks before the prefix or zeros after it.\<close>

definition padded :: "pf \<Rightarrow> u8 list \<Rightarrow> u8 list \<Rightarrow> u8 list" where
  "padded pf prefix stuff =
     (let spc = nat (pf_spacing pf - int (length prefix + length stuff)); fill = replicate spc (pf_fillchar pf) in
      if pf_rightspc pf then prefix @ stuff @ fill
      else if pf_fillchar pf = asc CHR ''0'' then prefix @ fill @ stuff
      else fill @ prefix @ stuff)"

definition counted :: "pf \<Rightarrow> nat \<Rightarrow> pf" where
  "counted pf n = pf\<lparr>pf_charcount := c_int (pf_charcount pf + int n)\<rparr>"

lemma counted_simps [simp]:
  "pf_fillchar (counted pf n) = pf_fillchar pf" "pf_endfield (counted pf n) = counted (pf_endfield pf) n"
  by (simp_all add: counted_def pf_endfield_def)

lemma c_int_plus [simp]: "c_int (c_int x + y) = c_int (x + y)"
  by (simp add: c_int_def mod_simps algebra_simps)

lemma counted_add [simp]: "counted (counted pf m) n = counted pf (m + n)"
  by (simp add: counted_def add.assoc)

lemma print_collect: "pf_print collect s (pf, out) = Some (counted pf (length s), out @ s)"
  by (simp add: pf_print_def collect_def counted_def)

lemma fill_collect: "pf_fill collect n (pf, out) = Some (if n = 0 then pf else counted pf n, out @ replicate n (pf_fillchar pf))"
proof (induction n arbitrary: pf out)
  case (Suc n)
  then show ?case by (auto simp: print_collect)
qed simp

lemma printstuff_collect:
  assumes "int (length p + length q + length s) < 2 ^ 31" "pf_spacing pf < 2 ^ 31"
  shows "pf_printstuff collect p q s (pf, out) = Some (counted pf (length (padded pf (p @ q) s)), out @ padded pf (p @ q) s)"
proof -
  let ?len = "int (length p) + int (length q) + int (length s)"
  have len: "c_int ?len = ?len" using assms(1) by (intro c_int_id) auto
  have spc: "(if pf_spacing pf > ?len then c_int (pf_spacing pf - ?len) else 0) = max 0 (pf_spacing pf - ?len)"
    using assms(2) by (auto intro!: c_int_id)
  show ?thesis unfolding pf_printstuff_def Let_def fst_conv len spc
    by (auto simp: print_collect fill_collect padded_def Let_def max_def algebra_simps)
qed

subsection \<open>Formats and arguments that fit\<close>

text \<open>The conversions of a format that take an argument, in order; \<open>p\<close>: inside a field.\<close>

definition is_modifier :: "u8 \<Rightarrow> bool" where
  "is_modifier ch \<longleftrightarrow> ch \<in> set (map of_char ''#-ql0123456789'')"

definition is_number :: "u8 \<Rightarrow> bool" where
  "is_number ch \<longleftrightarrow> ch \<in> set (map of_char ''doupx'')"

fun convs :: "bool \<Rightarrow> u8 list \<Rightarrow> u8 list" where
  "convs p [] = []"
| "convs p (ch # chs) =
     (if \<not> p then convs (ch = asc CHR ''%'') chs
      else if is_modifier ch then convs True chs
      else if is_number ch \<or> ch = asc CHR ''s'' \<or> ch = asc CHR ''c'' then ch # convs False chs
      else convs False chs)"

fun fits :: "u8 list \<Rightarrow> varg list \<Rightarrow> bool" where
  "fits [] ap = True"
| "fits (ch # chs) [] = False"
| "fits (ch # chs) (VWord w # ap) = (ch \<noteq> asc CHR ''s'' \<and> fits chs ap)"
| "fits (ch # chs) (VStr str # ap) = (ch = asc CHR ''s'' \<and> fits chs ap)"

lemma fits_s: "fits (asc CHR ''s'' # chs) ap \<Longrightarrow> \<exists>str ap'. ap = VStr str # ap' \<and> fits chs ap'"
  by (cases "(asc CHR ''s'' # chs, ap)" rule: fits.cases) auto

lemma fits_w: "fits (ch # chs) ap \<Longrightarrow> ch \<noteq> asc CHR ''s'' \<Longrightarrow> \<exists>w ap'. ap = VWord w # ap' \<and> fits chs ap'"
  by (cases "(ch # chs, ap)" rule: fits.cases) auto

lemma modifier_total:
  assumes "is_modifier ch"
  obtains pf' where "pf_modifier ch pf = Some pf'" "pf_in_pct pf' = pf_in_pct pf" "pf_ap pf' = pf_ap pf"
proof -
  have "\<exists>pf'. pf_modifier ch pf = Some pf' \<and> pf_in_pct pf' = pf_in_pct pf \<and> pf_ap pf' = pf_ap pf"
    using assms unfolding is_modifier_def by (auto simp: pf_modifier_def)
  then show thesis using that by blast
qed

lemma stuff_steps:
  "\<exists>pf' out'. (do {
     st \<leftarrow> (if b1 then pf_fill collect n (pf, out) else Some (pf, out));
     st \<leftarrow> pf_print collect p st;
     st \<leftarrow> pf_print collect q st;
     st \<leftarrow> (if b2 then pf_fill collect n st else Some st);
     st \<leftarrow> pf_print collect s st;
     if b3 then pf_fill collect n st else Some st }) = Some (pf', out') \<and> pf_ap pf' = pf_ap pf"
  by (cases b1; cases b2; cases b3) (simp_all add: print_collect fill_collect counted_def)

lemma printstuff_total:
  obtains pf' out' where "pf_printstuff collect p q s (pf, out) = Some (pf', out')" "pf_ap pf' = pf_ap pf"
  using stuff_steps unfolding pf_printstuff_def Let_def fst_conv by blast

lemma printnum_total:
  assumes "is_number ch"
  obtains pf' out' where "pf_printnum collect (pf_setbase ch pf, out) = Some (pf', out')" "pf_ap pf' = pf_ap pf"
proof -
  have b: "base_ok (pf_base (pf_setbase ch pf))" "pf_ap (pf_setbase ch pf) = pf_ap pf"
    using assms by (auto simp: is_number_def pf_setbase_def base_ok_def Let_def)
  show thesis
    by (rule printstuff_total[of _ _ _ "pf_setbase ch pf" out]) (use that b printnum_text[OF b(1), of collect out] in auto)
qed

lemma send_total:
  assumes "ch \<noteq> 0" "fits (convs (pf_in_pct pf) (ch # chs)) (pf_ap pf)"
  obtains pf' out' where "pf_send collect ch (pf, out) = Some (pf', out')" "fits (convs (pf_in_pct pf') chs) (pf_ap pf')"
proof -
  note pf_send_def [simp] Let_def [simp]
  have e: "pf_in_pct (pf_endfield q) = False" "pf_ap (pf_endfield q) = pf_ap q" for q by (simp_all add: pf_endfield_def)
  consider (plain) "\<not> pf_in_pct pf" | (modifier) "pf_in_pct pf" "is_modifier ch"
    | (number) "pf_in_pct pf" "\<not> is_modifier ch" "is_number ch"
    | (str) "pf_in_pct pf" "ch = asc CHR ''s''"
    | (char) "pf_in_pct pf" "\<not> is_modifier ch" "\<not> is_number ch" "ch = asc CHR ''c''"
    | (other) "pf_in_pct pf" "\<not> is_modifier ch" "\<not> is_number ch" "ch \<noteq> asc CHR ''s''" "ch \<noteq> asc CHR ''c''" by blast
  then show thesis
  proof cases
    case plain
    then show thesis using that assms by (cases "ch = asc CHR ''%''") (auto simp: print_collect counted_def)
  next
    case modifier
    obtain pf' where "pf_modifier ch pf = Some pf'" "pf_in_pct pf' = pf_in_pct pf" "pf_ap pf' = pf_ap pf"
      using modifier(2) by (rule modifier_total)
    then show thesis using that[of pf' out] modifier assms by (simp add: is_modifier_def)
  next
    case number
    then have "ch \<noteq> asc CHR ''s''" by (auto simp: is_number_def)
    then obtain w ap where w: "pf_ap pf = VWord w # ap" "fits (convs False chs) ap" using number assms(2) fits_w by fastforce
    obtain pf1 where g: "pf_getnum ch pf = Some pf1" "pf_ap pf1 = ap" by (auto simp: pf_getnum_def va_word_def w(1))
    obtain pf2 out2 where "pf_printnum collect (pf_setbase ch pf1, out) = Some (pf2, out2)" "pf_ap pf2 = pf_ap pf1"
      using number(3) by (rule printnum_total)
    then show thesis using that[of "pf_endfield pf2" out2] number assms(1) g w(2) e by (simp add: is_modifier_def is_number_def)
  next
    case str
    then obtain s ap where s: "pf_ap pf = VStr s # ap" "fits (convs False chs) ap" using assms(2) fits_s by (fastforce simp: is_modifier_def)
    then have v: "va_str pf = Some (s, pf\<lparr>pf_ap := ap\<rparr>)" by (simp add: va_str_def)
    obtain pf2 out2 where "pf_printstuff collect [] [] (case s of None \<Rightarrow> map of_char ''(null)'' | Some s \<Rightarrow> s) (pf\<lparr>pf_ap := ap\<rparr>, out) = Some (pf2, out2)"
      "pf_ap pf2 = ap" 
      by (rule printstuff_total[of "[]" "[]" "case s of None \<Rightarrow> map of_char ''(null)'' | Some s \<Rightarrow> s" "pf\<lparr>pf_ap := ap\<rparr>" out]) simp
    then show thesis using that[of "pf_endfield pf2" out2] str v s(2) e by simp
  next
    case char
    then obtain w ap where w: "pf_ap pf = VWord w # ap" "fits (convs False chs) ap" using assms(2) fits_w by fastforce
    then have v: "va_word pf = Some (w, pf\<lparr>pf_ap := ap\<rparr>)" by (simp add: va_word_def)
    obtain pf2 out2 where "pf_printstuff collect [] [] (if (ucast w :: u8) = 0 then [] else [ucast w]) (pf\<lparr>pf_ap := ap\<rparr>, out) = Some (pf2, out2)"
      "pf_ap pf2 = ap" 
      by (rule printstuff_total[of "[]" "[]" "if (ucast w :: u8) = 0 then [] else [ucast w]" "pf\<lparr>pf_ap := ap\<rparr>" out]) simp
    then show thesis using that[of "pf_endfield pf2" out2] char v w(2) e by (simp add: is_modifier_def is_number_def)
  next
    case other
    obtain pf2 out2 where "pf_printstuff collect [] [] [ch] (pf, out) = Some (pf2, out2)" "pf_ap pf2 = pf_ap pf"
      by (rule printstuff_total)
    then show thesis using that[of "pf_endfield pf2" out2] other assms e by (simp add: is_modifier_def is_number_def)
  qed
qed

lemma sends_total:
  assumes "0 \<notin> set fmt" "fits (convs (pf_in_pct pf) fmt) (pf_ap pf)"
  shows "\<exists>st. pf_sends collect fmt (pf, out) = Some st"
  using assms
proof (induction fmt arbitrary: pf out)
  case (Cons ch fmt)
  have "ch \<noteq> 0" using Cons.prems(1) by auto
  then obtain pf' out' where "pf_send collect ch (pf, out) = Some (pf', out')" "fits (convs (pf_in_pct pf') fmt) (pf_ap pf')"
    using Cons.prems(2) by (rule send_total)
  then show ?case using Cons by auto
qed simp

section \<open>Properties\<close>

text \<open>C0. A format whose conversions find arguments of their kinds is printed to its end: no assertion
  fails, no argument is missing, and no number is written outside its buffer of 12 bytes.\<close>

theorem printf_total:
  assumes "0 \<notin> set fmt" and "fits (convs False fmt) ap"
  shows "\<exists>n out. vprintf collect [] fmt ap = Some (n, out)"
proof -
  have "pf_in_pct (pf_init ap) = False" "pf_ap (pf_init ap) = ap" by (simp_all add: pf_init_def pf_endfield_def)
  then obtain st where "pf_sends collect fmt (pf_init ap, []) = Some st" using sends_total[OF assms(1), of "pf_init ap" "[]"] assms(2) by auto
  then show ?thesis by (cases st) (simp add: vprintf_def)
qed

theorem printf_total_witness:
  "\<exists>n out. vprintf collect [] (map of_char ''%o %5d %s'') [VWord 0xffffffff, VWord 7, VStr None] = Some (n, out)"
proof -
  have "0 \<notin> set (map of_char ''%o %5d %s'' :: u8 list)"
    "fits (convs False (map of_char ''%o %5d %s'')) [VWord 0xffffffff, VWord 7, VStr None]" by code_simp+
  then show ?thesis by (rule printf_total)
qed

text \<open>C0. \<open>snprintf\<close> stores what the format prints, cut to fit and terminated, in a buffer of the
  length it is told, and changes nothing outside it; it returns the length of the whole text.\<close>

theorem snprintf_correct:
  assumes "vprintf collect [] fmt ap = Some (n, out)" and "unat len \<le> length buf"
  shows "vsnprintf buf len fmt ap =
    Some (n, if len = 0 then buf
             else take (unat len - 1) out @ [0] @ drop (Suc (min (unat len - 1) (length out))) buf)"
proof -
  let ?m = "if len = 0 then 0 else len - 1"
  have m: "unat ?m = unat len - 1" by (simp add: unat_minus_one unat_gt_0)
  let ?s0 = "\<lparr>snp_buf = buf, snp_buflen = ?m, snp_bufpos = 0\<rparr>"
  have "snp_rel buf ?m [] ?s0" using assms(2) m by (simp add: snp_rel_def)
  then obtain s1 where s1: "vprintf snprintf_send ?s0 fmt ap = Some (n, s1)" "snp_rel buf ?m out s1"
    using assms(1) by (rule snp.vprintf_sim)
  let ?k = "min (unat len - 1) (length out)"
  have b: "snp_buf s1 = take (unat len - 1) out @ drop ?k buf" "unat (snp_bufpos s1) = ?k" using s1(2) unfolding snp_rel_def m by auto
  show ?thesis
  proof (cases "len = 0")
    case True
    then show ?thesis using s1(1) b(1) by (simp add: vsnprintf_def)
  next
    case False
    then have "0 < unat len" by (simp add: unat_gt_0)
    then have k: "?k < length buf" using assms(2) by simp
    have "wr (snp_buf s1) (uint (snp_bufpos s1)) 0 = Some (take (unat len - 1) out @ [0] @ drop (Suc ?k) buf)"
      using k b by (simp add: wr_def nat_uint_eq list_update_append min.commute flip: Cons_nth_drop_Suc)
    then show ?thesis using s1(1) False by (simp add: vsnprintf_def word_gt_0)
  qed
qed

theorem snprintf_correct_witness:
  "vsnprintf (replicate 6 1) 4 (map of_char ''<%d>'') [VWord (- 12)] = Some (5, map of_char ''<-1'' @ [0, 1, 1])"
proof -
  have "vprintf collect [] (map of_char ''<%d>'') [VWord (- 12)] = Some (5, map of_char ''<-12>'')" by code_simp
  from snprintf_correct[OF this, of 4 "replicate 6 1"]
  have "vsnprintf (replicate 6 1) 4 (map of_char ''<%d>'') [VWord (- 12)]
    = Some (5, take 3 (map of_char ''<-12>'') @ [0] @ drop 4 (replicate 6 1))" by simp
  moreover have "take 3 (map of_char ''<-12>'') @ [0] @ drop 4 (replicate 6 1) = map of_char ''<-1'' @ [0, 1, 1 :: u8]" by code_simp
  ultimately show ?thesis by simp
qed

lemma printf_d:
  "\<exists>n. vprintf collect [] (map of_char ''%d'') [VWord w] =
     Some (n, if sint w < 0 then asc CHR ''-'' # num_text 10 (- w) else num_text 10 w)"
proof -
  let ?pf = "(pf_init [VWord w])\<lparr>pf_in_pct := True\<rparr>"
  have 1: "pf_send collect (asc CHR ''%'') (pf_init [VWord w], []) = Some (?pf, [])"
    by (simp add: pf_send_def pf_init_def pf_endfield_def)
  define pf1 where "pf1 = (if sint w < 0 then ?pf\<lparr>pf_ap := [], pf_sign := - 1, pf_num := - w\<rparr> else ?pf\<lparr>pf_ap := [], pf_num := w\<rparr>)"
  define pf2 where "pf2 = pf_setbase (asc CHR ''d'') pf1"
  define sgn where "sgn = (if sint w < 0 then [asc CHR ''-''] else [])"
  define k where "k = length (sgn @ num_text 10 (pf_num pf2))"
  have p2: "pf_setbase 100 pf1 = pf2" by (simp add: pf2_def)
  have b: "pf_base pf2 = 10" "pf_baseprefix pf2 = False" "pf_spacing pf2 = 0" "pf_rightspc pf2 = False"
    "pf_num pf2 = (if sint w < 0 then - w else w)" "pf_sign pf2 = (if sint w < 0 then - 1 else 0)"
    by (auto simp: pf2_def pf1_def pf_setbase_def pf_init_def pf_endfield_def Let_def)
  have l: "length (num_text 10 v) \<le> 11" for v using number_fits(3)[of 10 v] by (simp add: num_text_def base_ok_def)
  have sg: "(if pf_sign pf2 \<noteq> 0 then map of_char ''-'' else []) = sgn" "length sgn \<le> 1" by (simp_all add: b sgn_def)
  have pad: "padded pf2 p t = p @ t" for p t unfolding padded_def b by simp
  have "pf_printnum collect (pf2, []) = pf_printstuff collect sgn [] (num_text 10 (pf_num pf2)) (pf2, [])"
    by (subst printnum_text) (simp_all add: b base_ok_def sg flip: b(5,6))
  also have "\<dots> = Some (counted pf2 k, sgn @ num_text 10 (pf_num pf2))"
    using l[of "pf_num pf2"] sg(2) by (subst printstuff_collect) (simp_all add: b(3) pad k_def)
  finally have 2: "pf_printnum collect (pf2, []) = Some (counted pf2 k, sgn @ num_text 10 (pf_num pf2))" .
  have g: "pf_getnum (asc CHR ''d'') ?pf = Some pf1"
    by (simp add: pf_getnum_def va_word_def pf_init_def pf_endfield_def pf1_def)
  have "pf_send collect (asc CHR ''d'') (?pf, []) = Some (pf_endfield (counted pf2 k), sgn @ num_text 10 (pf_num pf2))"
    unfolding pf_send_def Let_def prod.case g using 2 by (simp add: p2)
  moreover have "sgn @ num_text 10 (pf_num pf2) = (if sint w < 0 then asc CHR ''-'' # num_text 10 (- w) else num_text 10 w)"
    by (simp add: sgn_def b(5))
  ultimately show ?thesis using 1 by (simp add: vprintf_def)
qed

text \<open>C0. \<open>atoi\<close> reads back what \<open>%d\<close> prints, for every value of an \<open>int\<close>, the least one included.\<close>

theorem printf_atoi:
  assumes "- (2 ^ 31) \<le> n" and "n < 2 ^ 31"
  shows "\<exists>k out. vprintf collect [] (map of_char ''%d'') [VWord (word_of_int n)] = Some (k, out)
     \<and> (\<forall>m s. str_at m s out \<longrightarrow> atoi s m = Some n)"
proof -
  let ?w = "word_of_int n :: u32"
  have n: "sint ?w = n" using assms by (simp add: signed_of_int signed_take_bit_int_eq_self)
  let ?out = "if sint ?w < 0 then asc CHR ''-'' # num_text 10 (- ?w) else num_text 10 ?w"
  have ds: "\<forall>d\<in>set (numeral_of 10 k). d < 10" for k using numeral_of_digits[of 10] by auto
  have t: "num_text 10 v = map digit_char (numeral_of 10 (unat v))" for v
    using ds hex_decimal by (simp add: num_text_def)
  have "numeral_of 10 k \<noteq> []" for k by (subst numeral_of.simps) simp
  then have "atoi s m = Some n" if "str_at m s ?out" for m s
    using that atoi_minus[of m s, OF _ ds[of "unat (- ?w)"]] atoi_numeral[of m s, OF _ ds[of "unat ?w"]] n
    by (simp add: t decimal_numeral split: if_splits)
  then show ?thesis using printf_d[of ?w] by auto
qed

theorem printf_atoi_witness:
  "vprintf collect [] (map of_char ''%d'') [VWord (- 2147483648)] = Some (11, map of_char ''-2147483648'')
   \<and> atoi 100 (store_bytes 100 (map of_char ''-2147483648'' @ [0]) (\<lambda>_. 1)) = Some (- 2147483648)"
proof -
  have v: "vprintf collect [] (map of_char ''%d'') [VWord (- 2147483648)] = Some (11, map of_char ''-2147483648'')" by code_simp
  have "str_at (store_bytes 100 (map of_char ''-2147483648'' @ [0]) (\<lambda>_. 1)) 100 (map of_char ''-2147483648'')"
    by (rule store_str_at, code_simp, simp)
  then show ?thesis using printf_atoi[of "- 2147483648"] v by (auto simp del: list.map)
qed

end
