(* ===== verification/Kernel_Array.thy ===== *)
theory Kernel_Array
  imports Kernel_Prelude
begin

text \<open>
  The growable array of pointers of \<open>src/kern/lib/array.c\<close>.

  \<open>a_v\<close> is the storage: \<open>None\<close> is the null pointer, and a cell that was allocated but
  never written is \<open>None\<close>, so that reading it is stuck.  Whether a \<open>kmalloc\<close> inside an
  operation succeeds is the boolean argument \<open>ok\<close>.  The lemmas show that the operations
  implement a list, given by \<open>array_rep\<close>.
\<close>

section \<open>Model\<close>

record 'a karray =
  a_num :: int
  a_max :: int
  a_v :: "'a option list option"

definition array_create :: "bool \<Rightarrow> 'a karray option" where
  "array_create ok = (if ok then Some \<lparr>a_num = 0, a_max = 0, a_v = None\<rparr> else None)"

definition array_getnum :: "'a karray \<Rightarrow> int" where
  "array_getnum a = a_num a"

definition array_getguy :: "'a karray \<Rightarrow> int \<Rightarrow> 'a option" where
  "array_getguy a index = do {
     kassert (a_num a \<le> a_max a);
     kassert (0 \<le> index \<and> index < a_num a);
     v \<leftarrow> a_v a;
     cell \<leftarrow> rd v index;
     cell }"

text \<open>The growth loop of \<open>array_preallocate\<close>; it need not end once the size wraps.\<close>

partial_function (option) grow_max :: "int \<Rightarrow> int \<Rightarrow> int option" where
  "grow_max nguys newmax =
     (if nguys > newmax then grow_max nguys (c_int ((newmax + 1) * 2)) else Some newmax)"

text \<open>The copy loop: the first \<open>n\<close> cells of \<open>src\<close> over those of \<open>dst\<close>.\<close>

definition copy_cells :: "int \<Rightarrow> 'a list \<Rightarrow> 'a list \<Rightarrow> 'a list option" where
  "copy_cells n src dst =
     (if nat n \<le> length src \<and> nat n \<le> length dst
      then Some (take (nat n) src @ drop (nat n) dst) else None)"

definition cells_of :: "'a option list option \<Rightarrow> 'a option list" where
  "cells_of v = (case v of None \<Rightarrow> [] | Some xs \<Rightarrow> xs)"

definition array_preallocate :: "bool \<Rightarrow> 'a karray \<Rightarrow> int \<Rightarrow> (errno \<times> 'a karray) option" where
  "array_preallocate ok a nguys = do {
     kassert (0 \<le> a_num a \<and> a_num a \<le> a_max a);
     newmax \<leftarrow> grow_max nguys (a_max a);
     if \<not> ok then Some (ENOMEM, a)
     else do {
       newv \<leftarrow> copy_cells (a_num a) (cells_of (a_v a)) (replicate (ptr_cells newmax) None);
       Some (ESUCCESS, a\<lparr>a_max := newmax, a_v := Some newv\<rparr>) } }"

definition array_setsize :: "bool \<Rightarrow> 'a karray \<Rightarrow> int \<Rightarrow> (errno \<times> 'a karray) option" where
  "array_setsize ok a nguys = do {
     kassert (0 \<le> a_num a \<and> a_num a \<le> a_max a);
     (result, a) \<leftarrow>
       (if nguys > a_max a then array_preallocate ok a nguys
        else if nguys = 0 \<and> a_max a > 16 then do {
          kassert (a_v a \<noteq> None);
          Some (ESUCCESS, a\<lparr>a_v := None, a_max := 0\<rparr>) }
        else Some (ESUCCESS, a));
     if result \<noteq> ESUCCESS then Some (result, a)
     else Some (ESUCCESS, a\<lparr>a_num := nguys\<rparr>) }"

definition array_setguy :: "'a karray \<Rightarrow> int \<Rightarrow> 'a \<Rightarrow> 'a karray option" where
  "array_setguy a index ptr = do {
     kassert (a_num a \<le> a_max a);
     kassert (0 \<le> index \<and> index < a_num a);
     v \<leftarrow> a_v a;
     v \<leftarrow> wr v index (Some ptr);
     Some (a\<lparr>a_v := Some v\<rparr>) }"

definition array_add :: "bool \<Rightarrow> 'a karray \<Rightarrow> 'a \<Rightarrow> (errno \<times> 'a karray) option" where
  "array_add ok a guy = do {
     let ix = a_num a;
     (result, a) \<leftarrow> array_setsize ok a (c_int (ix + 1));
     if result \<noteq> ESUCCESS then Some (result, a)
     else do {
       v \<leftarrow> a_v a;
       v \<leftarrow> wr v ix (Some guy);
       Some (ESUCCESS, a\<lparr>a_v := Some v\<rparr>) } }"

text \<open>\<open>memmove\<close> of \<open>nmove\<close> cells down by one, from \<open>index + 1\<close> to \<open>index\<close>.\<close>

definition move_down :: "'a list \<Rightarrow> nat \<Rightarrow> nat \<Rightarrow> 'a list option" where
  "move_down v index nmove =
     (if index + 1 + nmove \<le> length v
      then Some (take index v @ take nmove (drop (index + 1) v) @ drop (index + nmove) v)
      else None)"

definition array_remove :: "'a karray \<Rightarrow> int \<Rightarrow> 'a karray option" where
  "array_remove a index = do {
     kassert (a_num a \<le> a_max a);
     kassert (0 \<le> index \<and> index < a_num a);
     let nmove = a_num a - (index + 1);
     v \<leftarrow> a_v a;
     v \<leftarrow> move_down v (nat index) (nat nmove);
     Some (a\<lparr>a_v := Some v, a_num := a_num a - 1\<rparr>) }"

text \<open>The blocks \<open>array_destroy\<close> frees: the storage, if there is one, and the header.\<close>

datatype array_block = Storage | Header

definition array_destroy :: "'a karray \<Rightarrow> array_block list" where
  "array_destroy a = (if a_v a \<noteq> None then [Storage] else []) @ [Header]"

text \<open>
  Well-formed arrays, and the list an array stands for.  A cell of the list is \<open>None\<close>
  when \<open>array_setsize\<close> made room for it and nothing was stored yet.
\<close>

definition array_inv :: "'a karray \<Rightarrow> bool" where
  "array_inv a \<longleftrightarrow> 0 \<le> a_num a \<and> a_num a \<le> a_max a \<and> a_max a < 2 ^ 30
     \<and> (case a_v a of None \<Rightarrow> a_max a = 0 | Some v \<Rightarrow> length v = nat (a_max a))"

definition array_cells :: "'a karray \<Rightarrow> 'a option list" where
  "array_cells a = take (nat (a_num a)) (cells_of (a_v a))"

text \<open>\<open>array_rep a xs\<close>: \<open>a\<close> is well formed and holds exactly the elements \<open>xs\<close>.\<close>

definition array_rep :: "'a karray \<Rightarrow> 'a list \<Rightarrow> bool" where
  "array_rep a xs \<longleftrightarrow> array_inv a \<and> array_cells a = map Some xs"

text \<open>
  The search loop \<open>for (i = 0; i < array_getnum(a); i++)\<close> over a table that the body does
  not change, stopping at the first element that passes the test.
\<close>

function scan :: "(int \<Rightarrow> 'x option) \<Rightarrow> int \<Rightarrow> ('x \<Rightarrow> bool) \<Rightarrow> int \<Rightarrow> (int \<times> 'x) option option" where
  "scan getguy n P i =
     (if i < n then do {
        x \<leftarrow> getguy i;
        if P x then Some (Some (i, x)) else scan getguy n P (i + 1) }
      else Some None)"
  by pat_completeness auto
termination
  by (relation "measure (\<lambda>(getguy, n, P, i). nat (n - i))") auto

declare scan.simps [simp del]

text \<open>What the loop computes on the list of elements.\<close>

definition find_elem :: "('x \<Rightarrow> bool) \<Rightarrow> 'x list \<Rightarrow> (int \<times> 'x) option" where
  "find_elem P xs = map_option (\<lambda>i. (int i, xs ! i)) (first_index (\<lambda>i. P (xs ! i)) (length xs))"

section \<open>Interface\<close>

text \<open>
  What the rest of the kernel relies on: the array is a list with append, delete and
  indexed reads, and an append that fails leaves it as it was.
\<close>

locale ptr_array =
  fixes rep :: "'ar \<Rightarrow> 'x list \<Rightarrow> bool"
    and getnum :: "'ar \<Rightarrow> int"
    and getguy :: "'ar \<Rightarrow> int \<Rightarrow> 'x option"
    and add :: "bool \<Rightarrow> 'ar \<Rightarrow> 'x \<Rightarrow> (errno \<times> 'ar) option"
    and remove :: "'ar \<Rightarrow> int \<Rightarrow> 'ar option"
    and limit :: nat
  assumes getnum_law: "rep a xs \<Longrightarrow> getnum a = int (length xs)"
    and getguy_law: "rep a xs \<Longrightarrow> i < length xs \<Longrightarrow> getguy a (int i) = Some (xs ! i)"
    and getguy_outside: "rep a xs \<Longrightarrow> \<not> (0 \<le> j \<and> j < int (length xs)) \<Longrightarrow> getguy a j = None"
    and add_law: "rep a xs \<Longrightarrow> length xs < limit \<Longrightarrow> add True a x = Some r \<Longrightarrow>
      fst r = ESUCCESS \<and> rep (snd r) (xs @ [x])"
    and add_returns: "rep a xs \<Longrightarrow> length xs < limit \<Longrightarrow> add ok a x \<noteq> None"
    and add_full: "rep a xs \<Longrightarrow> length xs < limit \<Longrightarrow> add False a x = Some r \<Longrightarrow>
      fst r = ENOMEM \<and> snd r = a \<or> fst r = ESUCCESS \<and> rep (snd r) (xs @ [x])"
    and remove_law: "rep a xs \<Longrightarrow> i < length xs \<Longrightarrow>
      \<exists>a'. remove a (int i) = Some a' \<and> rep a' (take i xs @ drop (Suc i) xs)"
begin

lemma scan_from:
  assumes "rep a xs" and "k \<le> length xs"
  shows "scan (getguy a) (getnum a) P (int k) =
    Some (map_option (\<lambda>i. (int i, xs ! i)) (find (\<lambda>i. P (xs ! i)) [k..<length xs]))"
  using assms(2)
proof (induction "length xs - k" arbitrary: k)
  case 0
  then show ?case using assms(1) by (subst scan.simps) (simp add: getnum_law)
next
  case (Suc d)
  then have k: "k < length xs" by simp
  have IH: "scan (getguy a) (getnum a) P (int k + 1) =
      Some (map_option (\<lambda>i. (int i, xs ! i)) (find (\<lambda>i. P (xs ! i)) [Suc k..<length xs]))"
    using Suc.hyps(1)[of "Suc k"] Suc.hyps(2) k by (simp add: add.commute)
  with k show ?case
    by (subst scan.simps)
      (simp add: getnum_law[OF assms(1)] getguy_law[OF assms(1)] upt_conv_Cons)
qed

lemma scan_all: "rep a xs \<Longrightarrow> scan (getguy a) (getnum a) P 0 = Some (find_elem P xs)"
  using scan_from[of a xs 0 P] by (simp add: find_elem_def first_index_def)

lemma add_then_remove_last:
  assumes "rep a xs" and "length xs < limit" and "add True a x = Some r"
  shows "\<exists>a'. remove (snd r) (int (length xs)) = Some a' \<and> rep a' xs"
  using remove_law[of "snd r" "xs @ [x]" "length xs"] add_law[OF assms] by simp

end

section \<open>Correctness\<close>

lemma grow_max_Some:
  assumes "0 \<le> m" and "nguys < 2 ^ 29"
  shows "\<exists>r. grow_max nguys m = Some r \<and> nguys \<le> r \<and> m \<le> r \<and> r \<le> max m (2 * nguys)"
  using assms(1)
proof (induction "nat (nguys - m)" arbitrary: m rule: less_induct)
  case less
  show ?case
  proof (cases "m < nguys")
    case True
    let ?m = "m * 2 + 2"
    have w: "c_int ?m = ?m" using True less.prems assms(2) by (intro c_int_id) auto
    obtain r where "grow_max nguys ?m = Some r" "nguys \<le> r" "?m \<le> r" "r \<le> max ?m (2 * nguys)"
      using less.hyps[of ?m] True less.prems by auto
    then show ?thesis
      using True less.prems by (subst grow_max.simps) (auto simp: w)
  next
    case False
    then show ?thesis by (subst grow_max.simps) auto
  qed
qed

lemma length_cells_of: "array_inv a \<Longrightarrow> length (cells_of (a_v a)) = nat (a_max a)"
  by (auto simp: array_inv_def cells_of_def split: option.splits)

lemma length_array_cells: "array_inv a \<Longrightarrow> length (array_cells a) = nat (a_num a)"
  using length_cells_of[of a] by (auto simp: array_cells_def array_inv_def)

lemma array_preallocate_fail:
  "array_inv a \<Longrightarrow> nguys < 2 ^ 29 \<Longrightarrow> array_preallocate False a nguys = Some (ENOMEM, a)"
  using grow_max_Some[of "a_max a" nguys]
  by (auto simp: array_preallocate_def array_inv_def)

lemma array_preallocate_ok:
  assumes "array_inv a" and "nguys < 2 ^ 29"
  shows "\<exists>a'. array_preallocate True a nguys = Some (ESUCCESS, a') \<and> array_inv a'
    \<and> array_cells a' = array_cells a \<and> a_num a' = a_num a
    \<and> nguys \<le> a_max a' \<and> a_max a \<le> a_max a' \<and> a_v a' \<noteq> None"
proof -
  obtain r where r: "grow_max nguys (a_max a) = Some r" "nguys \<le> r" "a_max a \<le> r"
      "r \<le> max (a_max a) (2 * nguys)"
    using grow_max_Some[of "a_max a" nguys] assms by (auto simp: array_inv_def)
  have r30: "r < 2 ^ 30" using r(4) assms by (auto simp: array_inv_def)
  have n: "0 \<le> a_num a" "a_num a \<le> a_max a" using assms by (auto simp: array_inv_def)
  have cells: "ptr_cells r = nat r" using ptr_cells_small r30 r(3) n by auto
  let ?v = "take (nat (a_num a)) (cells_of (a_v a)) @ replicate (nat r - nat (a_num a)) None"
  have c: "copy_cells (a_num a) (cells_of (a_v a)) (replicate (ptr_cells r) None) = Some ?v"
    using n r(3) length_cells_of[OF assms(1)] by (auto simp: copy_cells_def cells)
  show ?thesis
    using n r r30 c length_cells_of[OF assms(1)]
    by (auto simp: array_preallocate_def array_inv_def array_cells_def cells_of_def
        split: option.splits)
qed

lemma array_setsize_Suc:
  assumes "array_inv a" and "a_num a < 2 ^ 29 - 1"
  shows "array_setsize False a (a_num a + 1) = Some (ENOMEM, a) \<and> a_num a = a_max a
      \<or> (\<exists>a'. array_setsize False a (a_num a + 1) = Some (ESUCCESS, a') \<and> a_num a < a_max a)"
    and "\<And>ok. ok \<or> a_num a < a_max a \<Longrightarrow>
      \<exists>a'. array_setsize ok a (a_num a + 1) = Some (ESUCCESS, a') \<and> array_inv a'
        \<and> a_num a' = a_num a + 1 \<and> take (nat (a_num a)) (array_cells a') = array_cells a
        \<and> a_v a' \<noteq> None"
proof -
  have n: "0 \<le> a_num a" "a_num a \<le> a_max a" using assms by (auto simp: array_inv_def)
  show "array_setsize False a (a_num a + 1) = Some (ENOMEM, a) \<and> a_num a = a_max a
      \<or> (\<exists>a'. array_setsize False a (a_num a + 1) = Some (ESUCCESS, a') \<and> a_num a < a_max a)"
    using n assms array_preallocate_fail[of a "a_num a + 1"] by (auto simp: array_setsize_def)
  fix ok assume ok: "ok \<or> a_num a < a_max a"
  show "\<exists>a'. array_setsize ok a (a_num a + 1) = Some (ESUCCESS, a') \<and> array_inv a'
        \<and> a_num a' = a_num a + 1 \<and> take (nat (a_num a)) (array_cells a') = array_cells a
        \<and> a_v a' \<noteq> None"
  proof (cases "a_num a < a_max a")
    case True
    then show ?thesis using n assms
      by (auto simp: array_setsize_def array_inv_def array_cells_def min_def split: option.splits)
  next
    case False
    with n have eq: "a_max a = a_num a" by simp
    obtain a' where a': "array_preallocate True a (a_num a + 1) = Some (ESUCCESS, a')"
      "array_inv a'" "array_cells a' = array_cells a" "a_num a' = a_num a"
      "a_num a + 1 \<le> a_max a'" "a_v a' \<noteq> None"
      using array_preallocate_ok[of a "a_num a + 1"] assms by auto
    show ?thesis using n a' ok eq
      by (intro exI[of _ "a'\<lparr>a_num := a_num a + 1\<rparr>"])
        (auto simp: array_setsize_def array_inv_def array_cells_def min_def split: option.splits)
  qed
qed

lemma array_rep_create: "array_create True = Some a \<Longrightarrow> array_rep a []"
  by (auto simp: array_create_def array_rep_def array_inv_def array_cells_def cells_of_def)

lemma array_rep_num: "array_rep a xs \<Longrightarrow> a_num a = int (length xs)"
  using length_array_cells[of a] by (auto simp: array_rep_def array_inv_def)

lemma array_rep_cell:
  assumes "array_rep a xs" and "i < length xs"
  shows "a_v a \<noteq> None" and "rd (cells_of (a_v a)) (int i) = Some (Some (xs ! i))"
proof -
  have n: "a_num a = int (length xs)" using assms array_rep_num by blast
  have c: "take (length xs) (cells_of (a_v a)) = map Some xs"
    using assms n by (simp add: array_rep_def array_cells_def)
  have l: "i < length (cells_of (a_v a))"
    using assms n length_cells_of[of a] by (auto simp: array_rep_def array_inv_def)
  then show "a_v a \<noteq> None" by (auto simp: cells_of_def split: option.splits)
  have "cells_of (a_v a) ! i = Some (xs ! i)"
    using arg_cong[OF c, of "\<lambda>l. l ! i"] assms(2) by simp
  with l show "rd (cells_of (a_v a)) (int i) = Some (Some (xs ! i))" by simp
qed

lemma array_rep_getguy:
  assumes "array_rep a xs" and "i < length xs"
  shows "array_getguy a (int i) = Some (xs ! i)"
proof -
  obtain v where v: "a_v a = Some v" using array_rep_cell(1)[OF assms] by blast
  then have "rd v (int i) = Some (Some (xs ! i))"
    using array_rep_cell(2)[OF assms] by (simp add: cells_of_def)
  then show ?thesis
    using v assms array_rep_num[OF assms(1)]
    by (simp add: array_getguy_def array_rep_def array_inv_def)
qed

lemma array_rep_getguy_outside:
  assumes "array_rep a xs" and "\<not> (0 \<le> j \<and> j < int (length xs))"
  shows "array_getguy a j = None"
  using array_rep_num[OF assms(1)] assms(2) by (auto simp: array_getguy_def)

lemma array_rep_setguy:
  assumes "array_rep a xs" and "i < length xs"
  shows "\<exists>a'. array_setguy a (int i) x = Some a' \<and> array_rep a' (xs[i := x])"
proof -
  obtain v where v: "a_v a = Some v" using array_rep_cell(1)[OF assms] by blast
  have n: "a_num a = int (length xs)" using array_rep_num[OF assms(1)] .
  have l: "i < length v" using assms n v by (auto simp: array_rep_def array_inv_def)
  show ?thesis
    using assms n v l
    by (auto simp: array_setguy_def array_rep_def array_inv_def array_cells_def cells_of_def
        take_update_swap map_update)
qed

lemma array_store_last:
  assumes "array_inv a" and "a_num a = int (Suc n)" and "a_v a = Some v"
    and "take n (array_cells a) = map Some xs" and "length xs = n"
  shows "wr v (int n) (Some x) = Some (v[n := Some x]) \<and>
    array_rep (a\<lparr>a_v := Some (v[n := Some x])\<rparr>) (xs @ [x])"
proof -
  have l: "n < length v" "Suc n \<le> length v" using assms by (auto simp: array_inv_def)
  moreover have "take n v = map Some xs"
    using assms by (simp add: array_cells_def cells_of_def del: of_nat_Suc)
  ultimately show ?thesis
    using assms by (auto simp: array_rep_def array_inv_def array_cells_def cells_of_def
        take_list_update_Suc nat_add_distrib)
qed

lemma array_add_cases:
  assumes "array_rep a xs" and "length xs < 2 ^ 29 - 1"
  shows "(ok \<or> a_num a < a_max a \<longrightarrow>
      (\<exists>a'. array_add ok a x = Some (ESUCCESS, a') \<and> array_rep a' (xs @ [x])))
    \<and> (\<not> ok \<and> \<not> a_num a < a_max a \<longrightarrow> array_add ok a x = Some (ENOMEM, a))"
proof -
  have n: "a_num a = int (length xs)" using array_rep_num[OF assms(1)] .
  have inv: "array_inv a" and c: "array_cells a = map Some xs"
    using assms(1) by (auto simp: array_rep_def)
  have w: "c_int (a_num a + 1) = a_num a + 1" using n assms(2) by (intro c_int_id) auto
  have small: "a_num a < 2 ^ 29 - 1" using n assms(2) by simp
  note step = array_setsize_Suc[OF inv small]
  have success: "\<exists>a'. array_add ok a x = Some (ESUCCESS, a') \<and> array_rep a' (xs @ [x])"
    if ok: "ok \<or> a_num a < a_max a"
  proof -
    obtain a' v where a': "array_setsize ok a (a_num a + 1) = Some (ESUCCESS, a')" "array_inv a'"
      "a_num a' = int (Suc (length xs))" "take (length xs) (array_cells a') = map Some xs"
      "a_v a' = Some v"
      using step(2)[OF ok] n c by (auto simp: add.commute)
    show ?thesis
      using array_store_last[OF a'(2,3,5,4)] a'(1,5) n w by (auto simp: array_add_def)
  qed
  have "array_add ok a x = Some (ENOMEM, a)" if "\<not> ok \<and> \<not> a_num a < a_max a"
    using step(1) that w by (auto simp: array_add_def)
  with success show ?thesis by blast
qed

lemma array_rep_remove:
  assumes "array_rep a xs" and "i < length xs"
  shows "\<exists>a'. array_remove a (int i) = Some a' \<and> array_rep a' (take i xs @ drop (Suc i) xs)"
proof -
  obtain v where v: "a_v a = Some v" using array_rep_cell(1)[OF assms] by blast
  let ?n = "length xs"
  let ?m = "?n - Suc i"
  have n: "a_num a = int ?n" using array_rep_num[OF assms(1)] .
  have l: "?n \<le> length v" "length v = nat (a_max a)" and t: "take ?n v = map Some xs"
    using assms n v by (auto simp: array_rep_def array_inv_def array_cells_def cells_of_def)
  let ?v = "take i v @ take ?m (drop (Suc i) v) @ drop (i + ?m) v"
  have mv: "move_down v i ?m = Some ?v" using l assms(2) by (simp add: move_down_def)
  have "take i v = map Some (take i xs)"
    using arg_cong[OF t, of "take i"] assms(2) by (simp add: min_def take_map)
  moreover have "take ?m (drop (Suc i) v) = map Some (drop (Suc i) xs)"
    using arg_cong[OF t, of "drop (Suc i)"] by (simp add: drop_map drop_take)
  moreover have "take (?n - 1) ?v = take i v @ take ?m (drop (Suc i) v)"
    using l assms(2) by simp
  ultimately have "take (?n - 1) ?v = map Some (take i xs @ drop (Suc i) xs)" by simp
  then have rep: "array_rep (a\<lparr>a_v := Some ?v, a_num := a_num a - 1\<rparr>) (take i xs @ drop (Suc i) xs)"
    using assms n l by (auto simp: array_rep_def array_inv_def array_cells_def cells_of_def
        nat_diff_distrib)
  have "nat (a_num a - (int i + 1)) = ?m" using n assms(2) by simp
  with v mv n assms have "array_remove a (int i) = Some (a\<lparr>a_v := Some ?v, a_num := a_num a - 1\<rparr>)"
    by (simp add: array_remove_def array_rep_def array_inv_def)
  with rep show ?thesis by blast
qed

interpretation arr: ptr_array array_rep array_getnum array_getguy array_add array_remove "2 ^ 29 - 1"
proof (unfold_locales, goal_cases)
  case (1 a xs)
  then show ?case using array_rep_num by (simp add: array_getnum_def)
next
  case (2 a xs i)
  then show ?case by (rule array_rep_getguy)
next
  case (3 a xs j)
  then show ?case by (rule array_rep_getguy_outside)
next
  case (4 a xs x r)
  then show ?case using array_add_cases[of a xs True x] by auto
next
  case (5 a xs ok x)
  then show ?case using array_add_cases[of a xs ok x] by blast
next
  case (6 a xs x r)
  then show ?case using array_add_cases[of a xs False x] by auto
next
  case (7 a xs i)
  then show ?case by (rule array_rep_remove)
qed

section \<open>Properties\<close>

text \<open>C38. \<open>array_add\<close> always returns on a well-formed array of fewer than 2^29-1 elements.  With
  memory it appends; without, it either appends into spare room or reports \<open>ENOMEM\<close> and leaves
  the array exactly as it was.  Removing the appended element restores the old contents.\<close>

theorem array_add_remove:
  assumes "array_rep a xs" and "length xs < 2 ^ 29 - 1"
  shows "\<exists>e a'. array_add ok a x = Some (e, a')
    \<and> (e = ESUCCESS \<and> array_rep a' (xs @ [x])
          \<and> (\<exists>a''. array_remove a' (int (length xs)) = Some a'' \<and> array_rep a'' xs)
      \<or> e = ENOMEM \<and> ok = False \<and> a' = a)"
proof -
  obtain r where r: "array_add ok a x = Some r" using arr.add_returns[OF assms, of ok x] by blast
  have "fst r = ESUCCESS \<and> array_rep (snd r) (xs @ [x]) \<or> fst r = ENOMEM \<and> ok = False \<and> snd r = a"
    using arr.add_law[OF assms, of x r] arr.add_full[OF assms, of x r] r by (cases ok) auto
  moreover have "array_rep (snd r) (xs @ [x]) \<Longrightarrow>
      \<exists>a''. array_remove (snd r) (int (length xs)) = Some a'' \<and> array_rep a'' xs"
    using arr.remove_law[of "snd r" "xs @ [x]" "length xs"] by simp
  ultimately show ?thesis using r by (cases r) auto
qed

theorem array_add_remove_witness:
  "\<exists>e a'. array_add False \<lparr>a_num = 1, a_max = 1, a_v = Some [Some (5 :: nat)]\<rparr> 6 = Some (e, a')
    \<and> (e = ESUCCESS \<and> array_rep a' [5, 6] \<or> e = ENOMEM \<and> array_rep a' [5])"
proof -
  let ?a = "\<lparr>a_num = 1, a_max = 1, a_v = Some [Some (5 :: nat)]\<rparr>"
  have r: "array_rep ?a [5]" by (simp add: array_rep_def array_inv_def array_cells_def cells_of_def)
  show ?thesis using array_add_remove[OF r, of False 6] r by auto
qed

end
