(* ===== verification/Kernel_Queue.thy ===== *)
theory Kernel_Queue
  imports Kernel_Prelude
begin

text \<open>
  The resizable ring buffer of \<open>src/kern/lib/queue.c\<close>, the kernel's run queue.

  \<open>q_addtail\<close> and \<open>q_grow\<close> call each other: a full queue is grown, and growing copies
  the elements over with \<open>q_addtail\<close>.  The mutual recursion carries a nesting bound and
  the copy loop an iteration bound; \<open>q_grow_n_ok\<close> and \<open>q_addtail_full\<close> show that on
  every well-formed queue neither bound is met, since the copy never fills the larger
  buffer.  Cells that were never written are \<open>None\<close>.
\<close>

section \<open>Model\<close>

record 'a kqueue =
  q_size :: int
  q_nextwrite :: int
  q_nextread :: int
  q_data :: "'a option list"

text \<open>\<open>while (nsize < targetsize) { nsize *= 2; assert(nsize > 0); }\<close>\<close>

function q_newsize :: "int \<Rightarrow> int \<Rightarrow> int option" where
  "q_newsize targetsize nsize =
     (if nsize < targetsize then
        (let nsize' = c_int (nsize * 2) in
         if nsize' > 0 then q_newsize targetsize nsize' else None)
      else Some nsize)"
  by pat_completeness auto
termination
proof (relation "measure (\<lambda>(t, n). if 0 < n \<and> n < 2 ^ 31 then nat (2 ^ 31 - n) else 2 ^ 32)")
  fix targetsize nsize x :: int
  assume x: "x = c_int (nsize * 2)" "0 < x"
  have "x < 2 ^ 31" using x c_int_range by simp
  moreover have "nsize < x" if n: "0 < nsize" "nsize < 2 ^ 31"
  proof (cases "nsize < 2 ^ 30")
    case True
    then have "c_int (nsize * 2) = nsize * 2" using n by (intro c_int_id) auto
    then show ?thesis using x n by simp
  next
    case False
    then have "c_int (nsize * 2) = nsize * 2 - 2 ^ 32" using n by (intro c_int_wrap) auto
    then show ?thesis using x n by simp
  qed
  ultimately show "((targetsize, x), targetsize, nsize)
    \<in> measure (\<lambda>(t, n). if 0 < n \<and> n < 2 ^ 31 then nat (2 ^ 31 - n) else 2 ^ 32)"
    using x(2) by auto
qed simp

declare q_newsize.simps [simp del]

definition q_store :: "'a kqueue \<Rightarrow> 'a \<Rightarrow> int \<Rightarrow> (errno \<times> 'a kqueue) option" where
  "q_store q ptr nextnext = do {
     data \<leftarrow> wr (q_data q) (q_nextwrite q) (Some ptr);
     Some (ESUCCESS, q\<lparr>q_data := data, q_nextwrite := nextnext\<rparr>) }"

text \<open>
  \<open>ok\<close> says whether the \<open>kmalloc\<close> of \<open>q_grow\<close> succeeds; the copy loop asserts that each
  \<open>q_addtail\<close> into the new buffer does.
\<close>

function q_addtail_n :: "nat \<Rightarrow> bool \<Rightarrow> 'a kqueue \<Rightarrow> 'a \<Rightarrow> (errno \<times> 'a kqueue) option"
  and q_grow_n :: "nat \<Rightarrow> bool \<Rightarrow> 'a kqueue \<Rightarrow> int \<Rightarrow> (errno \<times> 'a kqueue) option"
  and q_copy_n :: "nat \<Rightarrow> nat \<Rightarrow> bool \<Rightarrow> 'a option list \<Rightarrow> int \<Rightarrow> int \<Rightarrow> int \<Rightarrow> 'a kqueue \<Rightarrow> 'a kqueue option"
where
  "q_addtail_n d ok q ptr = do {
     kassert (q_size q > 0);
     let nextnext = c_rem (q_nextwrite q + 1) (q_size q);
     if nextnext = q_nextread q then
       (case d of 0 \<Rightarrow> None
        | Suc d' \<Rightarrow> do {
            (result, q) \<leftarrow> q_grow_n d' ok q (c_int (q_size q + 1));
            if result \<noteq> ESUCCESS then Some (result, q)
            else q_store q ptr (c_rem (q_nextwrite q + 1) (q_size q)) })
     else q_store q ptr nextnext }"
| "q_grow_n d ok q targetsize = do {
     let olddata = q_data q;
     let onr = q_nextread q;
     let onw = q_nextwrite q;
     let osize = q_size q;
     nsize \<leftarrow> q_newsize targetsize (q_size q);
     if \<not> ok then Some (ENOMEM, q)
     else do {
       let q = \<lparr>q_size = nsize, q_nextwrite = 0, q_nextread = 0,
                q_data = replicate (ptr_cells nsize) None\<rparr>;
       q \<leftarrow> q_copy_n d (nat osize) ok olddata onr onw osize q;
       Some (ESUCCESS, q) } }"
| "q_copy_n d n ok olddata i onw osize q =
     (if i = onw then Some q
      else (case n of 0 \<Rightarrow> None
        | Suc n' \<Rightarrow> do {
            cell \<leftarrow> rd olddata i;
            x \<leftarrow> cell;
            (result, q) \<leftarrow> q_addtail_n d ok q x;
            kassert (result = ESUCCESS);
            q_copy_n d n' ok olddata (c_rem (i + 1) osize) onw osize q }))"
  by pat_completeness auto
termination
  by (relation "measures [\<lambda>c. case c of Inl (d, _) \<Rightarrow> 2 * d | Inr (Inl (d, _)) \<Rightarrow> 2 * d + 1 | Inr (Inr (d, _)) \<Rightarrow> 2 * d + 1,
     \<lambda>c. case c of Inl _ \<Rightarrow> 0 | Inr (Inl (d, ok, q, _)) \<Rightarrow> Suc (nat (q_size q)) | Inr (Inr (d, n, _)) \<Rightarrow> n]")
    auto

declare q_addtail_n.simps [simp del] q_grow_n.simps [simp del] q_copy_n.simps [simp del]

definition q_addtail :: "bool \<Rightarrow> 'a kqueue \<Rightarrow> 'a \<Rightarrow> (errno \<times> 'a kqueue) option" where
  "q_addtail ok q ptr = q_addtail_n 1 ok q ptr"

definition q_grow :: "bool \<Rightarrow> 'a kqueue \<Rightarrow> int \<Rightarrow> (errno \<times> 'a kqueue) option" where
  "q_grow ok q targetsize = q_grow_n 0 ok q targetsize"

text \<open>The two allocations of \<open>q_create\<close>; the result \<open>None\<close> is the null pointer.\<close>

definition q_create :: "bool \<Rightarrow> bool \<Rightarrow> int \<Rightarrow> 'a kqueue option" where
  "q_create ok_hdr ok_data sz =
     (if \<not> ok_hdr then None
      else if \<not> ok_data then None
      else Some \<lparr>q_size = sz, q_nextwrite = 0, q_nextread = 0,
                  q_data = replicate (ptr_cells sz) None\<rparr>)"

definition q_preallocate :: "bool \<Rightarrow> 'a kqueue \<Rightarrow> int \<Rightarrow> (errno \<times> 'a kqueue) option" where
  "q_preallocate ok q sz = do {
     kassert (q_size q > 0);
     if sz > q_size q then q_grow ok q sz else Some (ESUCCESS, q) }"

definition q_empty :: "'a kqueue \<Rightarrow> bool" where
  "q_empty q \<longleftrightarrow> q_nextwrite q = q_nextread q"

definition q_remhead :: "'a kqueue \<Rightarrow> ('a \<times> 'a kqueue) option" where
  "q_remhead q = do {
     kassert (q_size q > 0);
     kassert (\<not> q_empty q);
     cell \<leftarrow> rd (q_data q) (q_nextread q);
     ret \<leftarrow> cell;
     Some (ret, q\<lparr>q_nextread := c_rem (q_nextread q + 1) (q_size q)\<rparr>) }"

text \<open>The blocks \<open>q_destroy\<close> frees; it insists on an empty queue.\<close>

datatype queue_block = Queue_Data | Queue_Header

definition q_destroy :: "'a kqueue \<Rightarrow> queue_block list option" where
  "q_destroy q = do { kassert (q_empty q); Some [Queue_Data, Queue_Header] }"

definition q_getstart :: "'a kqueue \<Rightarrow> int" where
  "q_getstart q = q_nextread q"

definition q_getend :: "'a kqueue \<Rightarrow> int" where
  "q_getend q = q_nextwrite q"

definition q_getsize :: "'a kqueue \<Rightarrow> int" where
  "q_getsize q = q_size q"

definition q_getguy :: "'a kqueue \<Rightarrow> int \<Rightarrow> 'a option" where
  "q_getguy q index = do {
     kassert (0 \<le> index \<and> index < q_size q);
     cell \<leftarrow> rd (q_data q) index;
     cell }"

section \<open>Abstraction\<close>

definition q_inv :: "'a kqueue \<Rightarrow> bool" where
  "q_inv q \<longleftrightarrow> 0 < q_size q \<and> q_size q < 2 ^ 29
     \<and> 0 \<le> q_nextread q \<and> q_nextread q < q_size q
     \<and> 0 \<le> q_nextwrite q \<and> q_nextwrite q < q_size q
     \<and> length (q_data q) = nat (q_size q)"

text \<open>
  \<open>q_rep q xs\<close>: the cells from \<open>q_nextread\<close> up to \<open>q_nextwrite\<close>, going round, hold \<open>xs\<close>.
  One cell always stays free, so at most \<open>q_size q - 1\<close> elements fit.
\<close>

definition q_rep :: "'a kqueue \<Rightarrow> 'a list \<Rightarrow> bool" where
  "q_rep q xs \<longleftrightarrow> q_inv q \<and> int (length xs) < q_size q
     \<and> q_nextwrite q = (q_nextread q + int (length xs)) mod q_size q
     \<and> (\<forall>k<length xs. q_data q ! nat ((q_nextread q + int k) mod q_size q) = Some (xs ! k))"


text \<open>Taking the first \<open>n\<close> elements out of a queue, one \<open>remhead\<close> at a time.\<close>

fun take_heads :: "('q \<Rightarrow> ('x \<times> 'q) option) \<Rightarrow> nat \<Rightarrow> 'q \<Rightarrow> ('x list \<times> 'q) option" where
  "take_heads remhead 0 q = Some ([], q)"
| "take_heads remhead (Suc n) q = do {
     (x, q) \<leftarrow> remhead q;
     (xs, q) \<leftarrow> take_heads remhead n q;
     Some (x # xs, q) }"

section \<open>Interface\<close>

text \<open>
  What the scheduler relies on: first in, first out; a failed insertion changes nothing;
  after a successful preallocation insertions need no memory until the queue holds the
  number of elements asked for.
\<close>

locale fifo =
  fixes rep :: "'q \<Rightarrow> 'x list \<Rightarrow> bool"
    and room :: "'q \<Rightarrow> nat"
    and is_empty :: "'q \<Rightarrow> bool"
    and addtail :: "bool \<Rightarrow> 'q \<Rightarrow> 'x \<Rightarrow> (errno \<times> 'q) option"
    and remhead :: "'q \<Rightarrow> ('x \<times> 'q) option"
    and prealloc :: "bool \<Rightarrow> 'q \<Rightarrow> int \<Rightarrow> (errno \<times> 'q) option"
    and limit :: nat
  assumes empty_law: "rep q xs \<Longrightarrow> is_empty q \<longleftrightarrow> xs = []"
    and remhead_law: "rep q (x # xs) \<Longrightarrow> \<exists>q'. remhead q = Some (x, q') \<and> rep q' xs \<and> room q' = room q"
    and remhead_empty: "rep q [] \<Longrightarrow> remhead q = None"
    and addtail_room: "rep q xs \<Longrightarrow> length xs < room q \<Longrightarrow>
      \<exists>q'. addtail ok q x = Some (ESUCCESS, q') \<and> rep q' (xs @ [x]) \<and> room q' = room q"
    and addtail_grow: "rep q xs \<Longrightarrow> room q < limit \<Longrightarrow>
      \<exists>q'. addtail True q x = Some (ESUCCESS, q') \<and> rep q' (xs @ [x]) \<and> room q \<le> room q'
        \<and> room q' \<le> 2 * room q + 3"
    and addtail_fail: "rep q xs \<Longrightarrow> room q < limit \<Longrightarrow> length xs = room q \<Longrightarrow>
      addtail False q x = Some (ENOMEM, q)"
    and prealloc_law: "rep q xs \<Longrightarrow> n < int limit \<Longrightarrow>
      \<exists>q'. prealloc True q n = Some (ESUCCESS, q') \<and> rep q' xs \<and> n - 1 \<le> int (room q')
        \<and> room q \<le> room q' \<and> room q' \<le> max (room q) (nat (2 * n))"
    and prealloc_fail: "rep q xs \<Longrightarrow> n < int limit \<Longrightarrow> prealloc False q n = Some (e, q') \<Longrightarrow>
      q' = q \<and> (e = ENOMEM \<or> e = ESUCCESS \<and> n - 1 \<le> int (room q))"
begin

lemma take_heads_law:
  "rep q (xs @ ys) \<Longrightarrow> \<exists>q'. take_heads remhead (length xs) q = Some (xs, q') \<and> rep q' ys"
proof (induction xs arbitrary: q)
  case Nil
  then show ?case by simp
next
  case (Cons x xs)
  from Cons.prems obtain q1 where q1: "remhead q = Some (x, q1)" "rep q1 (xs @ ys)"
    using remhead_law[of q x "xs @ ys"] by auto
  from Cons.IH[OF q1(2)] q1(1) show ?case by auto
qed

text \<open>An element waits for exactly the elements that were ahead of it.\<close>

lemma served_in_order:
  assumes "rep q xs" and "room q < limit" and "addtail True q x = Some (e, q1)"
  shows "e = ESUCCESS \<and> (\<exists>q2. take_heads remhead (Suc (length xs)) q1 = Some (xs @ [x], q2) \<and> rep q2 [])"
proof -
  from addtail_grow[OF assms(1,2), of x] assms(3) have e: "e = ESUCCESS" and r: "rep q1 ((xs @ [x]) @ [])"
    by auto
  from take_heads_law[OF r] e show ?thesis by simp
qed

end

section \<open>Correctness\<close>

lemma q_newsize_Some:
  assumes "0 < n" and "t < 2 ^ 29" and "n < 2 ^ 29"
  shows "\<exists>m. q_newsize t n = Some m \<and> t \<le> m \<and> n \<le> m \<and> m \<le> max n (2 * t)"
  using assms(1,3)
proof (induction "nat (t - n)" arbitrary: n rule: less_induct)
  case less
  show ?case
  proof (cases "n < t")
    case True
    have w: "c_int (n * 2) = n * 2" using less.prems assms(2) by (intro c_int_id) auto
    show ?thesis
    proof (cases "n * 2 < t")
      case True2: True
      obtain m where m: "q_newsize t (n * 2) = Some m" "t \<le> m" "n * 2 \<le> m" "m \<le> max (n * 2) (2 * t)"
        using less.hyps[of "n * 2"] True True2 less.prems assms(2) by auto
      show ?thesis
        using True w less.prems m by (subst q_newsize.simps) auto
    next
      case False
      then have "q_newsize t (n * 2) = Some (n * 2)" by (simp add: q_newsize.simps)
      with True False w less.prems show ?thesis by (subst q_newsize.simps) auto
    qed
  next
    case False
    then show ?thesis by (subst q_newsize.simps) auto
  qed
qed

lemma ring_distinct:
  fixes r :: int
  assumes "0 < s" and "j < s" and "k < s" and "0 \<le> j" and "0 \<le> k" and "(r + j) mod s = (r + k) mod s"
  shows "j = k"
proof -
  have "j mod s = k mod s"
    using assms(6) by (metis add_diff_cancel_left' mod_diff_left_eq)
  with assms show ?thesis by simp
qed

lemma ring_nat_distinct:
  fixes r :: int
  assumes "0 < s" and "j < s" and "k < s" and "0 \<le> j" and "0 \<le> k"
    and "nat ((r + j) mod s) = nat ((r + k) mod s)"
  shows "j = k"
proof -
  have "(r + j) mod s = (r + k) mod s"
    using assms(1,6) pos_mod_sign[of s "r + j"] pos_mod_sign[of s "r + k"] eq_nat_nat_iff by blast
  with assms show ?thesis using ring_distinct by blast
qed

lemma q_rep_empty: "q_rep q xs \<Longrightarrow> q_empty q \<longleftrightarrow> xs = []"
proof
  assume r: "q_rep q xs" and "q_empty q"
  then have "(q_nextread q + int (length xs)) mod q_size q = (q_nextread q + 0) mod q_size q"
    by (auto simp: q_rep_def q_inv_def q_empty_def)
  then have "int (length xs) = 0"
    using r by (intro ring_distinct[of "q_size q" "int (length xs)" 0 "q_nextread q"])
      (auto simp: q_rep_def q_inv_def)
  then show "xs = []" by simp
qed (auto simp: q_rep_def q_inv_def q_empty_def)

lemma q_rep_remhead:
  assumes "q_rep q (x # xs)"
  shows "\<exists>q'. q_remhead q = Some (x, q') \<and> q_rep q' xs \<and> q_size q' = q_size q"
proof -
  let ?s = "q_size q" and ?r = "q_nextread q"
  have inv: "0 < ?s" "0 \<le> ?r" "?r < ?s" "q_inv q" "length (q_data q) = nat ?s"
    using assms by (auto simp: q_rep_def q_inv_def)
  have "q_data q ! nat ?r = Some x" using assms inv by (force simp: q_rep_def)
  moreover have "nat ?r < length (q_data q)" using inv by simp
  moreover have ne: "\<not> q_empty q" using q_rep_empty[OF assms] by simp
  moreover have "q_rep (q\<lparr>q_nextread := (?r + 1) mod ?s\<rparr>) xs"
  proof -
    have cells: "q_data q ! nat ((?r + int k) mod ?s) = Some ((x # xs) ! k)" if "k < Suc (length xs)" for k
      using assms that by (auto simp: q_rep_def)
    have "q_data q ! nat (((?r + 1) mod ?s + int k) mod ?s) = Some (xs ! k)" if "k < length xs" for k
      using cells[of "Suc k"] that by (simp add: mod_simps algebra_simps)
    moreover have "q_nextwrite q = ((?r + 1) mod ?s + int (length xs)) mod ?s"
      using assms by (simp add: q_rep_def mod_simps algebra_simps)
    ultimately show ?thesis using assms inv by (auto simp: q_rep_def q_inv_def)
  qed
  ultimately show ?thesis using inv by (simp add: q_remhead_def rd_def)
qed

lemma q_rep_store:
  assumes "q_rep q xs" and "int (length xs) + 1 < q_size q"
  shows "\<exists>q'. q_store q x ((q_nextwrite q + 1) mod q_size q) = Some (ESUCCESS, q')
    \<and> q_rep q' (xs @ [x]) \<and> q_size q' = q_size q"
proof -
  let ?s = "q_size q" and ?r = "q_nextread q" and ?w = "q_nextwrite q"
  have inv: "0 < ?s" "0 \<le> ?w" "?w < ?s" "length (q_data q) = nat ?s" "q_inv q"
    and w: "?w = (?r + int (length xs)) mod ?s"
    using assms by (auto simp: q_rep_def q_inv_def)
  let ?q = "q\<lparr>q_data := (q_data q)[nat ?w := Some x], q_nextwrite := (?w + 1) mod ?s\<rparr>"
  have "q_rep ?q (xs @ [x])"
  proof -
    have "(q_data q)[nat ?w := Some x] ! nat ((?r + int k) mod ?s) = Some ((xs @ [x]) ! k)"
      if k: "k < Suc (length xs)" for k
    proof (cases "k = length xs")
      case True
      then show ?thesis using inv w by simp
    next
      case False
      then have "nat ?w \<noteq> nat ((?r + int k) mod ?s)"
        using ring_nat_distinct[of ?s "int (length xs)" "int k" ?r] assms k inv w by auto
      then show ?thesis using False k assms by (simp add: q_rep_def nth_append)
    qed
    moreover have "(?w + 1) mod ?s = (?r + int (length (xs @ [x]))) mod ?s"
      using w by (simp add: mod_simps algebra_simps)
    ultimately show ?thesis using assms inv by (auto simp: q_rep_def q_inv_def)
  qed
  then show ?thesis using inv by (auto simp: q_store_def wr_def)
qed

lemma q_rep_full_iff:
  assumes "q_rep q xs"
  shows "c_rem (q_nextwrite q + 1) (q_size q) = q_nextread q \<longleftrightarrow> int (length xs) + 1 = q_size q"
proof -
  let ?s = "q_size q" and ?r = "q_nextread q"
  have inv: "0 < ?s" "0 \<le> ?r" "?r < ?s" "0 \<le> q_nextwrite q" "int (length xs) < ?s"
    and w: "q_nextwrite q = (?r + int (length xs)) mod ?s"
    using assms by (auto simp: q_rep_def q_inv_def)
  have e: "c_rem (q_nextwrite q + 1) ?s = (?r + (int (length xs) + 1)) mod ?s"
    using inv w by (simp add: mod_simps algebra_simps)
  show ?thesis
  proof
    assume "c_rem (q_nextwrite q + 1) ?s = ?r"
    with e inv have "(?r + (int (length xs) + 1)) mod ?s = (?r + 0) mod ?s" by simp
    then show "int (length xs) + 1 = ?s"
      using inv ring_distinct[of ?s "int (length xs) + 1" 0 ?r] by force
  next
    assume "int (length xs) + 1 = ?s"
    with e inv show "c_rem (q_nextwrite q + 1) ?s = ?r" by simp
  qed
qed

lemma q_addtail_n_room:
  assumes "q_rep q xs" and "int (length xs) + 1 < q_size q"
  shows "\<exists>q'. q_addtail_n d ok q x = Some (ESUCCESS, q') \<and> q_rep q' (xs @ [x]) \<and> q_size q' = q_size q"
proof -
  have "0 < q_size q" "0 \<le> q_nextwrite q" using assms by (auto simp: q_rep_def q_inv_def)
  then show ?thesis
    using q_rep_store[OF assms, of x] q_rep_full_iff[OF assms(1)] assms(2)
    by (subst q_addtail_n.simps) auto
qed

lemma q_copy_n_rep:
  assumes old: "q_rep qo xs" and size: "int (length xs) < q_size q"
    and "k \<le> length xs" and "length xs - k \<le> n" and "q_rep q (take k xs)"
  shows "\<exists>q'. q_copy_n d n ok (q_data qo) ((q_nextread qo + int k) mod q_size qo) (q_nextwrite qo)
      (q_size qo) q = Some q' \<and> q_rep q' xs \<and> q_size q' = q_size q"
  using assms(2-5)
proof (induction "length xs - k" arbitrary: k n q)
  case 0
  then have "k = length xs" by simp
  with 0 old show ?case by (subst q_copy_n.simps) (auto simp: q_rep_def)
next
  case (Suc m)
  let ?s = "q_size qo" and ?r = "q_nextread qo"
  let ?i = "(?r + int k) mod ?s"
  have k: "k < length xs" and m: "m = length xs - Suc k" using Suc.hyps(2) by auto
  have inv: "0 < ?s" "0 \<le> ?i" "?i < ?s" "length (q_data qo) = nat ?s" "int (length xs) < ?s"
    using old by (auto simp: q_rep_def q_inv_def)
  have ne: "?i \<noteq> q_nextwrite qo"
  proof
    assume "?i = q_nextwrite qo"
    then have "(?r + int k) mod ?s = (?r + int (length xs)) mod ?s" using old by (simp add: q_rep_def)
    then have "int k = int (length xs)"
      using inv k by (intro ring_distinct[of ?s "int k" "int (length xs)" ?r]) auto
    with k show False by simp
  qed
  obtain n' where n': "n = Suc n'" using Suc.prems(3) k by (cases n) auto
  have nm: "length xs - Suc k \<le> n'" using Suc.prems(3) n' by auto
  have cell: "rd (q_data qo) ?i = Some (Some (xs ! k))"
    using old k inv by (simp add: q_rep_def rd_def)
  obtain q1 where q1: "q_addtail_n d ok q (xs ! k) = Some (ESUCCESS, q1)"
      "q_rep q1 (take (Suc k) xs)" "q_size q1 = q_size q"
    using q_addtail_n_room[OF Suc.prems(4), of d ok "xs ! k"] Suc.prems(1) k
    by (auto simp: take_Suc_conv_app_nth)
  have step: "c_rem (?i + 1) ?s = (?r + int (Suc k)) mod ?s"
    using inv by (simp add: mod_simps algebra_simps)
  obtain q' where "q_copy_n d n' ok (q_data qo) ((?r + int (Suc k)) mod ?s) (q_nextwrite qo) ?s q1 = Some q'"
      "q_rep q' xs" "q_size q' = q_size q1"
    using Suc.hyps(1)[of "Suc k" q1 n'] Suc.prems q1 nm m k by auto
  then show ?case
    using ne cell q1 step n' by (subst q_copy_n.simps) auto
qed

definition q_room :: "'a kqueue \<Rightarrow> nat" where
  "q_room q = nat (q_size q) - 1"

lemma q_rep_fresh:
  "0 < m \<Longrightarrow> m < 2 ^ 29 \<Longrightarrow>
   q_rep \<lparr>q_size = m, q_nextwrite = 0, q_nextread = 0, q_data = replicate (ptr_cells m) None\<rparr> []"
  by (simp add: q_rep_def q_inv_def ptr_cells_small)

lemma q_grow_n_ok:
  assumes "q_rep q xs" and "q_size q \<le> t" and "t \<le> 2 ^ 27 + 1"
  shows "\<exists>q'. q_grow_n d True q t = Some (ESUCCESS, q') \<and> q_rep q' xs \<and> t \<le> q_size q'
      \<and> q_size q' \<le> 2 * t"
    and "q_grow_n d False q t = Some (ENOMEM, q)"
proof -
  have inv: "0 < q_size q" "q_size q < 2 ^ 29" "int (length xs) < q_size q" "0 \<le> q_nextread q"
    "q_nextread q < q_size q"
    using assms(1) by (auto simp: q_rep_def q_inv_def)
  obtain m where m: "q_newsize t (q_size q) = Some m" "t \<le> m" "q_size q \<le> m" "m \<le> max (q_size q) (2 * t)"
    using q_newsize_Some[of "q_size q" t] inv assms(3) by auto
  have mb: "0 < m" "m < 2 ^ 29" "int (length xs) < m" "length xs \<le> nat (q_size q)"
    using m inv assms by auto
  let ?q = "\<lparr>q_size = m, q_nextwrite = 0, q_nextread = 0, q_data = replicate (ptr_cells m) (None :: 'a option)\<rparr>"
  obtain q' where q': "q_copy_n d (nat (q_size q)) True (q_data q) (q_nextread q) (q_nextwrite q) (q_size q) ?q = Some q'"
     "q_rep q' xs" "q_size q' = m"
    using q_copy_n_rep[OF assms(1), of ?q 0 "nat (q_size q)" d True] q_rep_fresh[OF mb(1,2)] inv mb
    by (auto simp: mod_pos_pos_trivial)
  then show "\<exists>q'. q_grow_n d True q t = Some (ESUCCESS, q') \<and> q_rep q' xs \<and> t \<le> q_size q'
      \<and> q_size q' \<le> 2 * t"
    using m assms(2) inv(1) by (subst q_grow_n.simps) auto
  show "q_grow_n d False q t = Some (ENOMEM, q)"
    using m by (subst q_grow_n.simps) auto
qed

lemma q_addtail_room:
  assumes "q_rep q xs" and "length xs < q_room q"
  shows "\<exists>q'. q_addtail ok q x = Some (ESUCCESS, q') \<and> q_rep q' (xs @ [x]) \<and> q_room q' = q_room q"
proof -
  have "int (length xs) + 1 < q_size q" using assms(2) by (auto simp: q_room_def)
  then show ?thesis
    using q_addtail_n_room[OF assms(1), of 1 ok x] by (auto simp: q_addtail_def q_room_def)
qed

lemma q_addtail_full:
  assumes "q_rep q xs" and "length xs = q_room q" and "q_room q < 2 ^ 27"
  shows "\<exists>q'. q_addtail True q x = Some (ESUCCESS, q') \<and> q_rep q' (xs @ [x]) \<and> q_room q \<le> q_room q'
      \<and> q_room q' \<le> 2 * q_room q + 3"
    and "q_addtail False q x = Some (ENOMEM, q)"
proof -
  have inv: "0 < q_size q" "0 \<le> q_nextwrite q" using assms(1) by (auto simp: q_rep_def q_inv_def)
  have sz: "q_size q \<le> 2 ^ 27" "int (length xs) + 1 = q_size q"
    using assms inv by (auto simp: q_room_def nat_less_iff)
  have full: "c_rem (q_nextwrite q + 1) (q_size q) = q_nextread q"
    using q_rep_full_iff[OF assms(1)] sz by simp
  have w: "c_int (q_size q + 1) = q_size q + 1" using sz inv by (intro c_int_id) auto
  have t: "q_size q \<le> q_size q + 1" "q_size q + 1 \<le> 2 ^ 27 + 1" using sz by auto
  obtain q1 where q1: "q_grow_n 0 True q (q_size q + 1) = Some (ESUCCESS, q1)" "q_rep q1 xs"
      "q_size q + 1 \<le> q_size q1" "q_size q1 \<le> 2 * (q_size q + 1)"
    using q_grow_n_ok(1)[OF assms(1) t, of 0] by auto
  have i1: "0 < q_size q1" "0 \<le> q_nextwrite q1" using q1(2) by (auto simp: q_rep_def q_inv_def)
  obtain q2 where q2: "q_store q1 x ((q_nextwrite q1 + 1) mod q_size q1) = Some (ESUCCESS, q2)"
      "q_rep q2 (xs @ [x])" "q_size q2 = q_size q1"
    using q_rep_store[OF q1(2), of x] q1(3) sz by auto
  show "\<exists>q'. q_addtail True q x = Some (ESUCCESS, q') \<and> q_rep q' (xs @ [x]) \<and> q_room q \<le> q_room q'
      \<and> q_room q' \<le> 2 * q_room q + 3"
    using inv full w q1 q2 i1 unfolding q_addtail_def
    by (subst q_addtail_n.simps) (auto simp: q_room_def)
  show "q_addtail False q x = Some (ENOMEM, q)"
    using inv full w q_grow_n_ok(2)[OF assms(1) t, of 0] unfolding q_addtail_def
    by (subst q_addtail_n.simps) auto
qed

lemma q_rep_length_room: "q_rep q xs \<Longrightarrow> length xs \<le> q_room q"
  by (auto simp: q_rep_def q_room_def)

interpretation runq: fifo q_rep q_room q_empty q_addtail q_remhead q_preallocate "2 ^ 27"
proof (unfold_locales, goal_cases)
  case (1 q xs)
  then show ?case by (rule q_rep_empty)
next
  case (2 q x xs)
  then show ?case using q_rep_remhead[of q x xs] by (auto simp: q_room_def)
next
  case (3 q)
  then show ?case using q_rep_empty[of q "[]"] by (auto simp: q_remhead_def)
next
  case (4 q xs ok x)
  then show ?case by (rule q_addtail_room)
next
  case (5 q xs x)
  show ?case
  proof (cases "length xs < q_room q")
    case True
    then show ?thesis using q_addtail_room[OF 5(1), of True x] by auto
  next
    case False
    then show ?thesis using q_addtail_full(1)[of q xs x] q_rep_length_room 5 by force
  qed
next
  case (6 q xs x)
  show ?case by (rule q_addtail_full(2)[OF 6(1,3,2)])
next
  case (7 q xs n)
  have pos: "0 < q_size q" using 7 by (auto simp: q_rep_def q_inv_def)
  show ?case
  proof (cases "n > q_size q")
    case True
    then obtain q' where "q_grow_n 0 True q n = Some (ESUCCESS, q')" "q_rep q' xs" "n \<le> q_size q'" "q_size q' \<le> 2 * n"
      using 7 q_grow_n_ok(1)[of q xs n 0] by auto
    moreover have "nat (q_size q) - 1 \<le> nat (q_size q') - 1" "nat (q_size q') - 1 \<le> nat (2 * n)"
      using calculation True by linarith+
    ultimately show ?thesis using True pos by (auto simp: q_preallocate_def q_grow_def q_room_def)
  next
    case False
    then show ?thesis using 7 pos by (auto simp: q_preallocate_def q_room_def)
  qed
next
  case (8 q xs n e q')
  have "0 < q_size q" using 8 by (auto simp: q_rep_def q_inv_def)
  then show ?case
    using 8 q_grow_n_ok(2)[of q xs n 0]
    by (auto simp: q_preallocate_def q_grow_def q_room_def split: if_splits)
qed

section \<open>Properties\<close>



text \<open>C37. \<open>q_preallocate\<close> makes later insertions independent of memory: after it has returned
  success for \<open>n\<close>, an element can be added to any queue of fewer than \<open>n - 1\<close> elements without
  allocating.  One cell of the ring always stays free, so the guarantee is one short of \<open>n\<close>.\<close>

theorem q_preallocate_guarantee:
  assumes "q_rep q xs" and "n < 2 ^ 27" and "q_preallocate ok q n = Some (ESUCCESS, q1)"
    and "int (length xs) < n - 1"
  shows "\<exists>q2. q_addtail False q1 x = Some (ESUCCESS, q2) \<and> q_rep q2 (xs @ [x])"
proof -
  have "q_rep q1 xs \<and> n - 1 \<le> int (q_room q1)"
    using runq.prealloc_law[OF assms(1), of n] runq.prealloc_fail[OF assms(1), of n ESUCCESS q1] assms
    by (cases ok) auto
  then show ?thesis using runq.addtail_room[of q1 xs False x] assms(4) by auto
qed

theorem q_preallocate_guarantee_witness:
  "\<exists>q1 q2. q_preallocate True \<lparr>q_size = 2, q_nextwrite = 0, q_nextread = 1, q_data = [None, Some (7 :: nat)]\<rparr> 3
      = Some (ESUCCESS, q1) \<and> q_addtail False q1 8 = Some (ESUCCESS, q2) \<and> q_rep q2 [7, 8]"
proof -
  let ?q = "\<lparr>q_size = 2, q_nextwrite = 0, q_nextread = 1, q_data = [None, Some (7 :: nat)]\<rparr>"
  have r: "q_rep ?q [7]" by (simp add: q_rep_def q_inv_def)
  obtain q1 where "q_preallocate True ?q 3 = Some (ESUCCESS, q1)"
    using runq.prealloc_law[OF r, of 3] by auto
  with q_preallocate_guarantee[OF r, of 3 True q1 8] show ?thesis by auto
qed

end
