(* ===== verification/Kernel_Bitmap.thy ===== *)
theory Kernel_Bitmap
  imports Kernel_Prelude
begin

text \<open>
  The bit array of \<open>src/kern/lib/bitmap.c\<close>, which the file system uses as its map of free
  blocks.  Bits are kept in bytes, so the model keeps them in \<^typ>\<open>u8\<close> words and bit
  numbers in \<^typ>\<open>u32\<close> words.  The abstraction \<open>bm_used\<close> is the set of the numbers whose
  bit is set, and the locale \<open>slot_allocator\<close> is what a client may rely on.
\<close>

unbundle bit_operations_syntax

section \<open>Model\<close>

record kbitmap =
  bm_nbits :: u32
  bm_v :: "u8 list"

text \<open>\<open>DIVROUNDUP\<close> of \<open>src/kern/include/lib.h\<close>, in unsigned arithmetic.\<close>

definition divroundup :: "u32 \<Rightarrow> u32 \<Rightarrow> u32" where
  "divroundup a b = (a + b - 1) div b"

text \<open>The loop that sets the bits \<open>overbits..7\<close> of the last byte.\<close>

definition mark_over :: "nat \<Rightarrow> u8 \<Rightarrow> u8" where
  "mark_over overbits w = fold (\<lambda>j w. w OR push_bit j 1) [overbits..<8] w"

text \<open>The inner result \<open>None\<close> is the null pointer of a failed allocation.\<close>

definition bitmap_create :: "bool \<Rightarrow> bool \<Rightarrow> u32 \<Rightarrow> kbitmap option option" where
  "bitmap_create ok_hdr ok_v nbits =
     (let words = divroundup nbits 8 in
      if \<not> ok_hdr then Some None
      else if \<not> ok_v then Some None
      else
        let v = replicate (unat words) 0; b = \<lparr>bm_nbits = nbits, bm_v = v\<rparr> in
        if nbits div 8 < words then
          (let ix = words - 1; overbits = nbits - ix * 8 in
           do {
             kassert (nbits div 8 = words - 1);
             kassert (overbits > 0 \<and> overbits < 8);
             w \<leftarrow> rd v (uint ix);
             v \<leftarrow> wr v (uint ix) (mark_over (unat overbits) w);
             Some (Some (b\<lparr>bm_v := v\<rparr>)) })
        else Some (Some b))"

definition bitmap_getdata :: "kbitmap \<Rightarrow> u8 list" where
  "bitmap_getdata b = bm_v b"

function alloc_scan :: "kbitmap \<Rightarrow> nat \<Rightarrow> ((errno + u32) \<times> kbitmap) option" where
  "alloc_scan b ix =
     (if ix < unat (divroundup (bm_nbits b) 8) then do {
        w \<leftarrow> rd (bm_v b) (int ix);
        if w \<noteq> 0xff then
          (case first_index (\<lambda>offset. w AND push_bit offset 1 = 0) 8 of
             Some offset \<Rightarrow> do {
               v \<leftarrow> wr (bm_v b) (int ix) (w OR push_bit offset 1);
               let index = of_nat ix * 8 + of_nat offset;
               kassert (index < bm_nbits b);
               Some (Inr index, b\<lparr>bm_v := v\<rparr>) }
           | None \<Rightarrow> None)
        else alloc_scan b (ix + 1) }
      else Some (Inl ENOSPC, b))"
  by pat_completeness auto
termination
  by (relation "measure (\<lambda>(b, ix). unat (divroundup (bm_nbits b) 8) - ix)") auto

declare alloc_scan.simps [simp del]

definition bitmap_alloc :: "kbitmap \<Rightarrow> ((errno + u32) \<times> kbitmap) option" where
  "bitmap_alloc b = alloc_scan b 0"

definition bitmap_translate :: "u32 \<Rightarrow> u32 \<times> u8" where
  "bitmap_translate bitno = (bitno div 8, push_bit (unat (bitno mod 8)) 1)"

definition bitmap_mark :: "kbitmap \<Rightarrow> u32 \<Rightarrow> kbitmap option" where
  "bitmap_mark b index = do {
     kassert (index < bm_nbits b);
     let (ix, mask) = bitmap_translate index;
     w \<leftarrow> rd (bm_v b) (uint ix);
     kassert (w AND mask = 0);
     v \<leftarrow> wr (bm_v b) (uint ix) (w OR mask);
     Some (b\<lparr>bm_v := v\<rparr>) }"

definition bitmap_unmark :: "kbitmap \<Rightarrow> u32 \<Rightarrow> kbitmap option" where
  "bitmap_unmark b index = do {
     kassert (index < bm_nbits b);
     let (ix, mask) = bitmap_translate index;
     w \<leftarrow> rd (bm_v b) (uint ix);
     kassert (w AND mask \<noteq> 0);
     v \<leftarrow> wr (bm_v b) (uint ix) (w AND NOT mask);
     Some (b\<lparr>bm_v := v\<rparr>) }"

text \<open>The C function returns the masked byte, which the callers test for being nonzero.\<close>

definition bitmap_isset :: "kbitmap \<Rightarrow> u32 \<Rightarrow> u8 option" where
  "bitmap_isset b index = do {
     let (ix, mask) = bitmap_translate index;
     w \<leftarrow> rd (bm_v b) (uint ix);
     Some (w AND mask) }"

datatype bitmap_block = Bitmap_Data | Bitmap_Header

definition bitmap_destroy :: "kbitmap \<Rightarrow> bitmap_block list" where
  "bitmap_destroy b = [Bitmap_Data, Bitmap_Header]"

section \<open>Abstraction\<close>

definition bm_bit :: "u8 list \<Rightarrow> nat \<Rightarrow> bool" where
  "bm_bit v i \<longleftrightarrow> bit (v ! (i div 8)) (i mod 8)"

definition bm_used :: "kbitmap \<Rightarrow> nat set" where
  "bm_used b = {i. i < unat (bm_nbits b) \<and> bm_bit (bm_v b) i}"

definition bm_cap :: "kbitmap \<Rightarrow> nat" where
  "bm_cap b = unat (bm_nbits b)"

text \<open>The byte array has the right length and its bits past \<open>nbits\<close> are set.\<close>

definition bm_inv :: "kbitmap \<Rightarrow> bool" where
  "bm_inv b \<longleftrightarrow> unat (bm_nbits b) + 7 < 2 ^ 32
     \<and> length (bm_v b) = (unat (bm_nbits b) + 7) div 8
     \<and> (\<forall>i. unat (bm_nbits b) \<le> i \<and> i < 8 * length (bm_v b) \<longrightarrow> bm_bit (bm_v b) i)"

text \<open>\<open>n\<close> allocations in a row.\<close>

fun alloc_many :: "('s \<Rightarrow> ((errno + u32) \<times> 's) option) \<Rightarrow> nat \<Rightarrow> 's \<Rightarrow> (nat list \<times> 's) option" where
  "alloc_many alloc 0 s = Some ([], s)"
| "alloc_many alloc (Suc n) s =
     (case alloc s of
        Some (Inr i, s') \<Rightarrow> do { (is, s'') \<leftarrow> alloc_many alloc n s'; Some (unat i # is, s'') }
      | _ \<Rightarrow> None)"

section \<open>Interface\<close>

text \<open>A pool of numbered slots, as the block map of a file system needs it.\<close>

locale slot_allocator =
  fixes inv :: "'s \<Rightarrow> bool"
    and cap :: "'s \<Rightarrow> nat"
    and used :: "'s \<Rightarrow> nat set"
    and alloc :: "'s \<Rightarrow> ((errno + u32) \<times> 's) option"
    and release :: "'s \<Rightarrow> u32 \<Rightarrow> 's option"
  assumes used_below: "inv s \<Longrightarrow> used s \<subseteq> {..<cap s}"
    and alloc_first: "inv s \<Longrightarrow> i < cap s \<Longrightarrow> i \<notin> used s \<Longrightarrow> {..<i} \<subseteq> used s \<Longrightarrow>
      \<exists>s'. alloc s = Some (Inr (of_nat i), s') \<and> inv s' \<and> cap s' = cap s \<and> used s' = insert i (used s)"
    and alloc_full: "inv s \<Longrightarrow> used s = {..<cap s} \<Longrightarrow> alloc s = Some (Inl ENOSPC, s)"
    and release_used: "inv s \<Longrightarrow> unat w \<in> used s \<Longrightarrow>
      \<exists>s'. release s w = Some s' \<and> inv s' \<and> cap s' = cap s \<and> used s' = used s - {unat w}"
    and release_unused: "inv s \<Longrightarrow> unat w \<notin> used s \<Longrightarrow> release s w = None"
    and cap_word: "inv s \<Longrightarrow> cap s < 2 ^ 32"
begin

lemma finite_used: "inv s \<Longrightarrow> finite (used s)"
  using used_below finite_subset by blast

lemma least_free:
  assumes "inv s" and "used s \<noteq> {..<cap s}"
  obtains i where "i < cap s" "i \<notin> used s" "{..<i} \<subseteq> used s"
proof -
  obtain j where j: "j < cap s" "j \<notin> used s" using assms used_below by blast
  define P where "P k \<longleftrightarrow> k < cap s \<and> k \<notin> used s" for k
  have P: "P (Least P)" by (rule LeastI[of P j]) (use j P_def in auto)
  have "{..<Least P} \<subseteq> used s"
  proof
    fix k assume k: "k \<in> {..<Least P}"
    then have "\<not> P k" using not_less_Least[of k P] by simp
    with k P show "k \<in> used s" by (simp add: P_def)
  qed
  with P show thesis using that unfolding P_def by blast
qed

text \<open>Allocation never hands out a slot that is in use, and fails only when all are.\<close>

lemma alloc_cases:
  assumes "inv s"
  obtains (full) "used s = {..<cap s}" "alloc s = Some (Inl ENOSPC, s)"
  | (slot) i s' where "alloc s = Some (Inr i, s')" "inv s'" "cap s' = cap s" "unat i < cap s"
      "unat i \<notin> used s" "used s' = insert (unat i) (used s)"
proof (cases "used s = {..<cap s}")
  case True
  then show thesis using full alloc_full assms by blast
next
  case False
  then obtain i where i: "i < cap s" "i \<notin> used s" "{..<i} \<subseteq> used s"
    using least_free assms by blast
  have "unat (of_nat i :: u32) = i"
    using i(1) cap_word[OF assms] by (simp add: unat_of_nat take_bit_nat_eq_self)
  then show thesis using slot alloc_first[OF assms i] i by metis
qed

text \<open>Giving a slot straight back restores the pool.\<close>

lemma alloc_release:
  assumes "inv s" and "alloc s = Some (Inr i, s')"
  shows "\<exists>s''. release s' i = Some s'' \<and> inv s'' \<and> cap s'' = cap s \<and> used s'' = used s"
proof (rule alloc_cases[OF assms(1)])
  fix j t assume t: "alloc s = Some (Inr j, t)" "inv t" "cap t = cap s" "unat j \<notin> used s"
    "used t = insert (unat j) (used s)"
  then have "j = i" "t = s'" using assms(2) by auto
  with t release_used[of t i] show ?thesis by auto
qed (use assms in auto)

text \<open>They succeed when \<open>n\<close> slots are free, with \<open>n\<close> different slots.\<close>

lemma alloc_many_distinct:
  assumes "inv s" and "card (used s) + n \<le> cap s"
  shows "\<exists>is s'. alloc_many alloc n s = Some (is, s') \<and> inv s' \<and> cap s' = cap s \<and> distinct is
    \<and> length is = n \<and> set is \<inter> used s = {} \<and> used s' = used s \<union> set is"
  using assms
proof (induction n arbitrary: s)
  case 0
  then show ?case by simp
next
  case (Suc n)
  show ?case
  proof (rule alloc_cases[OF Suc.prems(1)])
    assume "used s = {..<cap s}"
    then show ?thesis using Suc.prems(2) by simp
  next
    fix i s' assume s': "alloc s = Some (Inr i, s')" "inv s'" "cap s' = cap s" "unat i \<notin> used s"
      "used s' = insert (unat i) (used s)"
    have "card (used s') + n \<le> cap s'"
      using Suc.prems s' finite_used by simp
    from Suc.IH[OF s'(2) this] s' show ?thesis by auto
  qed
qed

end

section \<open>Bits of a byte array\<close>

lemma bit_test [simp]: "(w AND 2 ^ n = 0) \<longleftrightarrow> \<not> bit w n" for w :: u8
  by (simp add: and_exp_eq_0_iff_not_bit)

lemma bit_or_exp: "n < 8 \<Longrightarrow> bit (w OR 2 ^ n) m \<longleftrightarrow> bit w m \<or> m = n" for w :: u8
  by (auto simp: bit_or_iff bit_exp_iff)

lemma bit_and_not_exp: "bit (w AND NOT (2 ^ n)) m \<longleftrightarrow> bit w m \<and> m \<noteq> n" for w :: u8
  by (auto simp: bit_and_iff bit_not_iff bit_exp_iff dest: bit_imp_le_length)

lemma byte_not_full: "w \<noteq> 0xff \<longleftrightarrow> (\<exists>n<8. \<not> bit w n)" for w :: u8
proof -
  have full: "(0xff :: u8) = - 1" by simp
  have "w = - 1 \<longleftrightarrow> (\<forall>n<8. bit w n)" by (auto simp: bit_eq_iff)
  then show ?thesis unfolding full by simp
qed

lemma bit_mark_over: "bit (mark_over n w) m \<longleftrightarrow> bit w m \<or> n \<le> m \<and> m < 8"
proof -
  have "bit (fold (\<lambda>j w. w OR 2 ^ j) js w) m \<longleftrightarrow> bit w m \<or> m \<in> set js"
    if "set js \<subseteq> {..<8}" for js and w :: u8
    using that by (induction js arbitrary: w) (auto simp: bit_or_exp)
  moreover have "set [n..<8] \<subseteq> {..<8}" by auto
  ultimately show ?thesis by (auto simp: mark_over_def)
qed

lemma bm_bit_update:
  assumes "k < length v"
  shows "bm_bit (v[k := w]) i \<longleftrightarrow> (if i div 8 = k then bit w (i mod 8) else bm_bit v i)"
  using assms by (auto simp: bm_bit_def)

lemma byte_pos: "n < 8 \<Longrightarrow> i = 8 * k + n \<longleftrightarrow> i div 8 = k \<and> i mod 8 = n" for i k n :: nat
  by auto

lemma bm_bit_or:
  assumes "k < length v" and "n < 8"
  shows "bm_bit (v[k := v ! k OR 2 ^ n]) i \<longleftrightarrow> bm_bit v i \<or> i = 8 * k + n"
  unfolding bm_bit_update[OF assms(1)] using assms(2) by (auto simp: byte_pos bm_bit_def bit_or_exp)

lemma bm_bit_and_not:
  assumes "k < length v" and "n < 8"
  shows "bm_bit (v[k := v ! k AND NOT (2 ^ n)]) i \<longleftrightarrow> bm_bit v i \<and> i \<noteq> 8 * k + n"
  unfolding bm_bit_update[OF assms(1)] using assms(2) by (auto simp: byte_pos bm_bit_def bit_and_not_exp)

lemma unat_divroundup_8: "unat n + 7 < 2 ^ 32 \<Longrightarrow> unat (divroundup n 8) = (unat n + 7) div 8"
proof -
  assume n: "unat n + 7 < 2 ^ 32"
  have "n + 8 - 1 = n + 7" by simp
  moreover have "unat (n + 7) = unat n + 7"
    using n by (subst unat_add_lem[THEN iffD1]) auto
  moreover have "unat (8 :: u32) = 8" by simp
  ultimately show ?thesis unfolding divroundup_def by (metis unat_div)
qed

section \<open>Correctness\<close>

lemma bm_byte_index: "bm_inv b \<Longrightarrow> i < unat (bm_nbits b) \<Longrightarrow> i div 8 < length (bm_v b)"
  by (auto simp: bm_inv_def)

lemma bm_inv_set:
  assumes "bm_inv b" and "k < length (bm_v b)" and "n < 8" and "8 * k + n < unat (bm_nbits b)"
  shows "bm_inv (b\<lparr>bm_v := (bm_v b)[k := bm_v b ! k OR 2 ^ n]\<rparr>)"
    and "bm_used (b\<lparr>bm_v := (bm_v b)[k := bm_v b ! k OR 2 ^ n]\<rparr>) = insert (8 * k + n) (bm_used b)"
  using assms by (auto simp: bm_inv_def bm_used_def bm_bit_or)

lemma bm_inv_unset:
  assumes "bm_inv b" and "k < length (bm_v b)" and "n < 8" and "8 * k + n < unat (bm_nbits b)"
  shows "bm_inv (b\<lparr>bm_v := (bm_v b)[k := bm_v b ! k AND NOT (2 ^ n)]\<rparr>)"
    and "bm_used (b\<lparr>bm_v := (bm_v b)[k := bm_v b ! k AND NOT (2 ^ n)]\<rparr>) = bm_used b - {8 * k + n}"
  using assms by (auto simp: bm_inv_def bm_used_def bm_bit_and_not)

lemma bm_full_byte:
  assumes "\<And>j. j < 8 * Suc k \<Longrightarrow> bm_bit v j" and "k < length v"
  shows "v ! k = 0xff"
proof (rule ccontr)
  assume "v ! k \<noteq> 0xff"
  then obtain n where "n < 8" "\<not> bit (v ! k) n" using byte_not_full by blast
  with assms(1)[of "8 * k + n"] show False by (simp add: bm_bit_def)
qed

lemma alloc_scan_first:
  assumes "bm_inv b" and "i < unat (bm_nbits b)" and "\<not> bm_bit (bm_v b) i"
    and low: "\<And>j. j < i \<Longrightarrow> bm_bit (bm_v b) j" and "ix \<le> i div 8"
  shows "alloc_scan b ix
    = Some (Inr (of_nat i), b\<lparr>bm_v := (bm_v b)[i div 8 := bm_v b ! (i div 8) OR 2 ^ (i mod 8)]\<rparr>)"
  using assms(5)
proof (induction "i div 8 - ix" arbitrary: ix)
  case 0
  have len: "i div 8 < length (bm_v b)" using assms bm_byte_index by blast
  have max: "i div 8 < unat (divroundup (bm_nbits b) 8)"
    using assms(1) len by (simp add: bm_inv_def unat_divroundup_8)
  have nb: "\<not> bit (bm_v b ! (i div 8)) (i mod 8)" using assms(3) by (simp add: bm_bit_def)
  then have ne: "bm_v b ! (i div 8) \<noteq> 0xff" using byte_not_full[of "bm_v b ! (i div 8)"] by force
  have "bit (bm_v b ! (i div 8)) n" if "n < i mod 8" for n
    proof -
    have "n < 8" "8 * (i div 8) + n < i" using that mult_div_mod_eq[of 8 i] mod_less_divisor[of 8 i] by linarith+
    then show ?thesis using low[of "8 * (i div 8) + n"] by (simp add: bm_bit_def)
  qed
  then have "first_index (\<lambda>n. \<not> bit (bm_v b ! (i div 8)) n) 8 = Some (i mod 8)"
    using nb by (auto simp: first_index_Some_iff)
  moreover have "of_nat (i div 8) * 8 + of_nat (i mod 8) = (of_nat i :: u32)"
    by (metis div_mult_mod_eq of_nat_add of_nat_mult of_nat_numeral)
  moreover have "(of_nat i :: u32) < bm_nbits b"
    using assms(2) by (simp add: word_less_nat_alt unat_of_nat)
  moreover have "ix = i div 8" using 0 by simp
  ultimately show ?case
    using max ne len by (subst alloc_scan.simps) (simp add: Let_def)
next
  case (Suc m)
  have len: "i div 8 < length (bm_v b)" using assms bm_byte_index by blast
  have ix: "ix < i div 8" using Suc.hyps(2) by simp
  have "bm_v b ! ix = 0xff"
    using low ix len by (intro bm_full_byte) auto
  moreover have "ix < unat (divroundup (bm_nbits b) 8)"
    using assms(1) len ix by (simp add: bm_inv_def unat_divroundup_8)
  ultimately show ?case
    using Suc ix len by (subst alloc_scan.simps) simp
qed

lemma alloc_scan_full:
  assumes "bm_inv b" and "\<And>j. j < unat (bm_nbits b) \<Longrightarrow> bm_bit (bm_v b) j"
  shows "alloc_scan b ix = Some (Inl ENOSPC, b)"
proof (induction "length (bm_v b) - ix" arbitrary: ix)
  case 0
  then show ?case using assms(1) by (subst alloc_scan.simps) (simp add: bm_inv_def unat_divroundup_8)
next
  case (Suc m)
  have ix: "ix < length (bm_v b)" using Suc.hyps(2) by simp
  have "bm_bit (bm_v b) j" if "j < 8 * Suc ix" for j
  proof (cases "j < unat (bm_nbits b)")
    case False
    then show ?thesis using assms(1) that ix by (auto simp: bm_inv_def)
  qed (rule assms(2))
  then have "bm_v b ! ix = 0xff" using ix by (intro bm_full_byte) auto
  then show ?case
    using Suc ix assms(1) by (subst alloc_scan.simps) (simp add: bm_inv_def unat_divroundup_8)
qed

lemma bitmap_translate_unat:
  "bitmap_translate i = (i div 8, 2 ^ (unat i mod 8))" "uint (i div 8) = int (unat i div 8)"
proof -
  have "unat (8 :: u32) = 8" by simp
  then have "unat (i mod 8) = unat i mod 8" "unat (i div 8) = unat i div 8"
    by (metis unat_mod, metis unat_div)
  then show "bitmap_translate i = (i div 8, 2 ^ (unat i mod 8))" "uint (i div 8) = int (unat i div 8)"
    by (auto simp: bitmap_translate_def uint_nat)
qed

lemma bitmap_mark_spec:
  assumes "bm_inv b"
  shows "bitmap_mark b i = (if i < bm_nbits b \<and> unat i \<notin> bm_used b
     then Some (b\<lparr>bm_v := (bm_v b)[unat i div 8 := bm_v b ! (unat i div 8) OR 2 ^ (unat i mod 8)]\<rparr>)
     else None)"
  using bm_byte_index[OF assms, of "unat i"]
  by (simp add: bitmap_mark_def bitmap_translate_unat word_less_nat_alt bm_used_def bm_bit_def)

lemma bitmap_unmark_spec:
  assumes "bm_inv b"
  shows "bitmap_unmark b i = (if unat i \<in> bm_used b
     then Some (b\<lparr>bm_v := (bm_v b)[unat i div 8 := bm_v b ! (unat i div 8) AND NOT (2 ^ (unat i mod 8))]\<rparr>)
     else None)"
  using bm_byte_index[OF assms, of "unat i"]
  by (simp add: bitmap_unmark_def bitmap_translate_unat word_less_nat_alt bm_used_def bm_bit_def)

lemma bitmap_isset_spec:
  assumes "bm_inv b" and "i < bm_nbits b"
  shows "\<exists>w. bitmap_isset b i = Some w \<and> (w \<noteq> 0 \<longleftrightarrow> unat i \<in> bm_used b)"
  using bm_byte_index[OF assms(1), of "unat i"] assms(2)
  by (simp add: bitmap_isset_def bitmap_translate_unat word_less_nat_alt bm_used_def bm_bit_def)

lemma bm_cap_update [simp]: "bm_cap (b\<lparr>bm_v := v\<rparr>) = bm_cap b"
  by (simp add: bm_cap_def)

interpretation bmap: slot_allocator bm_inv bm_cap bm_used bitmap_alloc bitmap_unmark
proof (unfold_locales, goal_cases)
  case (1 b)
  then show ?case by (auto simp: bm_used_def bm_cap_def)
next
  case (2 b i)
  let ?b = "b\<lparr>bm_v := (bm_v b)[i div 8 := bm_v b ! (i div 8) OR 2 ^ (i mod 8)]\<rparr>"
  have i: "i < unat (bm_nbits b)" "\<not> bm_bit (bm_v b) i" "\<And>j. j < i \<Longrightarrow> bm_bit (bm_v b) j"
    using 2 by (auto simp: bm_used_def bm_cap_def)
  have "bitmap_alloc b = Some (Inr (of_nat i), ?b)"
    unfolding bitmap_alloc_def by (rule alloc_scan_first) (use 2 i in auto)
  moreover have "bm_inv ?b" "bm_used ?b = insert i (bm_used b)"
    using bm_inv_set[of b "i div 8" "i mod 8"] bm_byte_index 2(1) i(1) by auto
  ultimately show ?case by simp
next
  case (3 b)
  then show ?case unfolding bitmap_alloc_def
    by (intro alloc_scan_full) (auto simp: bm_used_def bm_cap_def)
next
  case (4 b w)
  then have "unat w < unat (bm_nbits b)" by (simp add: bm_used_def)
  then show ?case
    using 4 bm_inv_unset[of b "unat w div 8" "unat w mod 8"] bm_byte_index
    by (simp add: bitmap_unmark_spec)
next
  case (5 b w)
  then show ?case by (simp add: bitmap_unmark_spec)
next
  case (6 b)
  show ?case using unsigned_less[of "bm_nbits b"] by (simp add: bm_cap_def)
qed

lemma bitmap_create_spec:
  assumes "unat n + 7 < 2 ^ 32"
  shows "\<exists>b. bitmap_create True True n = Some (Some b) \<and> bm_inv b \<and> bm_nbits b = n \<and> bm_used b = {}"
proof -
  let ?k = "unat n div 8"
  have d8: "unat (8 :: u32) = 8" by simp
  have words: "unat (divroundup n 8) = (unat n + 7) div 8" by (rule unat_divroundup_8[OF assms])
  have ndiv: "unat (n div 8) = ?k" using d8 by (metis unat_div)
  show ?thesis
  proof (cases "unat n mod 8 = 0")
    case True
    then have "(unat n + 7) div 8 = ?k" "8 * ?k = unat n" by auto
    then show ?thesis
      using words ndiv assms
      by (auto simp: bitmap_create_def Let_def word_less_nat_alt bm_inv_def bm_used_def bm_bit_def)
  next
    case False
    then have k: "(unat n + 7) div 8 = Suc ?k" by presburger
    have ix: "divroundup n 8 - 1 = n div 8"
      using words ndiv k by (metis diff_Suc_1 unat_minus_one unat_eq_zero nat.simps(3) word_unat_eq_iff)
    have over: "n - n div 8 * 8 = n mod 8" by (simp add: minus_div_mult_eq_mod)
    have unover: "unat (n mod 8) = unat n mod 8" using d8 by (metis unat_mod)
    have g1: "n div 8 < divroundup n 8" by (simp add: word_less_nat_alt words ndiv k)
    have g2: "0 < n mod 8" "n mod 8 < 8" using False by (simp_all add: word_less_nat_alt unover)
    have rdk: "rd (replicate (Suc ?k) (0 :: u8)) (int ?k) = Some 0"
      by (subst rd_nat) (simp_all del: replicate_Suc)
    have wrk: "wr (replicate (Suc ?k) (0 :: u8)) (int ?k) x = Some ((replicate (Suc ?k) 0)[?k := x])" for x
      by (rule wr_nat) simp
    let ?v = "(replicate (Suc ?k) 0)[?k := mark_over (unat n mod 8) 0]"
    have cr: "bitmap_create True True n = Some (Some \<lparr>bm_nbits = n, bm_v = ?v\<rparr>)"
      using g1 g2 ix over unover words k rdk wrk
      by (simp add: bitmap_create_def Let_def bitmap_translate_unat(2) del: replicate_Suc)
    have vn: "?v ! j = (if j = ?k then mark_over (unat n mod 8) 0 else 0)" if "j \<le> ?k" for j
      using that by (simp add: nth_list_update less_Suc_eq_le del: replicate_Suc)
    have bits: "bm_bit ?v i \<longleftrightarrow> unat n \<le> i" if "i < 8 * Suc ?k" for i
    proof -
      have j: "i div 8 \<le> ?k" using that by auto
      have "i div 8 = ?k \<Longrightarrow> (unat n mod 8 \<le> i mod 8) = (unat n \<le> i)"
        by (metis add_le_cancel_left mult_div_mod_eq)
      moreover have "i div 8 < ?k \<Longrightarrow> i < unat n" by auto
      ultimately show ?thesis using j by (auto simp: bm_bit_def vn[OF j] bit_mark_over le_less
            simp del: replicate_Suc)
    qed
    have "length ?v = (unat n + 7) div 8" using k by (simp del: replicate_Suc)
    moreover have "unat n < 8 * Suc ?k" by auto
    ultimately show ?thesis using cr assms bits by (auto simp: bm_inv_def bm_used_def simp del: replicate_Suc)
  qed
qed

section \<open>Properties\<close>

text \<open>C35. On a well-formed bitmap \<open>bitmap_alloc\<close> always returns.  It hands out a bit that was
  clear and below \<open>nbits\<close>, sets exactly that bit, and \<open>bitmap_unmark\<close> undoes it; it
  answers \<open>ENOSPC\<close> only when every bit is set, and then changes nothing.\<close>

theorem bitmap_alloc_correct:
  assumes "bm_inv b"
  shows "case bitmap_alloc b of
      Some (Inr i, b') \<Rightarrow> unat i < unat (bm_nbits b) \<and> unat i \<notin> bm_used b
        \<and> bm_inv b' \<and> bm_used b' = insert (unat i) (bm_used b)
        \<and> (\<exists>b''. bitmap_unmark b' i = Some b'' \<and> bm_inv b'' \<and> bm_used b'' = bm_used b)
    | Some (Inl e, b') \<Rightarrow> e = ENOSPC \<and> b' = b \<and> bm_used b = {..<unat (bm_nbits b)}
    | None \<Rightarrow> False"
  using assms
proof (cases rule: bmap.alloc_cases)
  case full
  then show ?thesis by (simp add: bm_cap_def)
next
  case (slot i b')
  then show ?thesis using bmap.alloc_release[OF assms slot(1)] by (auto simp: bm_cap_def)
qed

theorem bitmap_alloc_correct_witness:
  "\<exists>b. bitmap_alloc \<lparr>bm_nbits = 12, bm_v = [0xff, 0xf1]\<rparr> = Some (Inr 9, b) \<and> 9 \<in> bm_used b"
proof -
  let ?b = "\<lparr>bm_nbits = 12, bm_v = [0xff, 0xf1]\<rparr>"
  have "bm_bit (bm_v ?b) i" if i: "12 \<le> i" "i < 16" for i
  proof -
    have "i = 12 \<or> i = 13 \<or> i = 14 \<or> i = 15" using i by auto
    then show ?thesis by (elim disjE) (simp_all add: bm_bit_def bit_numeral_rec)
  qed
  then have "bm_inv ?b" by (simp add: bm_inv_def)
  moreover have "bitmap_alloc ?b = Some (Inr 9, \<lparr>bm_nbits = 12, bm_v = [0xff, 0xf3]\<rparr>)"
    by code_simp
  ultimately show ?thesis using bitmap_alloc_correct[of ?b] by auto
qed

text \<open>C39. A fresh bitmap of \<open>n\<close> bits serves exactly \<open>n\<close> allocations: all the numbers below \<open>n\<close>,
  each once, and the next allocation fails with \<open>ENOSPC\<close>.\<close>

theorem bitmap_create_serves_all:
  assumes "unat n + 7 < 2 ^ 32"
  shows "\<exists>b is b'. bitmap_create True True n = Some (Some b)
    \<and> alloc_many bitmap_alloc (unat n) b = Some (is, b') \<and> distinct is \<and> set is = {..<unat n}
    \<and> bitmap_alloc b' = Some (Inl ENOSPC, b')"
proof -
  obtain b where b: "bitmap_create True True n = Some (Some b)" "bm_inv b" "bm_nbits b = n" "bm_used b = {}"
    using bitmap_create_spec[OF assms] by blast
  obtain "is" b' where a: "alloc_many bitmap_alloc (unat n) b = Some (is, b')" "bm_inv b'" "bm_cap b' = bm_cap b"
      "distinct is" "length is = unat n" "bm_used b' = set is"
    using bmap.alloc_many_distinct[OF b(2), of "unat n"] b by (auto simp: bm_cap_def)
  have "set is = {..<unat n}"
    using bmap.used_below[OF a(2)] a b distinct_card[OF a(4)]
    by (intro card_subset_eq) (auto simp: bm_cap_def)
  then show ?thesis using a b bmap.alloc_full[OF a(2)] by (auto simp: bm_cap_def)
qed

theorem bitmap_create_serves_all_witness:
  "\<exists>b is b'. bitmap_create True True 3 = Some (Some b)
    \<and> alloc_many bitmap_alloc 3 b = Some (is, b') \<and> set is = {..<3}"
  using bitmap_create_serves_all[of 3] by auto

end
