(* ===== verification/Vm_Coremap.thy ===== *)
theory Vm_Coremap
  imports Kernel_Prelude
begin

text \<open>
  The state of the virtual memory system and the allocator of physical frames:
  \<open>src/kern/vm/coremap.c\<close>, \<open>src/kern/vm/uw-vmstats.c\<close> and
  \<open>src/kern/arch/mips/mips/ram.c\<close>.

  The state is one record.  The arrays \<open>coremap\<close> and \<open>page_table\<close> of the C code have
  \<open>total_pages\<close> elements; here they are lists of that length.  The contents of physical
  memory are given page by page, by the address of the frame.  \<open>clock\<close> is the sequence of
  readings of the hardware clock and \<open>ticks\<close> the number of readings taken.  \<open>held\<close> is the
  set of the locks that the running thread holds: acquiring one of them again would put the
  thread to sleep for good, so that is stuck.
\<close>

unbundle bit_operations_syntax

section \<open>State\<close>

definition PAGE_SIZE :: u32 where
  "PAGE_SIZE = 4096"

definition PAGE_FRAME :: u32 where
  "PAGE_FRAME = 0xfffff000"

definition MIPS_KSEG0 :: u32 where
  "MIPS_KSEG0 = 0x80000000"

definition PADDR_TO_KVADDR :: "paddr \<Rightarrow> vaddr" where
  "PADDR_TO_KVADDR paddr = paddr + MIPS_KSEG0"

record coremap_entry =
  ce_in_use :: int
  ce_is_kernel :: int
  ce_secs :: int
  ce_nsecs :: u32

record page_table_entry =
  pe_vaddr :: vaddr
  pe_paddr :: paddr
  pe_pid :: int
  pe_npages :: int
  pe_writeable :: int
  pe_dirty :: int

record swap_entry =
  se_va :: vaddr
  se_pid :: int
  se_offset :: int

datatype vm_lock = Coremap_Mutex | Pt_Mutex | Swap_Mutex | Stats_Lock

type_synonym page = "u8 list"

record 'f vm_state =
  firstpaddr :: u32
  lastpaddr :: u32
  coremap :: "coremap_entry list"
  coremap_init :: bool
  page_table :: "page_table_entry list"
  swap_array :: "swap_entry list"
  swap_file :: 'f
  k_in_data :: page
  tlb_entries :: "(u32 \<times> u32) list"
  m_next_victim :: u32
  pmem :: "paddr \<Rightarrow> page"
  stats_counts :: "u32 list"
  spl_high :: bool
  held :: "vm_lock set"
  clock :: "nat \<Rightarrow> int \<times> u32"
  ticks :: nat

section \<open>Locks, clock, statistics\<close>

text \<open>\<open>lock_acquire\<close> and \<open>lock_release\<close> as one thread sees them.\<close>

definition vlock :: "vm_lock \<Rightarrow> 'f vm_state \<Rightarrow> 'f vm_state option" where
  "vlock l s = (if l \<in> held s then None else Some (s\<lparr>held := insert l (held s)\<rparr>))"

definition vunlock :: "vm_lock \<Rightarrow> 'f vm_state \<Rightarrow> 'f vm_state option" where
  "vunlock l s = (if l \<in> held s then Some (s\<lparr>held := held s - {l}\<rparr>) else None)"

definition gettime :: "'f vm_state \<Rightarrow> (int \<times> u32) \<times> 'f vm_state" where
  "gettime s = (clock s (ticks s), s\<lparr>ticks := Suc (ticks s)\<rparr>)"

definition vmstats_inc_nolock :: "nat \<Rightarrow> 'f vm_state \<Rightarrow> 'f vm_state option" where
  "vmstats_inc_nolock index s = do {
     kassert (index < 10);
     c \<leftarrow> rd (stats_counts s) (int index);
     v \<leftarrow> wr (stats_counts s) (int index) (c + 1);
     Some (s\<lparr>stats_counts := v\<rparr>) }"

definition vmstats_inc :: "nat \<Rightarrow> 'f vm_state \<Rightarrow> 'f vm_state option" where
  "vmstats_inc index s =
     (if spl_high s then vmstats_inc_nolock index s
      else do {
        s \<leftarrow> vlock Stats_Lock s;
        s \<leftarrow> vmstats_inc_nolock index s;
        vunlock Stats_Lock s })"

definition vmstats_init_nolock :: "'f vm_state \<Rightarrow> 'f vm_state" where
  "vmstats_init_nolock s = s\<lparr>stats_counts := replicate 10 0\<rparr>"

text \<open>The three consistency warnings that \<open>_vmstats_print\<close> may print.\<close>

definition vmstats_warnings :: "u32 list \<Rightarrow> bool \<times> bool \<times> bool" where
  "vmstats_warnings c =
     (let tlb_faults = c ! 0;
          free_plus_replace = c ! 1 + c ! 2;
          disk_plus_zeroed_plus_reload = c ! 6 + c ! 5 + c ! 4;
          elf_plus_swap_reads = c ! 7 + c ! 8;
          disk_reads = c ! 6
      in (tlb_faults \<noteq> free_plus_replace, tlb_faults \<noteq> disk_plus_zeroed_plus_reload,
          disk_reads \<noteq> elf_plus_swap_reads))"

section \<open>Memory before the VM system runs\<close>

definition ram_bootstrap :: "u32 \<Rightarrow> u32 \<Rightarrow> 'f vm_state \<Rightarrow> 'f vm_state" where
  "ram_bootstrap mips_ramsize firstfree s =
     (let ramsize = (if mips_ramsize > 508 * 1024 * 1024 then 508 * 1024 * 1024 else mips_ramsize)
      in s\<lparr>lastpaddr := ramsize, firstpaddr := firstfree - MIPS_KSEG0\<rparr>)"

definition ram_stealmem :: "u32 \<Rightarrow> 'f vm_state \<Rightarrow> paddr \<times> 'f vm_state" where
  "ram_stealmem npages s =
     (let sz = npages * PAGE_SIZE in
      if firstpaddr s + sz > lastpaddr s then (0, s)
      else (firstpaddr s, s\<lparr>firstpaddr := firstpaddr s + sz\<rparr>))"

definition ram_getsize :: "'f vm_state \<Rightarrow> (u32 \<times> u32) \<times> 'f vm_state" where
  "ram_getsize s = ((firstpaddr s, lastpaddr s), s\<lparr>firstpaddr := 0, lastpaddr := 0\<rparr>)"

definition is_coremap_initialized :: "int \<Rightarrow> 'f vm_state \<Rightarrow> vaddr \<times> 'f vm_state" where
  "is_coremap_initialized n s =
     (if \<not> coremap_init s
      then (let (p, s) = ram_stealmem (word_of_int n) s in (PADDR_TO_KVADDR p, s))
      else (0, s))"

section \<open>Frames\<close>

definition set_coremap_entry_time :: "nat \<Rightarrow> 'f vm_state \<Rightarrow> 'f vm_state" where
  "set_coremap_entry_time i s =
     (let ((secs, nsecs), s) = gettime s
      in s\<lparr>coremap := (coremap s)[i := (coremap s ! i)\<lparr>ce_secs := secs, ce_nsecs := nsecs\<rparr>]\<rparr>)"

text \<open>Setting the two flags of an entry, as every allocation and release does.\<close>

definition set_coremap_flags :: "nat \<Rightarrow> int \<Rightarrow> int \<Rightarrow> 'f vm_state \<Rightarrow> 'f vm_state" where
  "set_coremap_flags i in_use is_kernel s =
     s\<lparr>coremap := (coremap s)[i := (coremap s ! i)\<lparr>ce_in_use := in_use, ce_is_kernel := is_kernel\<rparr>]\<rparr>"

text \<open>
  The loop of \<open>get_fifo_page\<close>; \<open>None\<close> in the last argument is the uninitialised
  \<open>page_index\<close>.
\<close>

fun fifo_scan :: "coremap_entry list \<Rightarrow> nat \<Rightarrow> int \<Rightarrow> u32 \<Rightarrow> nat option \<Rightarrow> nat option" where
  "fifo_scan [] i secs nsecs page_index = page_index"
| "fifo_scan (e # es) i secs nsecs page_index =
     (if ce_in_use e = 1 \<and> ce_is_kernel e = 0
         \<and> (secs > ce_secs e \<or> secs = ce_secs e \<and> nsecs \<ge> ce_nsecs e)
      then fifo_scan es (i + 1) (ce_secs e) (ce_nsecs e) (Some i)
      else fifo_scan es (i + 1) secs nsecs page_index)"

definition get_fifo_page :: "'f vm_state \<Rightarrow> (nat \<times> 'f vm_state) option" where
  "get_fifo_page s = do {
     let ((secs, nsecs), s) = gettime s;
     page_index \<leftarrow> fifo_scan (coremap s) 0 secs nsecs None;
     Some (page_index, set_coremap_entry_time page_index s) }"

text \<open>The result \<open>None\<close> of the inner option is the \<open>-1\<close> of the C code.\<close>

definition get_free_page :: "'f vm_state \<Rightarrow> (nat option \<times> 'f vm_state) option" where
  "get_free_page s = do {
     s \<leftarrow> vlock Coremap_Mutex s;
     case first_index (\<lambda>i. ce_in_use (coremap s ! i) = 0) (length (coremap s)) of
       Some i \<Rightarrow> do {
         let s = set_coremap_flags i 1 0 s;
         let s = set_coremap_entry_time i s;
         s \<leftarrow> vunlock Coremap_Mutex s;
         Some (Some i, s) }
     | None \<Rightarrow> do {
         s \<leftarrow> vunlock Coremap_Mutex s;
         Some (None, s) } }"

text \<open>The search of \<open>get_free_kpages\<close> for \<open>n\<close> adjacent free frames.\<close>

fun kpages_scan :: "int \<Rightarrow> coremap_entry list \<Rightarrow> nat \<Rightarrow> int \<Rightarrow> nat option \<Rightarrow> int \<times> nat option" where
  "kpages_scan n [] i count page_index = (count, page_index)"
| "kpages_scan n (e # es) i count page_index =
     (if ce_in_use e = 0 then
        (let page_index = (if count = 0 then Some i else page_index); count = count + 1 in
         if count = n then (count, page_index)
         else kpages_scan n es (i + 1) count page_index)
      else kpages_scan n es (i + 1) 0 page_index)"

fun claim_kpages :: "nat \<Rightarrow> nat \<Rightarrow> 'f vm_state \<Rightarrow> 'f vm_state" where
  "claim_kpages page_index 0 s = s"
| "claim_kpages page_index (Suc n) s =
     claim_kpages (page_index + 1) n
       (set_coremap_entry_time page_index (set_coremap_flags page_index 1 1 s))"

definition get_free_kpages :: "int \<Rightarrow> 'f vm_state \<Rightarrow> (nat option \<times> 'f vm_state) option" where
  "get_free_kpages n s = do {
     s \<leftarrow> vlock Coremap_Mutex s;
     let (count, page_index) = kpages_scan n (coremap s) 0 0 None;
     if count < n then do {
       s \<leftarrow> vunlock Coremap_Mutex s;
       Some (None, s) }
     else do {
       i \<leftarrow> page_index;
       s \<leftarrow> vunlock Coremap_Mutex (claim_kpages i (nat n) s);
       Some (Some i, s) } }"

definition free_page :: "nat \<Rightarrow> 'f vm_state \<Rightarrow> 'f vm_state option" where
  "free_page page s = do {
     kassert (page < length (coremap s));
     Some (set_coremap_flags page 0 0 s) }"

definition coremap_is_kernel :: "nat \<Rightarrow> 'f vm_state \<Rightarrow> int option" where
  "coremap_is_kernel index s = map_option ce_is_kernel (rd (coremap s) (int index))"

definition coremap_entry_count :: "'f vm_state \<Rightarrow> nat" where
  "coremap_entry_count s = length (filter (\<lambda>e. ce_in_use e = 1) (coremap s))"

section \<open>Lemmas\<close>

named_theorems vm_simps \<open>effects of the small steps on the VM state\<close>

lemma vlock_iff: "vlock l s = Some s' \<longleftrightarrow> l \<notin> held s \<and> s' = s\<lparr>held := insert l (held s)\<rparr>"
  by (auto simp: vlock_def)

lemma vunlock_iff: "vunlock l s = Some s' \<longleftrightarrow> l \<in> held s \<and> s' = s\<lparr>held := held s - {l}\<rparr>"
  by (auto simp: vunlock_def)

lemma vlock_free [vm_simps]: "l \<notin> held s \<Longrightarrow> vlock l s = Some (s\<lparr>held := insert l (held s)\<rparr>)"
  by (simp add: vlock_def)

lemma vunlock_held [vm_simps]: "l \<in> held s \<Longrightarrow> vunlock l s = Some (s\<lparr>held := held s - {l}\<rparr>)"
  by (simp add: vunlock_def)

lemma set_coremap_entry_time_eq:
  "set_coremap_entry_time i s = s\<lparr>ticks := Suc (ticks s),
     coremap := (coremap s)[i := (coremap s ! i)
        \<lparr>ce_secs := fst (clock s (ticks s)), ce_nsecs := snd (clock s (ticks s))\<rparr>]\<rparr>"
  by (simp add: set_coremap_entry_time_def gettime_def split: prod.splits)

text \<open>A run of \<open>n\<close> free frames from frame \<open>k\<close> on.\<close>

definition free_run :: "coremap_entry list \<Rightarrow> nat \<Rightarrow> nat \<Rightarrow> bool" where
  "free_run cm k n \<longleftrightarrow> k + n \<le> length cm \<and> (\<forall>j. k \<le> j \<and> j < k + n \<longrightarrow> ce_in_use (cm ! j) = 0)"

lemma kpages_scan_correct:
  assumes "cm = pre @ es" and "i = length pre" and "c < n" and "c \<le> i"
    and "\<And>j. i - c \<le> j \<Longrightarrow> j < i \<Longrightarrow> ce_in_use (cm ! j) = 0"
    and "0 < c \<Longrightarrow> p = Some (i - c)"
    and "\<And>k. k < i - c \<Longrightarrow> \<not> free_run cm k n"
  shows "case kpages_scan (int n) es i (int c) p of (count, r) \<Rightarrow>
      count < int n \<and> (\<forall>k. \<not> free_run cm k n)
    \<or> count = int n \<and> (\<exists>k. r = Some k \<and> free_run cm k n \<and> (\<forall>k'<k. \<not> free_run cm k' n))"
  using assms
proof (induction es arbitrary: pre i c p)
  case Nil
  then have "\<not> free_run cm k n" for k
    by (cases "k < i - c") (auto simp: free_run_def)
  with Nil show ?case by simp
next
  case (Cons e es)
  have e: "cm ! i = e" using Cons.prems(1,2) by simp
  show ?case
  proof (cases "ce_in_use e = 0")
    case False
    have "\<not> free_run cm k n" if "k < Suc i" for k
    proof (cases "k < i - c")
      case True
      then show ?thesis by (rule Cons.prems(7))
    next
      case F: False
      then have "k \<le> i" "i < k + n" using that Cons.prems(3) by auto
      then show ?thesis using e False by (auto simp: free_run_def)
    qed
    then show ?thesis
      using False Cons.IH[of "pre @ [e]" "Suc i" 0 p] Cons.prems(1-3) by simp
  next
    case free: True
    let ?p = "if c = 0 then Some i else p"
    have p: "?p = Some (i - c)" using Cons.prems(6) by auto
    have run: "ce_in_use (cm ! j) = 0" if "i - c \<le> j" "j < Suc i" for j
      using Cons.prems(5)[of j] that e free by (cases "j = i") auto
    show ?thesis
    proof (cases "Suc c = n")
      case True
      have "Suc i \<le> length cm" using Cons.prems(1,2) by simp
      then have "free_run cm (i - c) n"
        using run True Cons.prems(4) by (auto simp: free_run_def)
      then show ?thesis using free True p Cons.prems(7) by (auto simp: Let_def)
    next
      case False
      then have "int c + 1 \<noteq> int n" by linarith
      then have "kpages_scan (int n) (e # es) i (int c) p = kpages_scan (int n) es (Suc i) (int (Suc c)) ?p"
        using free by (simp add: Let_def add.commute)
      then show ?thesis
        using Cons.IH[of "pre @ [e]" "Suc i" "Suc c" ?p] Cons.prems(1-4,7) False run p by simp
    qed
  qed
qed

lemma kpages_scan_top:
  assumes "0 < n"
  shows "case kpages_scan (int n) cm 0 0 None of (count, r) \<Rightarrow>
      count < int n \<and> (\<forall>k. \<not> free_run cm k n)
    \<or> count = int n \<and> (\<exists>k. r = Some k \<and> free_run cm k n \<and> (\<forall>k'<k. \<not> free_run cm k' n))"
  using kpages_scan_correct[of cm "[]" cm 0 0 n None] assms by simp

lemma claim_kpages_eq:
  assumes "k + n \<le> length (coremap s)"
  shows "\<exists>cm t. claim_kpages k n s = s\<lparr>coremap := cm, ticks := t\<rparr> \<and> length cm = length (coremap s)
    \<and> (\<forall>j. k \<le> j \<and> j < k + n \<longrightarrow> ce_in_use (cm ! j) = 1 \<and> ce_is_kernel (cm ! j) = 1)
    \<and> (\<forall>j. \<not> (k \<le> j \<and> j < k + n) \<longrightarrow> cm ! j = coremap s ! j)"
  using assms
proof (induction n arbitrary: k s)
  case 0
  show ?case by (intro exI[of _ "coremap s"] exI[of _ "ticks s"]) simp
next
  case (Suc n)
  let ?s = "set_coremap_entry_time k (set_coremap_flags k 1 1 s)"
  have len: "length (coremap ?s) = length (coremap s)"
    by (simp add: set_coremap_entry_time_eq set_coremap_flags_def)
  obtain cm t where r: "claim_kpages (Suc k) n ?s = ?s\<lparr>coremap := cm, ticks := t\<rparr>"
      "length cm = length (coremap s)"
      "\<forall>j. Suc k \<le> j \<and> j < Suc k + n \<longrightarrow> ce_in_use (cm ! j) = 1 \<and> ce_is_kernel (cm ! j) = 1"
      "\<forall>j. \<not> (Suc k \<le> j \<and> j < Suc k + n) \<longrightarrow> cm ! j = coremap ?s ! j"
    using Suc.IH[of "Suc k" ?s] Suc.prems len by auto
  have upd: "?s\<lparr>coremap := cm, ticks := t\<rparr> = s\<lparr>coremap := cm, ticks := t\<rparr>"
    by (simp add: set_coremap_entry_time_eq set_coremap_flags_def)
  have at: "ce_in_use (cm ! k) = 1 \<and> ce_is_kernel (cm ! k) = 1"
    using r(4)[rule_format, of k] Suc.prems
    by (simp add: set_coremap_entry_time_eq set_coremap_flags_def)
  have others: "cm ! j = coremap s ! j" if "\<not> (k \<le> j \<and> j < k + Suc n)" for j
  proof -
    have "k \<noteq> j" "\<not> (Suc k \<le> j \<and> j < Suc k + n)" using that by auto
    then show ?thesis
      using r(4)[rule_format, of j] by (simp add: set_coremap_entry_time_eq set_coremap_flags_def)
  qed
  have inside: "ce_in_use (cm ! j) = 1 \<and> ce_is_kernel (cm ! j) = 1" if "k \<le> j \<and> j < k + Suc n" for j
    using r(3)[rule_format, of j] at that by (cases "j = k") auto
  show ?case
    using r(1,2) upd inside others by (intro exI[of _ cm] exI[of _ t]) simp
qed

lemma get_free_kpages_cases:
  assumes "0 < n" and "Coremap_Mutex \<notin> held s"
  obtains (run) k cm t where "get_free_kpages (int n) s = Some (Some k, s\<lparr>coremap := cm, ticks := t\<rparr>)"
      "free_run (coremap s) k n" "\<forall>k'<k. \<not> free_run (coremap s) k' n" "length cm = length (coremap s)"
      "\<forall>j. k \<le> j \<and> j < k + n \<longrightarrow> ce_in_use (cm ! j) = 1 \<and> ce_is_kernel (cm ! j) = 1"
      "\<forall>j. \<not> (k \<le> j \<and> j < k + n) \<longrightarrow> cm ! j = coremap s ! j"
  | (none) "get_free_kpages (int n) s = Some (None, s)" "\<forall>k. \<not> free_run (coremap s) k n"
proof -
  let ?s = "s\<lparr>held := insert Coremap_Mutex (held s)\<rparr>"
  obtain count r where sc: "kpages_scan (int n) (coremap s) 0 0 None = (count, r)" by fastforce
  consider "count < int n" "\<forall>k. \<not> free_run (coremap s) k n"
    | k where "count = int n" "r = Some k" "free_run (coremap s) k n"
        "\<forall>k'<k. \<not> free_run (coremap s) k' n"
    using kpages_scan_top[OF assms(1), of "coremap s"] sc by auto
  then show thesis
  proof cases
    case 1
    then have "get_free_kpages (int n) s = Some (None, s)"
      using assms sc by (simp add: get_free_kpages_def vm_simps)
    then show thesis using 1 none by blast
  next
    case 2
    then have "k + n \<le> length (coremap ?s)" by (simp add: free_run_def)
    from claim_kpages_eq[OF this] obtain cm t where
      c: "claim_kpages k n ?s = ?s\<lparr>coremap := cm, ticks := t\<rparr>" "length cm = length (coremap s)"
      "\<forall>j. k \<le> j \<and> j < k + n \<longrightarrow> ce_in_use (cm ! j) = 1 \<and> ce_is_kernel (cm ! j) = 1"
      "\<forall>j. \<not> (k \<le> j \<and> j < k + n) \<longrightarrow> cm ! j = coremap s ! j" by auto
    then have "get_free_kpages (int n) s = Some (Some k, s\<lparr>coremap := cm, ticks := t\<rparr>)"
      using assms sc 2 by (simp add: get_free_kpages_def vm_simps)
    then show thesis using c 2 run by blast
  qed
qed

lemma get_free_page_cases:
  assumes "Coremap_Mutex \<notin> held s"
  obtains (frame) i where "i < length (coremap s)" "ce_in_use (coremap s ! i) = 0"
      "\<forall>j<i. ce_in_use (coremap s ! j) \<noteq> 0"
      "get_free_page s = Some (Some i, s\<lparr>ticks := Suc (ticks s), coremap := (coremap s)[i :=
         (coremap s ! i)\<lparr>ce_in_use := 1, ce_is_kernel := 0, ce_secs := fst (clock s (ticks s)),
          ce_nsecs := snd (clock s (ticks s))\<rparr>]\<rparr>)"
  | (full) "\<forall>j<length (coremap s). ce_in_use (coremap s ! j) \<noteq> 0" "get_free_page s = Some (None, s)"
proof (cases "first_index (\<lambda>i. ce_in_use (coremap s ! i) = 0) (length (coremap s))")
  case None
  then have "get_free_page s = Some (None, s)" using assms by (simp add: get_free_page_def vm_simps)
  with None show thesis using full by (simp add: first_index_None_iff)
next
  case (Some i)
  then have i: "i < length (coremap s)" "ce_in_use (coremap s ! i) = 0"
      "\<forall>j<i. ce_in_use (coremap s ! j) \<noteq> 0"
    by (auto simp: first_index_Some_iff)
  then show thesis
    using assms Some frame
    by (simp add: get_free_page_def vm_simps set_coremap_entry_time_eq set_coremap_flags_def)
qed

section \<open>Replacement order\<close>

definition ce_user :: "coremap_entry \<Rightarrow> bool" where
  "ce_user e \<longleftrightarrow> ce_in_use e = 1 \<and> ce_is_kernel e = 0"

definition ce_time :: "coremap_entry \<Rightarrow> int \<times> u32" where
  "ce_time e = (ce_secs e, ce_nsecs e)"

definition time_le :: "int \<times> u32 \<Rightarrow> int \<times> u32 \<Rightarrow> bool" where
  "time_le a b \<longleftrightarrow> fst a < fst b \<or> fst a = fst b \<and> snd a \<le> snd b"

lemma time_le_refl [simp]: "time_le a a"
  by (simp add: time_le_def)

lemma time_le_trans: "time_le a b \<Longrightarrow> time_le b c \<Longrightarrow> time_le a c"
  by (auto simp: time_le_def)

lemma time_le_linear: "\<not> time_le a b \<Longrightarrow> time_le b a"
  by (auto simp: time_le_def)

lemma fifo_scan_step:
  "fifo_scan (e # es) i secs nsecs p =
     (if ce_user e \<and> time_le (ce_time e) (secs, nsecs)
      then fifo_scan es (Suc i) (fst (ce_time e)) (snd (ce_time e)) (Some i)
      else fifo_scan es (Suc i) secs nsecs p)"
  by (auto simp: ce_user_def time_le_def ce_time_def)

lemma fifo_scan_oldest:
  "(fifo_scan es i (fst t) (snd t) p = p \<and> (\<forall>e\<in>set es. ce_user e \<longrightarrow> \<not> time_le (ce_time e) t))
   \<or> (\<exists>k<length es. fifo_scan es i (fst t) (snd t) p = Some (i + k) \<and> ce_user (es ! k)
        \<and> time_le (ce_time (es ! k)) t
        \<and> (\<forall>e\<in>set es. ce_user e \<longrightarrow> time_le (ce_time (es ! k)) (ce_time e)))"
proof (induction es arbitrary: i t p)
  case Nil
  then show ?case by simp
next
  case (Cons e es)
  show ?case
  proof (cases "ce_user e \<and> time_le (ce_time e) t")
    case True
    then have step: "fifo_scan (e # es) i (fst t) (snd t) p
        = fifo_scan es (Suc i) (fst (ce_time e)) (snd (ce_time e)) (Some i)"
      by (simp add: fifo_scan_step del: fifo_scan.simps)
    from Cons.IH[of "Suc i" "ce_time e" "Some i"] show ?thesis
    proof (elim disjE conjE exE)
      fix k assume k: "k < length es" "ce_user (es ! k)" "time_le (ce_time (es ! k)) (ce_time e)"
        "fifo_scan es (Suc i) (fst (ce_time e)) (snd (ce_time e)) (Some i) = Some (Suc i + k)"
        "\<forall>e\<in>set es. ce_user e \<longrightarrow> time_le (ce_time (es ! k)) (ce_time e)"
      then show ?thesis
        using True step time_le_trans by (intro disjI2 exI[of _ "Suc k"]) auto
    qed (use True step time_le_linear in \<open>auto intro!: disjI2 exI[of _ 0]\<close>)
  next
    case False
    then have step: "fifo_scan (e # es) i (fst t) (snd t) p = fifo_scan es (Suc i) (fst t) (snd t) p"
      by (auto simp: fifo_scan_step simp del: fifo_scan.simps)
    from Cons.IH[of "Suc i" t p] show ?thesis
    proof (elim disjE conjE exE)
      fix k assume k: "k < length es" "ce_user (es ! k)" "time_le (ce_time (es ! k)) t"
        "fifo_scan es (Suc i) (fst t) (snd t) p = Some (Suc i + k)"
        "\<forall>e\<in>set es. ce_user e \<longrightarrow> time_le (ce_time (es ! k)) (ce_time e)"
      have "ce_user e \<Longrightarrow> time_le (ce_time (es ! k)) (ce_time e)"
        using k(3) False time_le_trans[OF k(3) time_le_linear] by blast
      with k show ?thesis
        using step by (intro disjI2 exI[of _ "Suc k"]) auto
    qed (use False step in auto)
  qed
qed

lemma get_fifo_page_oldest:
  assumes "\<exists>e\<in>set (coremap s). ce_user e"
    and past: "\<And>e. e \<in> set (coremap s) \<Longrightarrow> ce_user e \<Longrightarrow> time_le (ce_time e) (clock s (ticks s))"
  obtains i where "i < length (coremap s)" "ce_user (coremap s ! i)"
    "\<And>e. e \<in> set (coremap s) \<Longrightarrow> ce_user e \<Longrightarrow> time_le (ce_time (coremap s ! i)) (ce_time e)"
    "get_fifo_page s = Some (i, s\<lparr>ticks := Suc (Suc (ticks s)), coremap := (coremap s)[i :=
       (coremap s ! i)\<lparr>ce_secs := fst (clock s (Suc (ticks s))), ce_nsecs := snd (clock s (Suc (ticks s)))\<rparr>]\<rparr>)"
proof -
  from fifo_scan_oldest[of "coremap s" 0 "clock s (ticks s)" None] assms
  obtain i where i: "i < length (coremap s)" "ce_user (coremap s ! i)"
    "fifo_scan (coremap s) 0 (fst (clock s (ticks s))) (snd (clock s (ticks s))) None = Some i"
    "\<And>e. e \<in> set (coremap s) \<Longrightarrow> ce_user e \<Longrightarrow> time_le (ce_time (coremap s ! i)) (ce_time e)"
    by auto
  then show thesis
    by (intro that[of i])
      (auto simp: get_fifo_page_def gettime_def set_coremap_entry_time_eq split: prod.splits)
qed

end
