(* ===== verification/Kernel_Uio.thy ===== *)
theory Kernel_Uio
  imports Vm_Coremap
begin

text \<open>
  Moving data between the kernel and user memory: \<open>src/kern/lib/copyinout.c\<close> and
  \<open>src/kern/userprog/uio.c\<close>.

  User memory is what the running thread can reach below \<open>USERTOP\<close>: \<open>um_byte\<close> is
  \<open>None\<close> where an access faults and the fault cannot be resolved, which is where
  \<open>pcb_badfaultfunc\<close> makes the copy fail.  A store to a page that is mapped read-only
  (\<open>um_ro\<close>) ends the process inside \<open>vm_fault\<close>; such a call does not return, and is
  \<open>None\<close> here.

  The region that a \<open>uio\<close> describes is part of its value: the contents of a kernel object
  with a position in it, or user memory with an address.
\<close>

section \<open>Model\<close>

subsection \<open>User memory\<close>

definition USERTOP :: vaddr where
  "USERTOP = MIPS_KSEG0"

record umem =
  um_space :: "nat option"
  um_byte :: "vaddr \<rightharpoonup> u8"
  um_ro :: "vaddr \<Rightarrow> bool"

text \<open>The check of a user region, with the length that lies below the kernel.\<close>

definition copycheck :: "vaddr \<Rightarrow> u32 \<Rightarrow> errno \<times> u32" where
  "copycheck userptr len =
     (let bot = userptr; top = bot + len - 1 in
      if top < bot then (EFAULT, len)
      else if bot \<ge> USERTOP then (EFAULT, len)
      else if top \<ge> USERTOP then (ESUCCESS, USERTOP - bot)
      else (ESUCCESS, len))"

text \<open>The bytes that a copy out of user memory gets before it faults.\<close>

fun user_load :: "umem \<Rightarrow> vaddr \<Rightarrow> nat \<Rightarrow> u8 list" where
  "user_load m a 0 = []"
| "user_load m a (Suc n) = (case um_byte m a of None \<Rightarrow> [] | Some b \<Rightarrow> b # user_load m (a + 1) n)"

text \<open>A copy into user memory; the flag says that no access faulted.\<close>

fun user_store :: "umem \<Rightarrow> vaddr \<Rightarrow> u8 list \<Rightarrow> (bool \<times> umem) option" where
  "user_store m a [] = Some (True, m)"
| "user_store m a (b # bs) =
     (if um_byte m a = None then Some (False, m)
      else if um_ro m a then None
      else user_store (m\<lparr>um_byte := (um_byte m)(a \<mapsto> b)\<rparr>) (a + 1) bs)"

text \<open>\<open>dest\<close> is the kernel buffer; both results give its contents afterwards.\<close>

definition copyin :: "umem \<Rightarrow> vaddr \<Rightarrow> u8 list \<Rightarrow> u32 \<Rightarrow> errno \<times> u8 list" where
  "copyin m usersrc dest len =
     (let (result, stoplen) = copycheck usersrc len in
      if result \<noteq> ESUCCESS then (result, dest)
      else if stoplen \<noteq> len then (EFAULT, dest)
      else let got = user_load m usersrc (unat len); dest = got @ drop (length got) dest in
           if length got < unat len then (EFAULT, dest) else (ESUCCESS, dest))"

definition copyout :: "umem \<Rightarrow> u8 list \<Rightarrow> vaddr \<Rightarrow> u32 \<Rightarrow> (errno \<times> umem) option" where
  "copyout m src userdest len =
     (let (result, stoplen) = copycheck userdest len in
      if result \<noteq> ESUCCESS then Some (result, m)
      else if stoplen \<noteq> len then Some (EFAULT, m)
      else do {
        (ok, m) \<leftarrow> user_store m userdest (take (unat len) src);
        Some (if ok then ESUCCESS else EFAULT, m) })"

text \<open>
  \<open>copystr\<close> reading from user memory and writing to it.  The success value of the first is
  the string with its terminator, whose length is \<open>*gotlen\<close>.
\<close>

fun copystr_in :: "umem \<Rightarrow> vaddr \<Rightarrow> nat \<Rightarrow> nat \<Rightarrow> errno + u8 list" where
  "copystr_in m a maxlen stoplen =
     (if maxlen = 0 \<or> stoplen = 0 then Inl (if stoplen < maxlen then EFAULT else ENAMETOOLONG)
      else case um_byte m a of
        None \<Rightarrow> Inl EFAULT
      | Some b \<Rightarrow>
          if b = 0 then Inr [0]
          else (case copystr_in m (a + 1) (maxlen - 1) (stoplen - 1) of
                  Inl e \<Rightarrow> Inl e
                | Inr s \<Rightarrow> Inr (b # s)))"

declare copystr_in.simps [simp del]

fun copystr_out :: "umem \<Rightarrow> u8 list \<Rightarrow> vaddr \<Rightarrow> nat \<Rightarrow> nat \<Rightarrow> ((errno + nat) \<times> umem) option" where
  "copystr_out m src a maxlen stoplen =
     (if maxlen = 0 \<or> stoplen = 0 then Some (Inl (if stoplen < maxlen then EFAULT else ENAMETOOLONG), m)
      else case src of
        [] \<Rightarrow> None
      | b # bs \<Rightarrow>
          if um_byte m a = None then Some (Inl EFAULT, m)
          else if um_ro m a then None
          else let m = m\<lparr>um_byte := (um_byte m)(a \<mapsto> b)\<rparr> in
               if b = 0 then Some (Inr 1, m)
               else do {
                 (r, m) \<leftarrow> copystr_out m bs (a + 1) (maxlen - 1) (stoplen - 1);
                 Some (case r of Inl e \<Rightarrow> Inl e | Inr n \<Rightarrow> Inr (n + 1), m) })"

declare copystr_out.simps [simp del]

definition copyinstr :: "umem \<Rightarrow> vaddr \<Rightarrow> u32 \<Rightarrow> errno + u8 list" where
  "copyinstr m usersrc len =
     (let (result, stoplen) = copycheck usersrc len in
      if result \<noteq> ESUCCESS then Inl result
      else copystr_in m usersrc (unat len) (unat stoplen))"

definition copyoutstr :: "umem \<Rightarrow> u8 list \<Rightarrow> vaddr \<Rightarrow> u32 \<Rightarrow> ((errno + nat) \<times> umem) option" where
  "copyoutstr m src userdest len =
     (let (result, stoplen) = copycheck userdest len in
      if result \<noteq> ESUCCESS then Some (Inl result, m)
      else copystr_out m src userdest (unat len) (unat stoplen))"

subsection \<open>Descriptions of a transfer\<close>

datatype uio_rw = UIO_READ | UIO_WRITE

datatype uio_seg = UIO_USERSPACE | UIO_SYSSPACE | UIO_USERISPACE

datatype iov_base = Kbase "u8 list" nat | Ubase umem vaddr

record uio =
  iov_un :: iov_base
  iov_len :: u32
  uio_offset :: int
  uio_resid :: u32
  uio_segflg :: uio_seg
  uio_rw :: uio_rw
  uio_space :: "nat option"

definition mk_kuio :: "u8 list \<Rightarrow> u32 \<Rightarrow> int \<Rightarrow> uio_rw \<Rightarrow> uio" where
  "mk_kuio kbuf len pos rw =
     \<lparr>iov_un = Kbase kbuf 0, iov_len = len, uio_offset = pos, uio_resid = len,
      uio_segflg = UIO_SYSSPACE, uio_rw = rw, uio_space = None\<rparr>"

text \<open>
  The copy of one chunk, from or to the kernel buffer \<open>ptr\<close>: the result, the contents of the
  buffer and the region with its base moved past the chunk.
\<close>

definition move_chunk :: "u8 list \<Rightarrow> uio_rw \<Rightarrow> iov_base \<Rightarrow> uio_seg \<Rightarrow> (errno \<times> u8 list \<times> iov_base) option" where
  "move_chunk ptr rw base seg =
     (case base of
        Kbase obj pos \<Rightarrow> do {
          kassert (seg = UIO_SYSSPACE \<and> pos + length ptr \<le> length obj);
          case rw of
            UIO_READ \<Rightarrow> Some (ESUCCESS, ptr,
              Kbase (take pos obj @ ptr @ drop (pos + length ptr) obj) (pos + length ptr))
          | UIO_WRITE \<Rightarrow> Some (ESUCCESS, take (length ptr) (drop pos obj), Kbase obj (pos + length ptr)) }
      | Ubase m a \<Rightarrow> do {
          kassert (seg \<noteq> UIO_SYSSPACE);
          case rw of
            UIO_READ \<Rightarrow> do {
              (result, m) \<leftarrow> copyout m ptr a (of_nat (length ptr));
              Some (result, ptr, Ubase m (if result = ESUCCESS then a + of_nat (length ptr) else a)) }
          | UIO_WRITE \<Rightarrow>
              (let (result, ptr') = copyin m a ptr (of_nat (length ptr)) in
               Some (result, ptr', Ubase m (if result = ESUCCESS then a + of_nat (length ptr) else a))) })"

text \<open>
  The loop of \<open>uiomove\<close>; the list is what is left of the \<open>n\<close> bytes at \<open>ptr\<close>, and the
  result gives the contents of these bytes afterwards.
\<close>

function uiomove_loop :: "u8 list \<Rightarrow> uio \<Rightarrow> (errno \<times> u8 list \<times> uio) option" where
  "uiomove_loop ptr uio =
     (if ptr = [] \<or> uio_resid uio = 0 then Some (ESUCCESS, ptr, uio)
      else let sz = min (unat (iov_len uio)) (length ptr) in
        if sz = 0 then None
        else do {
          (result, got, base) \<leftarrow> move_chunk (take sz ptr) (uio_rw uio) (iov_un uio) (uio_segflg uio);
          if result \<noteq> ESUCCESS then Some (result, got @ drop sz ptr, uio\<lparr>iov_un := base\<rparr>)
          else do {
            (result, rest, uio) \<leftarrow> uiomove_loop (drop sz ptr)
               (uio\<lparr>iov_un := base, iov_len := iov_len uio - of_nat sz,
                    uio_resid := uio_resid uio - of_nat sz,
                    uio_offset := c_int (uio_offset uio + int sz)\<rparr>);
            Some (result, got @ rest, uio) } })"
  by pat_completeness auto
termination by (relation "measure (\<lambda>(ptr, uio). length ptr)") auto

declare uiomove_loop.simps [simp del]

definition cur_space :: "iov_base \<Rightarrow> nat option" where
  "cur_space base = (case base of Kbase _ _ \<Rightarrow> None | Ubase m _ \<Rightarrow> um_space m)"

definition uiomove :: "u8 list \<Rightarrow> uio \<Rightarrow> (errno \<times> u8 list \<times> uio) option" where
  "uiomove ptr uio = do {
     kassert (if uio_segflg uio = UIO_SYSSPACE then uio_space uio = None
              else uio_space uio = cur_space (iov_un uio));
     uiomove_loop ptr uio }"

function uiomovezeros_loop :: "nat \<Rightarrow> uio \<Rightarrow> (errno \<times> uio) option" where
  "uiomovezeros_loop n uio =
     (if n = 0 then Some (ESUCCESS, uio)
      else let amt = min 16 n in do {
        (result, zeros, uio) \<leftarrow> uiomove (replicate amt 0) uio;
        if result \<noteq> ESUCCESS then Some (result, uio)
        else uiomovezeros_loop (n - amt) uio })"
  by pat_completeness auto
termination by (relation "measure (\<lambda>(n, uio). n)") auto

declare uiomovezeros_loop.simps [simp del]

definition uiomovezeros :: "nat \<Rightarrow> uio \<Rightarrow> (errno \<times> uio) option" where
  "uiomovezeros n uio = do {
     kassert (uio_rw uio = UIO_READ);
     uiomovezeros_loop n uio }"

section \<open>Copying to and from user memory\<close>

text \<open>Memory with the bytes \<open>d\<close> stored from address \<open>a\<close> on.\<close>

definition um_write :: "(vaddr \<rightharpoonup> u8) \<Rightarrow> vaddr \<Rightarrow> u8 list \<Rightarrow> (vaddr \<rightharpoonup> u8)" where
  "um_write f a d = (\<lambda>x. if unat (x - a) < length d then Some (d ! unat (x - a)) else f x)"

lemma unat_of_nat_u32: "n < 2 ^ 32 \<Longrightarrow> unat (of_nat n :: u32) = n"
  by (simp add: unat_of_nat take_bit_eq_mod)

lemma of_nat_unat_u32 [simp]: "(of_nat (unat x) :: u32) = x"
  using unat_u32[of x] by (simp add: word_unat_eq_iff unat_of_nat_u32)

lemma um_write_Nil [simp]: "um_write f a [] = f"
  by (simp add: um_write_def)

lemma unat_minus_add:
  assumes "x \<noteq> a" shows "unat (x - a) = Suc (unat (x - (a + 1 :: u32)))"
proof -
  have "x - a \<noteq> 0" using assms by simp
  then have "unat (x - a) = Suc (unat (x - a - 1))" by (simp add: unat_minus_one unat_eq_zero Suc_pred' unat_gt_0)
  then show ?thesis by (simp add: algebra_simps)
qed

lemma um_write_Cons:
  assumes "length d < 2 ^ 32"
  shows "um_write (f(a \<mapsto> b)) (a + 1) d = um_write f a (b # d)"
proof
  fix x :: vaddr
  show "um_write (f(a \<mapsto> b)) (a + 1) d x = um_write f a (b # d) x"
  proof (cases "x = a")
    case True
    have "unat (a - (a + 1)) = 2 ^ 32 - 1" by (simp add: unsigned_minus_1_eq_mask mask_eq_exp_minus_1)
    then show ?thesis using True assms by (simp add: um_write_def)
  next
    case False
    then show ?thesis by (simp add: um_write_def unat_minus_add)
  qed
qed

lemma um_write_append:
  assumes "length d + length e \<le> 2 ^ 32"
  shows "um_write (um_write f a d) (a + of_nat (length d)) e = um_write f a (d @ e)"
  using assms
proof (induction d arbitrary: f a)
  case Nil
  then show ?case by simp
next
  case (Cons b d)
  have "um_write (um_write f a (b # d)) (a + of_nat (length (b # d))) e
      = um_write (um_write (f(a \<mapsto> b)) (a + 1) d) ((a + 1) + of_nat (length d)) e"
    using Cons.prems by (subst um_write_Cons) (auto simp: algebra_simps)
  also have "\<dots> = um_write (f(a \<mapsto> b)) (a + 1) (d @ e)" using Cons by simp
  also have "\<dots> = um_write f a ((b # d) @ e)" using Cons.prems by (simp add: um_write_Cons)
  finally show ?case .
qed

definition no_ro :: "umem \<Rightarrow> vaddr \<Rightarrow> nat \<Rightarrow> bool" where
  "no_ro m a n \<longleftrightarrow> (\<forall>i<n. \<not> um_ro m (a + of_nat i))"

lemma no_ro_Suc: "no_ro m a (Suc n) \<longleftrightarrow> \<not> um_ro m a \<and> no_ro m (a + 1) n"
  by (auto simp: no_ro_def less_Suc_eq_0_disj algebra_simps)

lemma no_ro_mono: "no_ro m a n \<Longrightarrow> k \<le> n \<Longrightarrow> no_ro m a k"
  by (auto simp: no_ro_def)

lemma no_ro_add: "no_ro m a (j + n) \<Longrightarrow> no_ro m (a + of_nat j) n"
proof -
  assume "no_ro m a (j + n)"
  then have "\<not> um_ro m (a + of_nat (j + i))" if "i < n" for i
    using that unfolding no_ro_def by (metis add_less_cancel_left)
  then show ?thesis by (simp add: no_ro_def add.assoc)
qed

definition um_present :: "umem \<Rightarrow> vaddr \<Rightarrow> nat \<Rightarrow> bool" where
  "um_present m a n \<longleftrightarrow> (\<forall>i<n. um_byte m (a + of_nat i) \<noteq> None)"

lemma um_presentD: "um_present m a n \<Longrightarrow> i < n \<Longrightarrow> um_byte m (a + of_nat i) \<noteq> None"
  by (simp add: um_present_def)

lemma um_present_Suc: "um_present m a (Suc n) \<longleftrightarrow> um_byte m a \<noteq> None \<and> um_present m (a + 1) n"
  by (auto simp: um_present_def less_Suc_eq_0_disj algebra_simps)

lemma um_present_upd:
  assumes "um_byte m a \<noteq> None"
  shows "um_present (m\<lparr>um_byte := (um_byte m)(a \<mapsto> b)\<rparr>) x n = um_present m x n"
proof -
  have "((um_byte m)(a \<mapsto> b)) y \<noteq> None \<longleftrightarrow> um_byte m y \<noteq> None" for y
    using assms by (cases "y = a") auto
  then show ?thesis by (simp add: um_present_def del: fun_upd_apply)
qed

lemma user_store_cases:
  assumes "no_ro m a (length d)" and "length d \<le> 2 ^ 32"
  obtains (ok) "user_store m a d = Some (True, m\<lparr>um_byte := um_write (um_byte m) a d\<rparr>)"
      "um_present m a (length d)"
  | (fault) k where "k < length d" "\<not> um_present m a (length d)"
      "user_store m a d = Some (False, m\<lparr>um_byte := um_write (um_byte m) a (take k d)\<rparr>)"
  using assms
proof (induction d arbitrary: m a thesis)
  case Nil
  show ?case using Nil(1) by (simp add: um_present_def)
next
  case (Cons b d)
  show ?case
  proof (cases "um_byte m a")
    case None
    show ?thesis using Cons.prems(2)[of 0] None by (simp add: um_present_Suc)
  next
    case (Some c)
    let ?m = "m\<lparr>um_byte := (um_byte m)(a \<mapsto> b)\<rparr>"
    have ro: "\<not> um_ro m a" "no_ro ?m (a + 1) (length d)"
      using Cons.prems(3) by (auto simp: no_ro_Suc) (simp add: no_ro_def)
    have len: "length d < 2 ^ 32" using Cons.prems(4) by simp
    have st: "user_store m a (b # d) = user_store ?m (a + 1) d" using Some ro by simp
    show ?thesis
    proof (rule Cons.IH[of ?m "a + 1"])
      assume ok: "user_store ?m (a + 1) d = Some (True, ?m\<lparr>um_byte := um_write (um_byte ?m) (a + 1) d\<rparr>)"
        and "um_present ?m (a + 1) (length d)"
      then have "um_present m (a + 1) (length d)"
        using Some by (simp add: um_present_upd)
      then show ?thesis using ok st len Some Cons.prems(1) by (simp add: um_present_Suc um_write_Cons)
    next
      fix k assume k: "k < length d" "\<not> um_present ?m (a + 1) (length d)"
        "user_store ?m (a + 1) d = Some (False, ?m\<lparr>um_byte := um_write (um_byte ?m) (a + 1) (take k d)\<rparr>)"
      have "\<not> um_present m (a + 1) (length d)"
        using k(2) Some by (simp add: um_present_upd)
      then show ?thesis
        using k st len Cons.prems(2)[of "Suc k"] by (simp add: um_present_Suc um_write_Cons)
    qed (use ro len in auto)
  qed
qed

lemma user_load_present: "um_present m a n \<Longrightarrow> length (user_load m a n) = n"
  by (induction n arbitrary: a) (auto simp: um_present_Suc)

lemma user_load_length: "length (user_load m a n) \<le> n"
  by (induction n arbitrary: a) (auto split: option.splits)

lemma user_load_full: "length (user_load m a n) = n \<longleftrightarrow> um_present m a n"
proof (induction n arbitrary: a)
  case 0
  show ?case by (simp add: um_present_def)
next
  case (Suc n)
  then show ?case by (auto simp: um_present_Suc split: option.splits)
qed

lemma user_load_nth:
  "i < length (user_load m a n) \<Longrightarrow> um_byte m (a + of_nat i) = Some (user_load m a n ! i)"
proof (induction n arbitrary: a i)
  case (Suc n)
  show ?case
  proof (cases i)
    case (Suc j)
    then show ?thesis using Suc.IH[of j "a + 1"] Suc.prems
      by (auto split: option.splits simp: add.assoc)
  qed (use Suc.prems in \<open>auto split: option.splits\<close>)
qed simp

text \<open>A region of user memory that \<open>copycheck\<close> accepts whole.\<close>

definition in_user :: "vaddr \<Rightarrow> u32 \<Rightarrow> bool" where
  "in_user a len \<longleftrightarrow> 0 < len \<and> unat a + unat len \<le> 2 ^ 31"

lemma copycheck_iff: "copycheck a len = (ESUCCESS, len) \<longleftrightarrow> in_user a len"
proof -
  have ut: "unat (USERTOP) = 2 ^ 31" by (simp add: USERTOP_def MIPS_KSEG0_def)
  show ?thesis
  proof (cases "len = 0")
    case True
    have "\<not> (a - 1 < a) \<longleftrightarrow> a = 0"
      by (cases "a = 0") (simp_all add: word_less_nat_alt unat_minus_one unat_gt_0)
    then show ?thesis using True
      by (auto simp: copycheck_def in_user_def Let_def USERTOP_def MIPS_KSEG0_def)
  next
    case False
    then have l: "0 < unat len" by (simp add: unat_gt_0)
    have len1: "unat (len - 1) = unat len - 1" using False by (simp add: unat_minus_one)
    have assoc: "a + len - 1 = a + (len - 1)" by simp
    show ?thesis
    proof (cases "unat a + (unat len - 1) < 2 ^ 32")
      case True
      then have top: "unat (a + len - 1) = unat a + (unat len - 1)"
        unfolding assoc by (subst unat_add_lem[THEN iffD1]) (simp_all add: len1)
      have "\<not> a + len - 1 < a" by (simp add: word_less_nat_alt top)
      moreover have "USERTOP - a \<noteq> len" if "a + len - 1 \<ge> USERTOP" "\<not> USERTOP \<le> a"
      proof
        assume "USERTOP - a = len"
        then have "a + len - 1 = USERTOP - 1" by (auto simp: algebra_simps)
        then show False using that by (simp add: USERTOP_def MIPS_KSEG0_def)
      qed
      ultimately show ?thesis using l False top ut
        by (auto simp: copycheck_def in_user_def Let_def word_le_nat_alt word_gt_0)
    next
      case ov: False
      have lt: "unat a < 2 ^ 32" "unat len < 2 ^ 32" by (rule unat_u32)+
      have "unat (a + len - 1) = (unat a + (unat len - 1)) mod 2 ^ 32"
        unfolding assoc by (simp add: unat_word_ariths len1)
      also have "\<dots> = unat a + (unat len - 1) - 2 ^ 32"
        using ov lt l by (simp add: le_mod_geq)
      finally have "a + len - 1 < a" using lt l ov by (simp add: word_less_nat_alt)
      moreover have "\<not> in_user a len" using ov l by (auto simp: in_user_def)
      ultimately show ?thesis
        by (simp add: copycheck_def Let_def)
    qed
  qed
qed

lemma copycheck_cases:
  "copycheck a len = (ESUCCESS, len) \<or> (\<exists>stop. copycheck a len = (ESUCCESS, stop) \<and> stop \<noteq> len)
   \<or> copycheck a len = (EFAULT, len)"
  by (auto simp: copycheck_def Let_def)

lemma copyin_cases:
  assumes "length ptr < 2 ^ 32"
  obtains (ok) "copyin m a ptr (of_nat (length ptr)) = (ESUCCESS, user_load m a (length ptr))"
      "in_user a (of_nat (length ptr))" "um_present m a (length ptr)"
  | (fault) ptr' where "copyin m a ptr (of_nat (length ptr)) = (EFAULT, ptr')" "length ptr' = length ptr"
      "\<not> (in_user a (of_nat (length ptr)) \<and> um_present m a (length ptr))"
proof -
  let ?l = "of_nat (length ptr) :: u32"
  have len: "unat ?l = length ptr" using assms by (simp add: unat_of_nat_u32)
  show thesis
  proof (cases "in_user a ?l")
    case True
    let ?got = "user_load m a (length ptr)"
    have c: "copyin m a ptr ?l
        = (if length ?got < length ptr then EFAULT else ESUCCESS, ?got @ drop (length ?got) ptr)"
      using copycheck_iff[of a ?l] True by (simp add: copyin_def len Let_def)
    show thesis
    proof (cases "um_present m a (length ptr)")
      case True
      then show thesis using ok c \<open>in_user a ?l\<close> by (simp add: user_load_present)
    next
      case False
      then have "length ?got < length ptr"
        using user_load_length[of m a "length ptr"] by (auto simp: le_less user_load_full)
      then show thesis using fault c False by simp
    qed
  next
    case False
    then have "copycheck a ?l \<noteq> (ESUCCESS, ?l)" by (simp add: copycheck_iff)
    then have "copyin m a ptr ?l = (EFAULT, ptr)"
      using copycheck_cases[of a ?l] by (auto simp: copyin_def)
    then show thesis using fault False by simp
  qed
qed

lemma copyout_cases:
  assumes "no_ro m a (length d)" and "length d < 2 ^ 32"
  obtains (ok) "copyout m d a (of_nat (length d)) = Some (ESUCCESS, m\<lparr>um_byte := um_write (um_byte m) a d\<rparr>)"
      "in_user a (of_nat (length d))" "um_present m a (length d)"
  | (fault) k where "k < length d \<or> k = 0"
      "copyout m d a (of_nat (length d)) = Some (EFAULT, m\<lparr>um_byte := um_write (um_byte m) a (take k d)\<rparr>)"
      "k = 0 \<or> in_user a (of_nat (length d))"
      "\<not> (in_user a (of_nat (length d)) \<and> um_present m a (length d))"
proof -
  let ?l = "of_nat (length d) :: u32"
  have len: "unat ?l = length d" using assms by (simp add: unat_of_nat_u32)
  show thesis
  proof (cases "in_user a ?l")
    case True
    then have c: "copycheck a ?l = (ESUCCESS, ?l)" by (simp add: copycheck_iff)
    have l: "length d \<le> 2 ^ 32" using assms by simp
    show thesis
      using assms(1) l
    proof (cases rule: user_store_cases)
      case ok
      then show thesis using that(1) True by (simp add: copyout_def c len)
    next
      case (fault k)
      then show thesis using that(2)[of k] True by (simp add: copyout_def c len)
    qed
  next
    case False
    then have "copycheck a ?l \<noteq> (ESUCCESS, ?l)" by (simp add: copycheck_iff)
    then have "copyout m d a ?l = Some (EFAULT, m)"
      using copycheck_cases[of a ?l] by (auto simp: copyout_def)
    then show thesis using fault[of 0] False by simp
  qed
qed

section \<open>Transfers\<close>

text \<open>Storing at the base of a region, and passing over bytes of it.\<close>

definition iov_store :: "iov_base \<Rightarrow> u8 list \<Rightarrow> iov_base" where
  "iov_store base d = (case base of
      Kbase obj pos \<Rightarrow> Kbase (take pos obj @ d @ drop (pos + length d) obj) (pos + length d)
    | Ubase m a \<Rightarrow> Ubase (m\<lparr>um_byte := um_write (um_byte m) a d\<rparr>) (a + of_nat (length d)))"

text \<open>What a failed copy may have stored without moving the base.\<close>

definition iov_spill :: "iov_base \<Rightarrow> u8 list \<Rightarrow> iov_base" where
  "iov_spill base d = (case base of
      Kbase obj pos \<Rightarrow> base
    | Ubase m a \<Rightarrow> Ubase (m\<lparr>um_byte := um_write (um_byte m) a d\<rparr>) a)"

definition iov_skip :: "iov_base \<Rightarrow> nat \<Rightarrow> iov_base" where
  "iov_skip base n = (case base of
      Kbase obj pos \<Rightarrow> Kbase obj (pos + n) | Ubase m a \<Rightarrow> Ubase m (a + of_nat n))"

definition iov_bytes :: "iov_base \<Rightarrow> nat \<Rightarrow> u8 list" where
  "iov_bytes base n = (case base of
      Kbase obj pos \<Rightarrow> take n (drop pos obj) | Ubase m a \<Rightarrow> user_load m a n)"

text \<open>A region of \<open>n\<close> bytes that can be accessed as a whole.\<close>

definition iov_room :: "iov_base \<Rightarrow> nat \<Rightarrow> bool" where
  "iov_room base n = (case base of
      Kbase obj pos \<Rightarrow> pos + n \<le> length obj
    | Ubase m a \<Rightarrow> unat a + n \<le> 2 ^ 31 \<and> um_present m a n)"

definition uio_ok :: "uio \<Rightarrow> bool" where
  "uio_ok u \<longleftrightarrow> uio_resid u \<le> iov_len u \<and>
     (case iov_un u of
        Kbase obj pos \<Rightarrow> uio_segflg u = UIO_SYSSPACE \<and> uio_space u = None
                         \<and> pos + unat (uio_resid u) \<le> length obj
      | Ubase m a \<Rightarrow> uio_segflg u \<noteq> UIO_SYSSPACE \<and> uio_space u = um_space m
                     \<and> (uio_rw u = UIO_READ \<longrightarrow> no_ro m a (unat (uio_resid u))))"

definition uio_adv :: "uio \<Rightarrow> iov_base \<Rightarrow> nat \<Rightarrow> uio" where
  "uio_adv u base n = u\<lparr>iov_un := base, iov_len := iov_len u - of_nat n,
     uio_resid := uio_resid u - of_nat n, uio_offset := c_int (uio_offset u + int n)\<rparr>"

lemma mk_kuio_ok: "unat len \<le> length buf \<Longrightarrow> uio_ok (mk_kuio buf len pos rw)"
  by (simp add: uio_ok_def mk_kuio_def)

lemma uiomove_loop_Nil [simp]: "uiomove_loop [] u = Some (ESUCCESS, [], u)"
  by (subst uiomove_loop.simps) simp

lemma uiomove_one:
  assumes "uio_ok u" and "ptr \<noteq> []" and "length ptr \<le> unat (uio_resid u)"
  shows "uiomove ptr u = do {
     (result, got, base) \<leftarrow> move_chunk ptr (uio_rw u) (iov_un u) (uio_segflg u);
     if result \<noteq> ESUCCESS then Some (result, got, u\<lparr>iov_un := base\<rparr>)
     else Some (ESUCCESS, got, uio_adv u base (length ptr)) }"
proof -
  have sp: "if uio_segflg u = UIO_SYSSPACE then uio_space u = None
            else uio_space u = cur_space (iov_un u)"
    using assms(1) by (auto simp: uio_ok_def cur_space_def split: iov_base.splits)
  have "length ptr \<le> unat (iov_len u)"
    using assms by (auto simp: uio_ok_def word_le_nat_alt)
  then have sz: "min (unat (iov_len u)) (length ptr) = length ptr" by simp
  have "uio_resid u \<noteq> 0" using assms by auto
  then show ?thesis using sp assms(2) sz
    unfolding uiomove_def
    by (subst uiomove_loop.simps) (simp add: uio_adv_def Let_def cong: if_cong)
qed

text \<open>
  What one call of \<open>uiomove\<close> does to a well-formed description with enough room: it moves all
  the bytes, or it fails with \<open>EFAULT\<close> and the description has not moved.
\<close>

lemma of_nat_pos_u32: "0 < n \<Longrightarrow> n < 2 ^ 32 \<Longrightarrow> 0 < (of_nat n :: u32)"
  using unat_of_nat_u32[of n] by (simp add: word_less_nat_alt)

lemma in_user_room: "0 < n \<Longrightarrow> n < 2 ^ 32 \<Longrightarrow> in_user a (of_nat n) \<longleftrightarrow> unat a + n \<le> 2 ^ 31"
  by (simp add: in_user_def unat_of_nat_u32 of_nat_pos_u32)

lemma uiomove_read:
  assumes "uio_ok u" and "uio_rw u = UIO_READ" and "ptr \<noteq> []" and "length ptr \<le> unat (uio_resid u)"
  obtains (ok) "uiomove ptr u = Some (ESUCCESS, ptr, uio_adv u (iov_store (iov_un u) ptr) (length ptr))"
  | (fault) k where "k < length ptr" "\<not> iov_room (iov_un u) (length ptr)"
      "uiomove ptr u = Some (EFAULT, ptr, u\<lparr>iov_un := iov_spill (iov_un u) (take k ptr)\<rparr>)"
proof (cases "iov_un u")
  case (Kbase obj pos)
  then have "move_chunk ptr UIO_READ (iov_un u) (uio_segflg u) = Some (ESUCCESS, ptr, iov_store (iov_un u) ptr)"
    using assms by (simp add: move_chunk_def iov_store_def uio_ok_def)
  then show thesis using that(1) assms by (simp add: uiomove_one)
next
  case (Ubase m a)
  have len: "0 < length ptr" "length ptr < 2 ^ 32"
    using assms(3,4) unat_u32[of "uio_resid u"] by auto
  have seg: "uio_segflg u \<noteq> UIO_SYSSPACE" using assms(1) Ubase by (simp add: uio_ok_def)
  have "no_ro m a (length ptr)"
    using assms Ubase by (auto simp: uio_ok_def intro: no_ro_mono)
  then show thesis using len(2)
  proof (cases rule: copyout_cases)
    case ok
    then show thesis using that(1) assms seg
      by (simp add: uiomove_one Ubase move_chunk_def iov_store_def)
  next
    case (fault k)
    then show thesis using that(2)[of k] assms seg len
      by (auto simp: uiomove_one Ubase move_chunk_def iov_spill_def iov_room_def in_user_room)
  qed
qed

lemma uiomove_write:
  assumes "uio_ok u" and "uio_rw u = UIO_WRITE" and "ptr \<noteq> []" and "length ptr \<le> unat (uio_resid u)"
  obtains (ok) "uiomove ptr u = Some (ESUCCESS, iov_bytes (iov_un u) (length ptr),
                                      uio_adv u (iov_skip (iov_un u) (length ptr)) (length ptr))"
      "length (iov_bytes (iov_un u) (length ptr)) = length ptr"
  | (fault) buf where "uiomove ptr u = Some (EFAULT, buf, u)" "length buf = length ptr"
      "\<not> iov_room (iov_un u) (length ptr)"
proof (cases "iov_un u")
  case (Kbase obj pos)
  then have "move_chunk ptr UIO_WRITE (iov_un u) (uio_segflg u)
      = Some (ESUCCESS, iov_bytes (iov_un u) (length ptr), iov_skip (iov_un u) (length ptr))"
    using assms by (simp add: move_chunk_def iov_bytes_def iov_skip_def uio_ok_def)
  then show thesis using that(1) assms Kbase
    by (auto simp: uiomove_one iov_bytes_def uio_ok_def)
next
  case (Ubase m a)
  have len: "0 < length ptr" "length ptr < 2 ^ 32"
    using assms(3,4) unat_u32[of "uio_resid u"] by auto
  have seg: "uio_segflg u \<noteq> UIO_SYSSPACE" using assms(1) Ubase by (simp add: uio_ok_def)
  show thesis using len(2)
  proof (cases rule: copyin_cases[of ptr m a])
    case ok
    then show thesis using that(1) assms seg
      by (simp add: uiomove_one Ubase move_chunk_def iov_bytes_def iov_skip_def user_load_present)
  next
    case (fault ptr')
    have "u\<lparr>iov_un := Ubase m a\<rparr> = u" using Ubase by (cases u) simp
    then show thesis using that(2)[of ptr'] assms seg len fault
      by (simp add: uiomove_one Ubase move_chunk_def iov_room_def in_user_room)
  qed
qed

lemma c_int_add: "c_int (c_int x + y) = c_int (x + y)"
  by (simp add: c_int_def algebra_simps mod_simps)

lemma uio_adv_adv [simp]: "uio_adv (uio_adv u b n) b' k = uio_adv u b' (n + k)"
  by (simp add: uio_adv_def c_int_add diff_diff_eq add.assoc)

lemma uio_adv_simps [simp]:
  "iov_un (uio_adv u b n) = b" "uio_rw (uio_adv u b n) = uio_rw u"
  "uio_segflg (uio_adv u b n) = uio_segflg u" "uio_space (uio_adv u b n) = uio_space u"
  "iov_len (uio_adv u b n) = iov_len u - of_nat n"
  "uio_resid (uio_adv u b n) = uio_resid u - of_nat n"
  "uio_offset (uio_adv u b n) = c_int (uio_offset u + int n)"
  by (simp_all add: uio_adv_def)

lemma unat_sub_u32: "n \<le> unat (x :: u32) \<Longrightarrow> unat (x - of_nat n) = unat x - n"
proof -
  assume n: "n \<le> unat x"
  then have "n < 2 ^ 32" using unat_u32[of x] by simp
  then have "unat (of_nat n :: u32) = n" by (rule unat_of_nat_u32)
  then show ?thesis using n by (simp add: unat_sub word_le_nat_alt)
qed

lemma sub_mono_u32: "x \<le> y \<Longrightarrow> n \<le> unat x \<Longrightarrow> x - of_nat n \<le> (y - of_nat n :: u32)"
  by (simp add: word_le_nat_alt unat_sub_u32 diff_le_mono)

lemma iov_store_append:
  assumes "case b of Kbase obj pos \<Rightarrow> pos + length d \<le> length obj | Ubase m a \<Rightarrow> length d + length e \<le> 2 ^ 32"
  shows "iov_store (iov_store b d) e = iov_store b (d @ e)"
proof (cases b)
  case (Kbase obj pos)
  then show ?thesis using assms
    by (simp add: iov_store_def ac_simps)
next
  case (Ubase m a)
  then show ?thesis using assms by (simp add: iov_store_def um_write_append add.assoc)
qed

lemma iov_store_Nil [simp]: "iov_store b [] = b"
  by (cases b) (simp_all add: iov_store_def)

lemma iov_skip_skip [simp]: "iov_skip (iov_skip b n) k = iov_skip b (n + k)"
  by (cases b) (simp_all add: iov_skip_def add.assoc)

lemma iov_skip_0 [simp]: "iov_skip b 0 = b"
  by (cases b) (simp_all add: iov_skip_def)

lemma uio_ok_store:
  assumes "uio_ok u" and "length d \<le> unat (uio_resid u)" and "uio_rw u = UIO_READ"
  shows "uio_ok (uio_adv u (iov_store (iov_un u) d) (length d))"
proof -
  have l: "uio_resid u - of_nat (length d) \<le> iov_len u - of_nat (length d)"
    using assms(1,2) by (intro sub_mono_u32) (simp_all add: uio_ok_def)
  have r: "unat (uio_resid u - of_nat (length d)) = unat (uio_resid u) - length d"
    using assms(2) by (rule unat_sub_u32)
  show ?thesis
  proof (cases "iov_un u")
    case (Kbase obj pos)
    then show ?thesis using assms l r by (simp add: uio_ok_def iov_store_def)
  next
    case (Ubase m a)
    then have "no_ro m (a + of_nat (length d)) (unat (uio_resid u) - length d)"
      using assms no_ro_add[of m a "length d" "unat (uio_resid u) - length d"] by (simp add: uio_ok_def)
    then show ?thesis using assms l r Ubase by (simp add: uio_ok_def iov_store_def) (simp add: no_ro_def)
  qed
qed

lemma uio_ok_skip:
  assumes "uio_ok u" and "n \<le> unat (uio_resid u)" and "uio_rw u = UIO_WRITE"
  shows "uio_ok (uio_adv u (iov_skip (iov_un u) n) n)"
proof -
  have l: "uio_resid u - of_nat n \<le> iov_len u - of_nat n"
    using assms(1,2) by (intro sub_mono_u32) (simp_all add: uio_ok_def)
  have r: "unat (uio_resid u - of_nat n) = unat (uio_resid u) - n"
    using assms(2) by (rule unat_sub_u32)
  show ?thesis
    using assms l r by (cases "iov_un u") (simp_all add: uio_ok_def iov_skip_def)
qed

text \<open>The region of a well-formed description is not longer than what it can hold.\<close>

lemma uio_ok_append:
  assumes "uio_ok u" and "length d + length e \<le> unat (uio_resid u)"
  shows "iov_store (iov_store (iov_un u) d) e = iov_store (iov_un u) (d @ e)"
  using assms unat_u32[of "uio_resid u"]
  by (intro iov_store_append) (auto simp: uio_ok_def split: iov_base.splits)

lemma user_load_append:
  "length (user_load m a n) = n \<Longrightarrow> user_load m a (n + k) = user_load m a n @ user_load m (a + of_nat n) k"
proof (induction n arbitrary: a)
  case (Suc n)
  then show ?case by (auto split: option.splits simp: add.assoc)
qed simp

lemma iov_bytes_append:
  "length (iov_bytes b n) = n \<Longrightarrow> iov_bytes b (n + k) = iov_bytes b n @ iov_bytes (iov_skip b n) k"
proof (cases b)
  case (Kbase obj pos)
  then show ?thesis
    by (simp add: iov_bytes_def iov_skip_def take_add) (simp add: add.commute)
qed (simp add: iov_bytes_def iov_skip_def user_load_append)

lemma iov_room_skip:
  assumes "iov_room b (n + k)" and "k > 0" shows "iov_room (iov_skip b n) k"
proof (cases b)
  case (Ubase m a)
  have "unat (a + of_nat n) = unat a + n"
    using assms Ubase by (subst unat_add_lem[THEN iffD1]) (simp_all add: iov_room_def unat_of_nat_u32)
  moreover have "um_present m a (n + k)" using assms Ubase by (simp add: iov_room_def)
  then have "um_byte m (a + of_nat (n + i)) \<noteq> None" if "i < k" for i
    using that um_presentD[of m a "n + k" "n + i"] by (simp add: add.assoc)
  ultimately show ?thesis using assms Ubase
    by (simp add: iov_room_def iov_skip_def um_present_def add.assoc)
qed (use assms in \<open>simp add: iov_room_def iov_skip_def\<close>)

lemma iov_room_mono: "iov_room b n \<Longrightarrow> k \<le> n \<Longrightarrow> iov_room b k"
  by (cases b) (auto simp: iov_room_def um_present_def)

lemma um_write_present: "um_present m a n \<Longrightarrow> um_present (m\<lparr>um_byte := um_write (um_byte m) b d\<rparr>) a n"
  by (auto simp: um_present_def um_write_def)

lemma iov_room_store:
  assumes "iov_room b (length d + k)" and "k > 0" shows "iov_room (iov_store b d) k"
proof (cases b)
  case (Ubase m a)
  then have "iov_room (Ubase m (a + of_nat (length d))) k"
    using iov_room_skip[OF assms] by (simp add: iov_skip_def)
  then show ?thesis using Ubase by (simp add: iov_room_def iov_store_def um_write_present)
qed (use assms in \<open>simp add: iov_room_def iov_store_def\<close>)

text \<open>A transfer of zeros, in chunks of 16 bytes, is one transfer.\<close>

definition spilled :: "uio \<Rightarrow> u8 list \<Rightarrow> u8 list \<Rightarrow> uio" where
  "spilled u d e = (uio_adv u (iov_store (iov_un u) d) (length d))
      \<lparr>iov_un := iov_spill (iov_store (iov_un u) d) e\<rparr>"

lemma spilled_Nil [simp]: "spilled u [] e = (uio_adv u (iov_un u) 0)\<lparr>iov_un := iov_spill (iov_un u) e\<rparr>"
  by (simp add: spilled_def)

lemma spilled_append:
  assumes "uio_ok u" and "length d + length d' \<le> unat (uio_resid u)"
  shows "spilled (uio_adv u (iov_store (iov_un u) d) (length d)) d' e = spilled u (d @ d') e"
  using uio_ok_append[OF assms] by (simp add: spilled_def)

lemma uio_offset_small:
  assumes "- (2 ^ 31) \<le> uio_offset u" "uio_offset u < 2 ^ 31" shows "uio_adv u (iov_un u) 0 = u"
  using assms by (cases u) (simp add: uio_adv_def c_int_id)

lemma uiomovezeros_step:
  assumes "uio_ok u" and "uio_rw u = UIO_READ" and "0 < n" "n \<le> unat (uio_resid u)"
    and "- (2 ^ 31) \<le> uio_offset u" "uio_offset u < 2 ^ 31"
  obtains (ok) "uiomovezeros_loop n u = uiomovezeros_loop (n - min 16 n)
       (uio_adv u (iov_store (iov_un u) (replicate (min 16 n) 0)) (min 16 n))"
  | (fault) k where "k < n" "\<not> iov_room (iov_un u) n"
      "uiomovezeros_loop n u = Some (EFAULT, spilled u [] (replicate k 0))"
proof -
  define z where "z = replicate (min 16 n) (0 :: u8)"
  have z: "length z = min 16 n" "z \<noteq> []" using assms(3) by (auto simp: z_def)
  have step: "uiomovezeros_loop n u = do {
      (result, zeros, u) \<leftarrow> uiomove z u;
      if result \<noteq> ESUCCESS then Some (result, u) else uiomovezeros_loop (n - min 16 n) u }"
    unfolding z_def using assms(3) by (subst uiomovezeros_loop.simps) (simp add: Let_def)
  have len: "length z \<le> unat (uio_resid u)" using z assms(4) by simp
  show thesis
    using assms(1,2) z(2) len
  proof (cases rule: uiomove_read)
    case ok
    then show thesis using that(1) z by (simp add: step z_def)
  next
    case (fault k)
    then have "\<not> iov_room (iov_un u) n" using z iov_room_mono[of "iov_un u" n "min 16 n"] by auto
    moreover have "u\<lparr>iov_un := iov_spill (iov_un u) (take k z)\<rparr> = spilled u [] (replicate k 0)"
      using fault(1) assms by (simp add: uio_offset_small z_def min_def)
    ultimately show thesis using fault that(2)[of k] z by (simp add: step)
  qed
qed

lemma uiomovezeros_loop_cases:
  assumes "uio_ok u" and "uio_rw u = UIO_READ" and "n \<le> unat (uio_resid u)"
    and "- (2 ^ 31) \<le> uio_offset u" "uio_offset u < 2 ^ 31"
  shows "uiomovezeros_loop n u = Some (ESUCCESS, uio_adv u (iov_store (iov_un u) (replicate n 0)) n)
       \<or> (\<exists>j k. j + k < n \<and> \<not> iov_room (iov_un u) n
             \<and> uiomovezeros_loop n u = Some (EFAULT, spilled u (replicate j 0) (replicate k 0)))"
  using assms
proof (induction n arbitrary: u rule: less_induct)
  case (less n)
  show ?case
  proof (cases "n = 0")
    case True
    then show ?thesis using less by (simp add: uiomovezeros_loop.simps uio_offset_small)
  next
    case False
    define amt where "amt = min 16 n"
    have a: "0 < amt" "amt \<le> n" using False by (auto simp: amt_def)
    have "0 < n" using False by simp
    show ?thesis
      using less.prems(1,2) \<open>0 < n\<close> less.prems(3-)
    proof (cases rule: uiomovezeros_step)
      case (fault k)
      then have "0 + k < n" "uiomovezeros_loop n u = Some (EFAULT, spilled u (replicate 0 0) (replicate k 0))"
        by simp_all
      then show ?thesis using fault(2) by blast
    next
      case ok
      define z where "z = replicate amt (0 :: u8)"
      define u' where "u' = uio_adv u (iov_store (iov_un u) z) amt"
      have st: "uiomovezeros_loop n u = uiomovezeros_loop (n - amt) u'"
        using ok by (simp add: u'_def z_def amt_def)
      have z: "length z = amt" by (simp add: z_def)
      have len: "length z \<le> unat (uio_resid u)" using a less.prems(3) z by simp
      have u': "uio_ok u'" "uio_rw u' = UIO_READ" "n - amt \<le> unat (uio_resid u')"
        "- (2 ^ 31) \<le> uio_offset u'" "uio_offset u' < 2 ^ 31"
        using uio_ok_store[OF less.prems(1) len less.prems(2)] less.prems a c_int_range
        by (auto simp: u'_def unat_sub_u32 z)
      have app: "iov_store (iov_store (iov_un u) z) (replicate j 0) = iov_store (iov_un u) (replicate (amt + j) 0)"
        if "amt + j \<le> n" for j
        using uio_ok_append[OF less.prems(1), of z "replicate j 0"] that a less.prems(3)
        by (simp add: z_def replicate_add)
      have spl: "spilled u' (replicate j 0) e = spilled u (replicate (amt + j) 0) e" if "amt + j \<le> n" for j e
        using spilled_append[OF less.prems(1), of z "replicate j 0" e] that a less.prems(3)
        by (simp add: z_def u'_def replicate_add)
      have room: "iov_room (iov_un u') (n - amt)" if "iov_room (iov_un u) n" "n - amt > 0"
        using iov_room_store[of "iov_un u" z "n - amt"] that a z by (simp add: u'_def)
      from less.IH[of "n - amt" u', OF _ u'] a
      consider "uiomovezeros_loop (n - amt) u'
          = Some (ESUCCESS, uio_adv u' (iov_store (iov_un u') (replicate (n - amt) 0)) (n - amt))"
        | j k where "j + k < n - amt" "\<not> iov_room (iov_un u') (n - amt)"
            "uiomovezeros_loop (n - amt) u' = Some (EFAULT, spilled u' (replicate j 0) (replicate k 0))"
        by auto
      then show ?thesis
      proof cases
        case 1
        then show ?thesis using st app[of "n - amt"] a by (simp add: u'_def)
      next
        case (2 j k)
        then have "amt + j + k < n" "amt < n" by auto
        moreover have "\<not> iov_room (iov_un u) n" using 2(2) room \<open>amt < n\<close> by auto
        moreover have "uiomovezeros_loop n u = Some (EFAULT, spilled u (replicate (amt + j) 0) (replicate k 0))"
          using st 2 spl[of j] by simp
        ultimately show ?thesis by blast
      qed
    qed
  qed
qed

section \<open>Properties of the copies\<close>

lemma copyout_as_whole:
  assumes "unat len \<le> length src"
  shows "copyout m src a len = copyout m (take (unat len) src) a (of_nat (length (take (unat len) src)))"
proof -
  have "length (take (unat len) src) = unat len" using assms by simp
  then show ?thesis unfolding copyout_def by (simp add: Let_def cong: if_cong)
qed

lemma um_write_other: "um_write f a d x \<noteq> f x \<Longrightarrow> unat (x - a) < length d"
  by (simp add: um_write_def split: if_splits)

lemma um_write_nth: "i < length d \<Longrightarrow> length d \<le> 2 ^ 32 \<Longrightarrow> um_write f a d (a + of_nat i) = Some (d ! i)"
  by (simp add: um_write_def unat_of_nat_u32)

text \<open>An address at a distance within a user region is a user address.\<close>

lemma in_user_below:
  assumes "in_user a len" and "unat (x - a) < unat len" shows "x < USERTOP"
proof -
  have "unat a + unat (x - a) < 2 ^ 31" using assms by (simp add: in_user_def)
  then have "unat (a + (x - a)) = unat a + unat (x - a)"
    by (subst unat_add_lem[THEN iffD1]) simp_all
  then have "unat x < 2 ^ 31" using \<open>unat a + unat (x - a) < 2 ^ 31\<close> by simp
  then show ?thesis by (simp add: USERTOP_def MIPS_KSEG0_def word_less_nat_alt)
qed

lemma copyout_outcome:
  assumes "unat len \<le> length src" and "no_ro m a (unat len)"
  obtains r m' where "copyout m src a len = Some (r, m')"
    and "r = ESUCCESS \<longleftrightarrow> in_user a len \<and> um_present m a (unat len)"
    and "r = ESUCCESS \<or> r = EFAULT"
    and "r = ESUCCESS \<Longrightarrow> \<forall>i<unat len. um_byte m' (a + of_nat i) = Some (src ! i)"
    and "\<And>x. um_byte m' x \<noteq> um_byte m x \<Longrightarrow> x < USERTOP \<and> unat (x - a) < unat len"
proof -
  define d where "d = take (unat len) src"
  have d: "length d = unat len" "(of_nat (length d) :: u32) = len" "length d < 2 ^ 32"
    using assms(1) unat_u32[of len] by (auto simp: d_def)
  have eq: "copyout m src a len = copyout m d a (of_nat (length d))"
    unfolding d_def by (rule copyout_as_whole[OF assms(1)])
  have ro: "no_ro m a (length d)" using assms(2) d by simp
  have out: "x < USERTOP \<and> unat (x - a) < unat len"
    if "um_write (um_byte m) a e x \<noteq> um_byte m x" "length e \<le> unat len" "in_user a len" for x e
    using um_write_other[OF that(1)] that(2) in_user_below[OF that(3), of x] by simp
  show thesis
    using ro d(3)
  proof (cases rule: copyout_cases)
    case ok
    show thesis
    proof (rule that)
      show "copyout m src a len = Some (ESUCCESS, m\<lparr>um_byte := um_write (um_byte m) a d\<rparr>)"
        using ok eq by simp
      show "\<forall>i<unat len. um_byte (m\<lparr>um_byte := um_write (um_byte m) a d\<rparr>) (a + of_nat i) = Some (src ! i)"
        using d by (simp add: um_write_nth) (simp add: d_def)
      show "x < USERTOP \<and> unat (x - a) < unat len"
        if "um_byte (m\<lparr>um_byte := um_write (um_byte m) a d\<rparr>) x \<noteq> um_byte m x" for x
        using that out[of d x] ok d by simp
    qed (use ok d in auto)
  next
    case (fault k)
    have "x < USERTOP \<and> unat (x - a) < unat len"
      if "um_write (um_byte m) a (take k d) x \<noteq> um_byte m x" for x
      using that out[of "take k d" x] fault(1,3) d by (cases "k = 0") auto
    then show thesis
      using fault eq d by (intro that[of EFAULT "m\<lparr>um_byte := um_write (um_byte m) a (take k d)\<rparr>"]) auto
  qed
qed


definition ex_umem :: umem where
  "ex_umem = \<lparr>um_space = Some 0, um_byte = (\<lambda>a. if a < 0x1000 then Some 0 else None), um_ro = (\<lambda>_. False)\<rparr>"


lemma copyout_back:
  assumes "unat len \<le> length src" and "no_ro m a (unat len)" and "length dest = unat len"
    and "copyout m src a len = Some (ESUCCESS, m')"
  shows "copyin m' a dest len = (ESUCCESS, take (unat len) src)"
proof -
  define d where "d = take (unat len) src"
  have d: "length d = unat len" "(of_nat (length d) :: u32) = len" "length d < 2 ^ 32"
    using assms(1) unat_u32[of len] by (auto simp: d_def)
  have eq: "copyout m src a len = copyout m d a (of_nat (length d))"
    unfolding d_def by (rule copyout_as_whole[OF assms(1)])
  have ro: "no_ro m a (length d)" using assms(2) d by simp
  have *: "m' = m\<lparr>um_byte := um_write (um_byte m) a d\<rparr> \<and> in_user a len \<and> um_present m a (unat len)"
    using ro d(3) by (cases rule: copyout_cases) (use eq assms(4) d in simp_all)
  then have m': "m' = m\<lparr>um_byte := um_write (um_byte m) a d\<rparr>" and user: "in_user a len"
    and pres: "um_present m a (unat len)" by simp_all
  have full: "length (user_load m' a (unat len)) = unat len"
    using pres by (simp add: m' user_load_full um_write_present)
  have "user_load m' a (unat len) = d"
  proof (rule nth_equalityI)
    fix i assume i: "i < length (user_load m' a (unat len))"
    then have "um_byte m' (a + of_nat i) = Some (user_load m' a (unat len) ! i)" by (rule user_load_nth)
    then show "user_load m' a (unat len) ! i = d ! i"
      using i full d um_write_nth[of i d "um_byte m" a] by (simp add: m')
  qed (simp add: full d)
  then show ?thesis
    using full user assms(3) d copycheck_iff[of a len] by (simp add: copyin_def d_def[symmetric])
qed

text \<open>C32. What \<open>copyout\<close> put into user memory \<open>copyin\<close> gets back.\<close>

theorem copyout_copyin:
  assumes "unat len \<le> length src" and "no_ro m a (unat len)" and "length dest = unat len"
    and "copyout m src a len = Some (ESUCCESS, m')"
  shows "copyin m' a dest len = (ESUCCESS, take (unat len) src)"
  by (rule copyout_back[OF assms])

theorem copyout_copyin_witness:
  "\<exists>m'. copyout ex_umem [7, 8] 0x10 2 = Some (ESUCCESS, m') \<and> copyin m' 0x10 [0, 0] 2 = (ESUCCESS, [7, 8])"
proof -
  have ro: "no_ro ex_umem 0x10 (unat (2 :: u32))" by (simp add: no_ro_def ex_umem_def)
  have "copyout ex_umem [7, 8] 0x10 2
      = Some (ESUCCESS, ex_umem\<lparr>um_byte := (um_byte ex_umem)(0x10 \<mapsto> 7, 0x11 \<mapsto> 8)\<rparr>)"
    by (simp add: copyout_def copycheck_def USERTOP_def MIPS_KSEG0_def ex_umem_def)
  then show ?thesis using copyout_copyin[OF _ ro, of "[7, 8]" "[0, 0]"] by auto
qed

subsection \<open>Strings\<close>

definition cstr :: "u8 list \<Rightarrow> bool" where
  "cstr s \<longleftrightarrow> s \<noteq> [] \<and> last s = 0 \<and> 0 \<notin> set (butlast s)"

lemma cstr_Cons: "cstr (b # s) \<longleftrightarrow> (if s = [] then b = 0 else b \<noteq> 0 \<and> cstr s)"
  by (auto simp: cstr_def)

lemma copystr_in_Inr:
  "copystr_in m a maxlen stoplen = Inr s \<longleftrightarrow>
     cstr s \<and> length s \<le> min maxlen stoplen \<and> user_load m a (length s) = s"
proof (induction maxlen arbitrary: a stoplen s)
  case 0
  show ?case by (auto simp: copystr_in.simps cstr_def)
next
  case (Suc n)
  show ?case
  proof (cases "stoplen = 0 \<or> um_byte m a = None \<or> s = []")
    case True
    then show ?thesis
      by (cases s) (auto simp: copystr_in.simps[of m a] cstr_def split: option.splits sum.splits)
  next
    case False
    then obtain k b c s' where "stoplen = Suc k" "um_byte m a = Some b" "s = c # s'"
      by (metis not0_implies_Suc option.exhaust list.exhaust)
    then show ?thesis using Suc.IH[of "a + 1" k s']
      by (auto simp: copystr_in.simps[of m a] cstr_Cons split: sum.splits)
        (auto simp: cstr_def)
  qed
qed

lemma copystr_in_long:
  "copystr_in m a maxlen stoplen = Inl ENAMETOOLONG \<longleftrightarrow>
     maxlen \<le> stoplen \<and> um_present m a maxlen \<and> 0 \<notin> set (user_load m a maxlen)"
proof (induction maxlen arbitrary: a stoplen)
  case 0
  show ?case by (simp add: copystr_in.simps um_present_def)
next
  case (Suc n)
  show ?case
  proof (cases "stoplen = 0 \<or> um_byte m a = None")
    case True
    then show ?thesis by (auto simp: copystr_in.simps[of m a] um_present_Suc)
  next
    case False
    then obtain k b where "stoplen = Suc k" "um_byte m a = Some b"
      by (metis not0_implies_Suc option.exhaust)
    then show ?thesis using Suc.IH[of "a + 1" k]
      by (auto simp: copystr_in.simps[of m a] um_present_Suc split: sum.splits)
  qed
qed

lemma copystr_in_err: "copystr_in m a maxlen stoplen = Inl e \<Longrightarrow> e = EFAULT \<or> e = ENAMETOOLONG"
proof (induction maxlen arbitrary: a stoplen)
  case 0
  then show ?case by (subst (asm) copystr_in.simps) (auto split: if_splits)
next
  case (Suc n)
  from Suc.prems show ?case
    by (subst (asm) copystr_in.simps) (auto split: if_splits option.splits sum.splits dest: Suc.IH)
qed

lemma copycheck_stop:
  assumes "0 < len" and "unat a + unat len \<le> 2 ^ 32"
  shows "copycheck a len = (if unat a < 2 ^ 31
      then (ESUCCESS, if unat a + unat len \<le> 2 ^ 31 then len else USERTOP - a) else (EFAULT, len))"
proof -
  have ut: "unat USERTOP = 2 ^ 31" by (simp add: USERTOP_def MIPS_KSEG0_def)
  have l: "0 < unat len" using assms(1) by (simp add: unat_gt_0 word_gt_0)
  have "unat (len - 1) = unat len - 1" using assms(1) by (simp add: unat_minus_one)
  then have "unat (a + (len - 1)) = unat a + (unat len - 1)"
    using assms(2) l by (subst unat_add_lem[THEN iffD1]) simp_all
  then have top: "unat (a + len - 1) = unat a + (unat len - 1)" by (simp add: algebra_simps)
  show ?thesis using l ut by (auto simp: copycheck_def Let_def word_less_nat_alt word_le_nat_alt top)
qed

lemma copyinstr_outcome:
  assumes "0 < len" and "unat a + unat len \<le> 2 ^ 32"
  shows "copyinstr m a len = Inr s \<longleftrightarrow>
           cstr s \<and> length s \<le> unat len \<and> unat a + length s \<le> 2 ^ 31 \<and> user_load m a (length s) = s"
    and "copyinstr m a len = Inl ENAMETOOLONG \<longleftrightarrow>
           unat a + unat len \<le> 2 ^ 31 \<and> um_present m a (unat len) \<and> 0 \<notin> set (user_load m a (unat len))"
    and "copyinstr m a len = Inl e \<Longrightarrow> e = EFAULT \<or> e = ENAMETOOLONG"
proof -
  have ut: "unat USERTOP = 2 ^ 31" by (simp add: USERTOP_def MIPS_KSEG0_def)
  have stop: "unat (USERTOP - a) = 2 ^ 31 - unat a" if "unat a < 2 ^ 31"
    using that ut by (simp add: unat_sub word_le_nat_alt)
  have c: "unat a < 2 ^ 31" if "cstr s" "unat a + length s \<le> 2 ^ 31"
    using that by (cases s) (auto simp: cstr_def)
  have l: "0 < unat len" using assms(1) by (simp add: unat_gt_0 word_gt_0)
  note defs = copyinstr_def copycheck_stop[OF assms] copystr_in_Inr copystr_in_long
  show "copyinstr m a len = Inr s \<longleftrightarrow>
           cstr s \<and> length s \<le> unat len \<and> unat a + length s \<le> 2 ^ 31 \<and> user_load m a (length s) = s"
    using stop c by (auto simp: defs)
  show "copyinstr m a len = Inl ENAMETOOLONG \<longleftrightarrow>
           unat a + unat len \<le> 2 ^ 31 \<and> um_present m a (unat len) \<and> 0 \<notin> set (user_load m a (unat len))"
    using stop l by (auto simp: defs)
  show "e = EFAULT \<or> e = ENAMETOOLONG" if "copyinstr m a len = Inl e"
    using that copystr_in_err by (auto simp: copyinstr_def copycheck_stop[OF assms] split: if_splits)
qed

text \<open>C31. \<open>copyinstr\<close> returns exactly the terminated strings that a process really has.  For a
  buffer of \<open>len\<close> bytes that does not wrap around the address space: the call succeeds with
  \<open>s\<close> if and only if user memory at the address holds \<open>s\<close>, \<open>s\<close> ends at its first zero byte,
  and \<open>s\<close> fits both the buffer and the user half of the address space; it fails with
  \<open>ENAMETOOLONG\<close> if and only if \<open>len\<close> accessible user bytes hold no zero; otherwise it fails
  with \<open>EFAULT\<close>.\<close>

theorem copyinstr_correct:
  assumes "0 < len" and "unat a + unat len \<le> 2 ^ 32"
  shows "(copyinstr m a len = Inr s \<longleftrightarrow>
            cstr s \<and> length s \<le> unat len \<and> unat a + length s \<le> 2 ^ 31 \<and> user_load m a (length s) = s)
    \<and> (copyinstr m a len = Inl ENAMETOOLONG \<longleftrightarrow>
            unat a + unat len \<le> 2 ^ 31 \<and> um_present m a (unat len) \<and> 0 \<notin> set (user_load m a (unat len)))
    \<and> (copyinstr m a len = Inl e \<longrightarrow> e = EFAULT \<or> e = ENAMETOOLONG)"
  using copyinstr_outcome[OF assms] by blast

theorem copyinstr_correct_witness:
  "copyinstr (ex_umem\<lparr>um_byte := (um_byte ex_umem)(0x10 \<mapsto> 97)\<rparr>) 0x10 1024 = Inr [97, 0]
   \<and> copyinstr (ex_umem\<lparr>um_byte := (\<lambda>_. Some 97)\<rparr>) 0x10 1 = Inl ENAMETOOLONG"
  using copyinstr_correct[of 1024 "0x10" "ex_umem\<lparr>um_byte := (um_byte ex_umem)(0x10 \<mapsto> 97)\<rparr>" "[97, 0]"]
    copyinstr_correct[of 1 "0x10" "ex_umem\<lparr>um_byte := (\<lambda>_. Some 97)\<rparr>"]
  by (simp add: ex_umem_def cstr_def um_present_def)

end
