(* ===== verification/Sfs_Format.thy ===== *)
theory Sfs_Format
  imports Kernel_Words
begin

text \<open>
  The on-disk structures of the file system, \<open>src/kern/include/kern/sfs.h\<close>, and the bytes they
  occupy.  The code reads and writes a block straight into and out of the C structure; the machine
  is big-endian, so a structure is the big-endian words of its fields one after the other.
\<close>

unbundle bit_operations_syntax

section \<open>Structures\<close>

definition SFS_MAGIC :: u32 where "SFS_MAGIC = 0xabadf001"
definition SFS_NDIRECT :: nat where "SFS_NDIRECT = 15"
definition SFS_DBPERIDB :: nat where "SFS_DBPERIDB = 128"
definition SFS_NAMELEN :: nat where "SFS_NAMELEN = 60"
definition SFS_SB_LOCATION :: u32 where "SFS_SB_LOCATION = 0"
definition SFS_ROOT_LOCATION :: u32 where "SFS_ROOT_LOCATION = 1"
definition SFS_MAP_LOCATION :: u32 where "SFS_MAP_LOCATION = 2"
definition SFS_NOINO :: u32 where "SFS_NOINO = 0"
definition SFS_TYPE_INVAL :: u16 where "SFS_TYPE_INVAL = 0"
definition SFS_TYPE_FILE :: u16 where "SFS_TYPE_FILE = 1"
definition SFS_TYPE_DIR :: u16 where "SFS_TYPE_DIR = 2"

record sfs_super =
  sp_magic :: u32
  sp_nblocks :: u32
  sp_volname :: "u8 list"
  sp_reserved :: "u32 list"

record sfs_inode =
  sfi_size :: u32
  sfi_type :: u16
  sfi_linkcount :: u16
  sfi_direct :: "u32 list"
  sfi_indirect :: u32
  sfi_waste :: "u32 list"

record sfs_dir =
  sfd_ino :: u32
  sfd_name :: "u8 list"

section \<open>Inodes, superblocks, directory entries\<close>

definition put_inode :: "sfs_inode \<Rightarrow> u8 list" where
  "put_inode i = put_words ([sfi_size i, push_bit 16 (ucast (sfi_type i)) OR ucast (sfi_linkcount i)]
     @ sfi_direct i @ [sfi_indirect i] @ sfi_waste i)"

definition get_inode :: "u8 list \<Rightarrow> sfs_inode" where
  "get_inode bs = (let ws = get_words 128 bs in
     \<lparr>sfi_size = ws ! 0, sfi_type = ucast (drop_bit 16 (ws ! 1)), sfi_linkcount = ucast (ws ! 1),
      sfi_direct = take 15 (drop 2 ws), sfi_indirect = ws ! 17, sfi_waste = drop 18 ws\<rparr>)"

definition put_super :: "sfs_super \<Rightarrow> u8 list" where
  "put_super s = put_words [sp_magic s, sp_nblocks s] @ sp_volname s @ put_words (sp_reserved s)"

definition get_super :: "u8 list \<Rightarrow> sfs_super" where
  "get_super bs = (let ws = get_words 2 bs in
     \<lparr>sp_magic = ws ! 0, sp_nblocks = ws ! 1, sp_volname = take 32 (drop 8 bs),
      sp_reserved = get_words 118 (drop 40 bs)\<rparr>)"

definition put_dir :: "sfs_dir \<Rightarrow> u8 list" where
  "put_dir d = be32_put (sfd_ino d) @ sfd_name d"

definition get_dir :: "u8 list \<Rightarrow> sfs_dir" where
  "get_dir bs = \<lparr>sfd_ino = be32_get (take 4 bs), sfd_name = drop 4 bs\<rparr>"

definition inode_ok :: "sfs_inode \<Rightarrow> bool" where
  "inode_ok i \<longleftrightarrow> length (sfi_direct i) = 15 \<and> length (sfi_waste i) = 110"

definition super_ok :: "sfs_super \<Rightarrow> bool" where
  "super_ok s \<longleftrightarrow> length (sp_volname s) = 32 \<and> length (sp_reserved s) = 118"

lemma halves_type: "ucast (drop_bit 16 (push_bit 16 (ucast t) OR ucast l :: u32)) = t" for t l :: u16
  by (rule bit_word_eqI)
    (auto simp: bit_or_iff bit_push_bit_iff bit_unsigned_iff bit_drop_bit_eq dest: bit_imp_le_length)

lemma halves_link: "ucast (push_bit 16 (ucast t) OR ucast l :: u32) = l" for t l :: u16
  by (rule bit_word_eqI)
    (auto simp: bit_or_iff bit_push_bit_iff bit_unsigned_iff dest: bit_imp_le_length)

lemma halves_join: "push_bit 16 (ucast (ucast (drop_bit 16 w) :: u16)) OR ucast (ucast w :: u16) = w" for w :: u32
  by (rule bit_word_eqI)
    (auto simp: bit_or_iff bit_push_bit_iff bit_unsigned_iff bit_drop_bit_eq)

lemma length_put_inode: "inode_ok i \<Longrightarrow> length (put_inode i) = 512"
  by (simp add: put_inode_def inode_ok_def)

lemma inode_ok_get: "inode_ok (get_inode bs)"
  by (simp add: get_inode_def inode_ok_def Let_def)

lemma get_put_inode [simp]: "inode_ok i \<Longrightarrow> get_inode (put_inode i) = i"
  unfolding get_inode_def put_inode_def inode_ok_def
  by (subst get_put_words) (simp_all add: halves_type halves_link nth_append del: drop_bit_or)

lemma put_get_inode:
  assumes "length bs = 512" shows "put_inode (get_inode bs) = bs"
proof -
  define ws where "ws = get_words 128 bs"
  have len: "length ws = 128" by (simp add: ws_def)
  have "drop 17 ws = ws ! 17 # drop 18 ws" using Cons_nth_drop_Suc[of 17 ws] len by simp
  moreover have "take 15 (drop 2 ws) @ drop 17 ws = drop 2 ws"
    using append_take_drop_id[of 15 "drop 2 ws"] by simp
  moreover have "ws ! 0 # ws ! 1 # drop 2 ws = ws"
    using Cons_nth_drop_Suc[of 0 ws] Cons_nth_drop_Suc[of 1 ws] len by (simp add: numeral_2_eq_2)
  ultimately have "[ws ! 0, ws ! 1] @ take 15 (drop 2 ws) @ [ws ! 17] @ drop 18 ws = ws" by simp
  then have "put_inode (get_inode bs) = put_words ws"
    by (simp add: put_inode_def get_inode_def Let_def ws_def[symmetric] halves_join)
  then show ?thesis using assms by (simp add: ws_def put_get_words)
qed

lemma length_put_super: "super_ok s \<Longrightarrow> length (put_super s) = 512"
  by (simp add: put_super_def super_ok_def)

lemma super_ok_get: "length bs = 512 \<Longrightarrow> super_ok (get_super bs)"
  by (simp add: get_super_def super_ok_def Let_def)

lemma get_put_super [simp]: "super_ok s \<Longrightarrow> get_super (put_super s) = s"
  unfolding get_super_def put_super_def super_ok_def
  by (subst get_put_words_append) simp_all

lemma get_put_dir [simp]: "get_dir (put_dir d) = d"
  by (simp add: get_dir_def put_dir_def)

lemma put_get_dir: "length bs = 64 \<Longrightarrow> put_dir (get_dir bs) = bs"
  by (simp add: get_dir_def put_dir_def be32_put_get)

end
