(* ===== verification/Kernel_Pid.thy ===== *)
theory Kernel_Pid
  imports Kernel_Uio Sfs_Format
begin

text \<open>
  Process ids and waiting for a process, \<open>src/kern/userprog/pid.c\<close> and \<open>progcalls.c\<close>.

  The table and the exit codes are two arrays of \<open>PID_MAX\<close> cells; a thread is its address.  Each
  function of \<open>pid.c\<close> that looks at the table does so with \<open>pid_mutex\<close> held from start to end, so
  it is one step of the model.  \<open>random\<close> is an argument.  \<open>sys_waitpid\<close> gives up its lock in the
  middle, in \<open>cv_wait\<close>: what it does before and after are two functions, and anything may happen to
  the table between them.
\<close>

definition PID_MAX :: nat where
  "PID_MAX = 128"

record pids =
  pid_table :: "nat option list"
  exitcodes :: "int list"

definition pid_setuptable :: "bool \<Rightarrow> pids option" where
  "pid_setuptable lock =
     (if lock then Some \<lparr>pid_table = replicate PID_MAX None, exitcodes = replicate PID_MAX (- 1)\<rparr> else None)"

text \<open>The search loop: the number of probes made and the slot it ends at.\<close>

function pid_probe :: "nat option list \<Rightarrow> nat \<Rightarrow> nat \<Rightarrow> (nat \<times> nat) option" where
  "pid_probe tab i search = do {
     t \<leftarrow> rd tab (int search);
     if t \<noteq> None \<and> i < PID_MAX
     then pid_probe tab (i + 1) (if search + 1 = PID_MAX then 1 else search + 1)
     else Some (i, search) }"
  by auto
termination by (relation "measure (\<lambda>(tab, i, search). PID_MAX - i)") auto

declare pid_probe.simps [simp del]

definition pid_getnext :: "u32 \<Rightarrow> nat \<Rightarrow> pids \<Rightarrow> (int \<times> pids) option" where
  "pid_getnext rnd master p = do {
     (i, search) \<leftarrow> pid_probe (pid_table p) 0 (unat (rnd mod of_nat PID_MAX));
     if i < PID_MAX
     then do {
       tab \<leftarrow> wr (pid_table p) (int search) (Some master);
       codes \<leftarrow> wr (exitcodes p) (int search) (- 1);
       Some (int search + 1, \<lparr>pid_table = tab, exitcodes = codes\<rparr>) }
     else Some (0, p) }"

definition pid_getthread :: "int \<Rightarrow> pids \<Rightarrow> nat option option" where
  "pid_getthread pid p = rd (pid_table p) (pid - 1)"

definition pid_getexitcode :: "int \<Rightarrow> pids \<Rightarrow> int option" where
  "pid_getexitcode pid p = rd (exitcodes p) (pid - 1)"

definition pid_setexitcode :: "int \<Rightarrow> int \<Rightarrow> pids \<Rightarrow> pids option" where
  "pid_setexitcode pid exitcode p = do {
     codes \<leftarrow> wr (exitcodes p) (pid - 1) exitcode;
     Some (p\<lparr>exitcodes := codes\<rparr>) }"

text \<open>
  \<open>ppid\<close> gives the field \<open>t_ppid\<close> of the threads that exist.  The loop may not end, which is
  \<open>None\<close>; it may follow a null pointer, which is \<open>Some None\<close>.
\<close>

partial_function (option) pid_is_child :: "pids \<Rightarrow> (nat \<rightharpoonup> int) \<Rightarrow> nat option \<Rightarrow> int \<Rightarrow> bool option option" where
  "pid_is_child p ppid thr pid2 =
     (case Option.bind thr ppid of
        None \<Rightarrow> Some None
      | Some pp \<Rightarrow>
          if pp = 0 then Some (Some False)
          else if pp = pid2 then Some (Some True)
          else (case pid_getthread pp p of
                  None \<Rightarrow> Some None
                | Some thr \<Rightarrow> pid_is_child p ppid thr pid2))"

definition pid_clear :: "int \<Rightarrow> pids \<Rightarrow> pids option" where
  "pid_clear pid p =
     (if pid \<le> 0 \<or> pid > int PID_MAX then Some p
      else do { tab \<leftarrow> wr (pid_table p) (pid - 1) None; Some (p\<lparr>pid_table := tab\<rparr>) })"

section \<open>Exit and wait\<close>

datatype wait_outcome = Waited "errno + int" umem | Sleeps nat

text \<open>The exit code handed to the caller.\<close>

definition wait_report :: "int \<Rightarrow> int \<Rightarrow> vaddr \<Rightarrow> umem \<Rightarrow> wait_outcome option" where
  "wait_report pid exitcode status m = do {
     (result, m) \<leftarrow> copyout m (be32_put (word_of_int exitcode)) status 4;
     Some (Waited (if result \<noteq> ESUCCESS then Inl result else Inr pid) m) }"

text \<open>\<open>cur\<close> and \<open>self\<close> are the calling thread and its process id.\<close>

definition sys_waitpid :: "pids \<Rightarrow> (nat \<rightharpoonup> int) \<Rightarrow> nat \<Rightarrow> int \<Rightarrow> umem \<Rightarrow> int \<Rightarrow> vaddr \<Rightarrow> int \<Rightarrow> wait_outcome option" where
  "sys_waitpid p ppid cur self m pid status options =
     (if status = 0 then Some (Waited (Inl EFAULT) m)
      else if pid = self \<or> pid \<le> 0 \<or> pid > int PID_MAX \<or> options \<noteq> 0 then Some (Waited (Inl EINVAL) m)
      else do {
        exitcode \<leftarrow> pid_getexitcode pid p;
        if exitcode \<noteq> - 1 then wait_report pid exitcode status m
        else do {
          thread \<leftarrow> pid_getthread pid p;
          case thread of
            None \<Rightarrow> Some (Waited (Inl EINVAL) m)
          | Some t \<Rightarrow> do {
              r \<leftarrow> pid_is_child p ppid (Some cur) pid;
              child \<leftarrow> r;
              Some (if child then Waited (Inl EINVAL) m else Sleeps t) } } })"

definition sys_waitpid_woken :: "pids \<Rightarrow> umem \<Rightarrow> int \<Rightarrow> vaddr \<Rightarrow> wait_outcome option" where
  "sys_waitpid_woken p m pid status = do {
     exitcode \<leftarrow> pid_getexitcode pid p;
     wait_report pid exitcode status m }"

section \<open>Lemmas\<close>

definition pids_ok :: "pids \<Rightarrow> bool" where
  "pids_ok p \<longleftrightarrow> length (pid_table p) = PID_MAX \<and> length (exitcodes p) = PID_MAX"

definition taken :: "pids \<Rightarrow> nat \<Rightarrow> bool" where
  "taken p s \<longleftrightarrow> pid_table p ! s \<noteq> None"

definition next_slot :: "nat \<Rightarrow> nat" where
  "next_slot s = (if s + 1 = PID_MAX then 1 else s + 1)"

lemma next_slot_less: "s < PID_MAX \<Longrightarrow> next_slot s < PID_MAX"
  by (auto simp: next_slot_def PID_MAX_def)

lemma next_slots:
  assumes "s < PID_MAX" "k \<le> 127"
  shows "(next_slot ^^ k) s = (if s + k < PID_MAX then s + k else s + k - 127)"
  using assms(2)
proof (induction k)
  case 0 then show ?case using assms(1) by simp
next
  case (Suc k)
  then have "(next_slot ^^ k) s = (if s + k < PID_MAX then s + k else s + k - 127)" by simp
  then show ?case using Suc.prems assms(1) next_slot_def[of "(next_slot ^^ k) s"] by (auto simp: PID_MAX_def)
qed

lemma next_slots_cover:
  assumes "s < PID_MAX" "t \<in> insert s {1..<PID_MAX}"
  shows "\<exists>k<PID_MAX. (next_slot ^^ k) s = t"
proof (cases "s \<le> t")
  case True
  then have "(next_slot ^^ (t - s)) s = t" using assms next_slots[of s "t - s"] by (auto simp: PID_MAX_def)
  moreover have "t - s < PID_MAX" using assms by (auto simp: PID_MAX_def)
  ultimately show ?thesis by blast
next
  case False
  then have "(next_slot ^^ (t + 127 - s)) s = t" using assms next_slots[of s "t + 127 - s"] by (auto simp: PID_MAX_def)
  moreover have "t + 127 - s < PID_MAX" using False by (simp add: PID_MAX_def)
  ultimately show ?thesis by blast
qed

lemma next_slots_inside:
  assumes "s < PID_MAX" "k < PID_MAX" shows "(next_slot ^^ k) s \<in> insert s {1..<PID_MAX}"
proof (cases k)
  case (Suc j)
  have "(next_slot ^^ k) s = (if s + k < PID_MAX then s + k else s + k - 127)"
    using assms by (intro next_slots) (auto simp: PID_MAX_def)
  then show ?thesis using Suc assms by (auto simp: PID_MAX_def)
qed simp

lemma pid_probe_ok:
  assumes "length tab = PID_MAX" "s < PID_MAX" "i \<le> PID_MAX"
  shows "\<exists>i' s'. pid_probe tab i s = Some (i', s') \<and> s' < PID_MAX \<and> i \<le> i' \<and> i' \<le> PID_MAX
     \<and> s' = (next_slot ^^ (i' - i)) s \<and> (i' < PID_MAX \<longrightarrow> tab ! s' = None)
     \<and> (\<forall>k<i' - i. tab ! ((next_slot ^^ k) s) \<noteq> None)"
  using assms(2,3)
proof (induction "PID_MAX - i" arbitrary: i s)
  case 0
  then have "pid_probe tab i s = Some (i, s)" using assms(1) by (subst pid_probe.simps) simp
  then show ?case using 0 by simp
next
  case (Suc n)
  show ?case
  proof (cases "tab ! s = None")
    case True
    then have "pid_probe tab i s = Some (i, s)" using assms(1) Suc.prems by (subst pid_probe.simps) simp
    then show ?thesis using Suc.prems True by auto
  next
    case False
    have i: "i < PID_MAX" using Suc.hyps(2) by simp
    have eq: "pid_probe tab i s = pid_probe tab (i + 1) (next_slot s)"
      using False i assms(1) Suc.prems by (subst pid_probe.simps) (simp add: next_slot_def)
    have n: "n = PID_MAX - (i + 1)" using Suc.hyps(2) by simp
    obtain i' s' where h: "pid_probe tab (i + 1) (next_slot s) = Some (i', s')" "s' < PID_MAX" "i + 1 \<le> i'"
      "i' \<le> PID_MAX" "s' = (next_slot ^^ (i' - (i + 1))) (next_slot s)" "i' < PID_MAX \<longrightarrow> tab ! s' = None"
      "\<forall>k<i' - (i + 1). tab ! ((next_slot ^^ k) (next_slot s)) \<noteq> None"
      using Suc.hyps(1)[OF n next_slot_less[OF Suc.prems(1)]] i by auto
    have d: "i' - i = Suc (i' - (i + 1))" using h(3) by simp
    have "tab ! ((next_slot ^^ k) s) \<noteq> None" if "k < i' - i" for k
      using that h(7) False by (cases k) (auto simp: d funpow_swap1)
    then show ?thesis using h eq by (auto simp: d funpow_swap1)
  qed
qed

lemma pid_start: "unat (rnd mod of_nat PID_MAX :: u32) < PID_MAX"
  by (simp add: PID_MAX_def unat_mod_distrib)

lemma pid_getnext_outcome:
  assumes "pids_ok p"
  shows "\<exists>pid p'. pid_getnext rnd master p = Some (pid, p') \<and> pids_ok p'
     \<and> (if pid = 0 then p' = p \<and> (\<forall>s\<in>insert (unat (rnd mod 128)) {1..<PID_MAX}. taken p s)
        else \<exists>s<PID_MAX. pid = int s + 1 \<and> \<not> taken p s
          \<and> p' = \<lparr>pid_table = (pid_table p)[s := Some master], exitcodes = (exitcodes p)[s := - 1]\<rparr>)"
proof -
  let ?s = "unat (rnd mod of_nat PID_MAX :: u32)"
  have len: "length (pid_table p) = PID_MAX" "length (exitcodes p) = PID_MAX" using assms by (simp_all add: pids_ok_def)
  obtain i s where h: "pid_probe (pid_table p) 0 ?s = Some (i, s)" "s < PID_MAX" "i \<le> PID_MAX"
    "i < PID_MAX \<longrightarrow> pid_table p ! s = None" "\<forall>k<i. pid_table p ! ((next_slot ^^ k) ?s) \<noteq> None"
    using pid_probe_ok[OF len(1) pid_start, of 0 rnd] by (auto simp del: not_None_eq)
  show ?thesis
  proof (cases "i < PID_MAX")
    case True
    then show ?thesis using h len by (auto simp: pid_getnext_def taken_def pids_ok_def)
  next
    case False
    have "taken p t" if t: "t \<in> insert ?s {1..<PID_MAX}" for t
      using next_slots_cover[OF pid_start t] h(5) False h(3) by (auto simp: taken_def simp del: not_None_eq)
    then show ?thesis using False h assms by (auto simp: pid_getnext_def PID_MAX_def)
  qed
qed

lemma pid_getnext_free:
  assumes "pid_getnext rnd master p = Some (pid, p')" "pids_ok p" "pid \<noteq> 0"
  shows "\<exists>s\<in>insert (unat (rnd mod 128)) {1..<PID_MAX}. \<not> taken p s"
proof -
  let ?s = "unat (rnd mod of_nat PID_MAX :: u32)"
  have len: "length (pid_table p) = PID_MAX" using assms by (simp add: pids_ok_def)
  obtain i s where h: "pid_probe (pid_table p) 0 ?s = Some (i, s)" "s = (next_slot ^^ i) ?s"
    "i < PID_MAX \<longrightarrow> pid_table p ! s = None"
    using pid_probe_ok[OF len pid_start, of 0 rnd] by (auto simp del: not_None_eq)
  have i: "i < PID_MAX" using assms h(1) by (auto simp: pid_getnext_def split: if_splits)
  then have "s \<in> insert ?s {1..<PID_MAX}" using next_slots_inside[OF pid_start i, of rnd] h(2) by simp
  then show ?thesis using h(3) i by (auto simp: taken_def PID_MAX_def)
qed

text \<open>The processes above a thread, as the walk of \<open>pid_is_child\<close> meets them.\<close>

definition parent :: "pids \<Rightarrow> (nat \<rightharpoonup> int) \<Rightarrow> nat \<Rightarrow> nat option" where
  "parent p ppid t = (case ppid t of Some pp \<Rightarrow> if pp = 0 then None else Option.bind (pid_getthread pp p) id | None \<Rightarrow> None)"

inductive ancestor :: "pids \<Rightarrow> (nat \<rightharpoonup> int) \<Rightarrow> nat \<Rightarrow> int \<Rightarrow> bool" for p ppid where
  ancestor_parent: "ppid t = Some pp \<Longrightarrow> pp \<noteq> 0 \<Longrightarrow> ancestor p ppid t pp"
| ancestor_up: "parent p ppid t = Some t' \<Longrightarrow> ancestor p ppid t' a \<Longrightarrow> ancestor p ppid t a"

inductive_cases ancestorE: "ancestor p ppid t a"

text \<open>
  Every thread that exists has a parent that exists, or none, and following parents comes to an
  end: \<open>depth\<close> is a bound.
\<close>

definition family :: "pids \<Rightarrow> (nat \<rightharpoonup> int) \<Rightarrow> (nat \<Rightarrow> nat) \<Rightarrow> bool" where
  "family p ppid depth \<longleftrightarrow> (\<forall>t pp. ppid t = Some pp \<and> pp \<noteq> 0 \<longrightarrow>
     (\<exists>t'. pid_getthread pp p = Some (Some t') \<and> t' \<in> dom ppid \<and> depth t' < depth t))"

lemma pid_is_child_ancestor:
  assumes "family p ppid depth" "t \<in> dom ppid"
  shows "pid_is_child p ppid (Some t) pid2 = Some (Some (ancestor p ppid t pid2))"
  using assms(2)
proof (induction "depth t" arbitrary: t rule: less_induct)
  case less
  obtain pp where pp: "ppid t = Some pp" using less.prems by auto
  show ?case
  proof (cases "pp = 0 \<or> pp = pid2")
    case True
    have "ancestor p ppid t pid2 \<longleftrightarrow> pp = pid2 \<and> pp \<noteq> 0"
      using True pp by (auto intro: ancestor_parent elim: ancestorE simp: parent_def)
    then show ?thesis using True pp by (subst pid_is_child.simps) auto
  next
    case False
    then obtain t' where t': "pid_getthread pp p = Some (Some t')" "t' \<in> dom ppid" "depth t' < depth t"
      using assms(1) pp unfolding family_def by blast
    have "parent p ppid t = Some t'" using t' pp False by (simp add: parent_def)
    then have "ancestor p ppid t pid2 \<longleftrightarrow> ancestor p ppid t' pid2"
      using False pp by (auto intro: ancestor_up elim: ancestorE)
    moreover have "pid_is_child p ppid (Some t) pid2 = pid_is_child p ppid (Some t') pid2"
      using False pp t' by (subst pid_is_child.simps) simp
    ultimately show ?thesis using less.hyps[OF t'(3,2)] by simp
  qed
qed

text \<open>A set of threads that the walk never leaves.\<close>

lemma pid_is_child_trapped:
  assumes "\<forall>t\<in>S. \<exists>pp t'. ppid t = Some pp \<and> pp \<noteq> 0 \<and> pp \<noteq> pid2 \<and> pid_getthread pp p = Some (Some t') \<and> t' \<in> S"
    and "t \<in> S"
  shows "pid_is_child p ppid (Some t) pid2 = None"
proof -
  let ?Q = "\<lambda>q pp thr x r. q = p \<longrightarrow> pp = ppid \<longrightarrow> x = pid2 \<longrightarrow> thr \<notin> Some ` S"
  have *: "?Q q pp thr x r" if "pid_is_child q pp thr x = Some r" for q pp thr x r
  proof (rule pid_is_child.raw_induct[of ?Q, OF _ that])
    fix f q pp thr x r
    assume IH: "\<And>q pp thr x r. f q pp thr x = Some r \<Longrightarrow> ?Q q pp thr x r"
      and run: "(case Option.bind thr pp of None \<Rightarrow> Some None
        | Some a \<Rightarrow> if a = 0 then Some (Some False) else if a = x then Some (Some True)
            else (case pid_getthread a q of None \<Rightarrow> Some None | Some thr \<Rightarrow> f q pp thr x)) = Some r"
    show "?Q q pp thr x r"
    proof (intro impI notI)
      assume eqs: "q = p" "pp = ppid" "x = pid2" and "thr \<in> Some ` S"
      then obtain t where t: "thr = Some t" "t \<in> S" by blast
      obtain a t' where a: "ppid t = Some a" "a \<noteq> 0" "a \<noteq> pid2" "pid_getthread a p = Some (Some t')" "t' \<in> S"
        using assms(1) t(2) by blast
      have "f p ppid (Some t') pid2 = Some r" using run a t eqs by simp
      then show False using IH a(5) by blast
    qed
  qed
  show ?thesis using *[of p ppid "Some t" pid2] assms(2) by (cases "pid_is_child p ppid (Some t) pid2") auto
qed

section \<open>Properties\<close>

text \<open>C25. Handing out a process id: a number from 1 to \<open>PID_MAX\<close> that no process has is taken and
  its exit code is reset, nothing else changes; the call fails, with 0, exactly when all ids but
  number 1 and the one that the search started at are taken, so id 1 is not found unless the random
  number points at it.\<close>

theorem pid_getnext_correct:
  assumes "pids_ok p"
  shows "\<exists>pid p'. pid_getnext rnd master p = Some (pid, p') \<and> pids_ok p' \<and> 0 \<le> pid \<and> pid \<le> int PID_MAX
     \<and> (pid = 0 \<longleftrightarrow> (\<forall>s\<in>insert (unat (rnd mod 128)) {1..<PID_MAX}. taken p s))
     \<and> (pid = 0 \<longrightarrow> p' = p)
     \<and> (pid \<noteq> 0 \<longrightarrow> pid_getthread pid p = Some None \<and> pid_getthread pid p' = Some (Some master)
          \<and> pid_getexitcode pid p' = Some (- 1)
          \<and> (\<forall>q. q \<noteq> pid \<longrightarrow> pid_getthread q p' = pid_getthread q p \<and> pid_getexitcode q p' = pid_getexitcode q p))"
proof -
  obtain pid p' where g: "pid_getnext rnd master p = Some (pid, p')" "pids_ok p'"
    "if pid = 0 then p' = p \<and> (\<forall>s\<in>insert (unat (rnd mod 128)) {1..<PID_MAX}. taken p s)
     else \<exists>s<PID_MAX. pid = int s + 1 \<and> \<not> taken p s
       \<and> p' = \<lparr>pid_table = (pid_table p)[s := Some master], exitcodes = (exitcodes p)[s := - 1]\<rparr>"
    using pid_getnext_outcome[OF assms] by blast
  show ?thesis
  proof (cases "pid = 0")
    case True
    then show ?thesis using g by auto
  next
    case False
    then obtain s where s: "s < PID_MAX" "pid = int s + 1" "\<not> taken p s"
      "p' = \<lparr>pid_table = (pid_table p)[s := Some master], exitcodes = (exitcodes p)[s := - 1]\<rparr>"
      using g(3) by auto
    have free: "\<exists>s\<in>insert (unat (rnd mod 128)) {1..<PID_MAX}. \<not> taken p s"
      using pid_getnext_free[OF g(1) assms False] .
    have "pid_getthread q p' = pid_getthread q p \<and> pid_getexitcode q p' = pid_getexitcode q p" if "q \<noteq> pid" for q
      using that s by (auto simp: pid_getthread_def pid_getexitcode_def rd_def nth_list_update)
    moreover have "pid_getthread pid p = Some None \<and> pid_getthread pid p' = Some (Some master)
       \<and> pid_getexitcode pid p' = Some (- 1)"
      using s assms by (simp add: pid_getthread_def pid_getexitcode_def taken_def pids_ok_def)
    ultimately show ?thesis using g(1,2) False free s(1,2) by auto
  qed
qed

theorem pid_getnext_correct_witness:
  "\<exists>p p'. pid_setuptable True = Some p \<and> pid_getnext 133 7 p = Some (6, p') \<and> pid_getthread 6 p' = Some (Some 7)"
proof -
  let ?p = "\<lparr>pid_table = replicate PID_MAX None, exitcodes = replicate PID_MAX (- 1)\<rparr>"
  have "(case pid_getnext 133 7 ?p of Some (i, _) \<Rightarrow> i = 6 | None \<Rightarrow> False)" by code_simp
  then show ?thesis using pid_getnext_correct[of ?p 133 7]
    by (auto simp: pids_ok_def pid_setuptable_def split: option.splits)
qed


definition ex_pids :: pids where
  "ex_pids = \<lparr>pid_table = replicate PID_MAX None, exitcodes = replicate PID_MAX (- 1)\<rparr>"


text \<open>C27. As long as every process has a parent that exists and the parents form no cycle, waiting
  for a process whose exit code is -1 comes to a decision: the walk up the parents ends, the caller
  is refused when the process it names is one of its ancestors, and otherwise goes to sleep on the
  condition variable of that process; it need not be a child.\<close>

theorem sys_waitpid_decides:
  assumes "family p ppid depth" "cur \<in> dom ppid" "status \<noteq> 0"
    and "pid \<noteq> self" "1 \<le> pid" "pid \<le> int PID_MAX"
    and "pid_getexitcode pid p = Some (- 1)" "pid_getthread pid p = Some (Some t)"
  shows "sys_waitpid p ppid cur self m pid status 0 =
     Some (if ancestor p ppid cur pid then Waited (Inl EINVAL) m else Sleeps t)"
  using assms(3-8) pid_is_child_ancestor[OF assms(1,2), of pid] by (simp add: sys_waitpid_def)

theorem sys_waitpid_decides_witness:
  "\<exists>p1 p2 p3. pid_getnext 4 10 ex_pids = Some (5, p1) \<and> pid_getnext 5 11 p1 = Some (6, p2) \<and> pid_getnext 6 12 p2 = Some (7, p3)
     \<and> sys_waitpid p3 [10 \<mapsto> 0, 11 \<mapsto> 5, 12 \<mapsto> 5] 11 6 ex_umem 7 0x10 0 =
         Some (if ancestor p3 [10 \<mapsto> 0, 11 \<mapsto> 5, 12 \<mapsto> 5] 11 7 then Waited (Inl EINVAL) ex_umem else Sleeps 12)"
proof -
  define p3 where "p3 = \<lparr>pid_table = (replicate PID_MAX None)[4 := Some 10, 5 := Some 11, 6 := Some 12],
    exitcodes = replicate PID_MAX (- 1)\<rparr>"
  let ?f = "[10 \<mapsto> 0, 11 \<mapsto> 5, 12 \<mapsto> 5] :: nat \<rightharpoonup> int"
  have run: "do { (a, p) \<leftarrow> pid_getnext 4 10 ex_pids; (b, p) \<leftarrow> pid_getnext 5 11 p; (c, p) \<leftarrow> pid_getnext 6 12 p;
     Some (a, b, c, pid_table p, exitcodes p) } = Some (5, 6, 7, pid_table p3, exitcodes p3)"
    unfolding p3_def by code_simp
  then obtain p1 p2 where s: "pid_getnext 4 10 ex_pids = Some (5, p1)" "pid_getnext 5 11 p1 = Some (6, p2)"
    "pid_getnext 6 12 p2 = Some (7, p3)"
    by (auto simp: bind_eq_Some_conv)
  have g: "pid_getthread 5 p3 = Some (Some 10)" "pid_getthread 7 p3 = Some (Some 12)" "pid_getexitcode 7 p3 = Some (- 1)"
    by (simp_all add: pid_getthread_def pid_getexitcode_def rd_def p3_def PID_MAX_def)
  have "family p3 ?f (\<lambda>t. if t = 10 then 0 else 1)" using g(1) by (auto simp: family_def split: if_splits)
  then show ?thesis
    using s g sys_waitpid_decides[of p3 ?f "\<lambda>t. if t = 10 then 0 else 1" 11 "0x10" 7 6 12 ex_umem]
    by (auto simp: PID_MAX_def)
qed

text \<open>C28. A process whose parent has exited brings the kernel down by waiting for a running process:
  the walk up the parents finds no thread under the parent's id and follows the null pointer.\<close>

theorem waitpid_orphan_crashes:
  assumes "ppid cur = Some pp" "pp \<noteq> 0" "pp \<noteq> pid" "pid_getthread pp p = Some None"
    and "status \<noteq> 0" "pid \<noteq> self" "1 \<le> pid" "pid \<le> int PID_MAX"
    and "pid_getexitcode pid p = Some (- 1)" "pid_getthread pid p = Some (Some t)"
  shows "pid_is_child p ppid (Some cur) pid = Some None \<and> sys_waitpid p ppid cur self m pid status 0 = None"
proof -
  have "pid_is_child p ppid (Some cur) pid = pid_is_child p ppid None pid"
    using assms(1-4) by (subst pid_is_child.simps) simp
  also have "\<dots> = Some None" by (subst pid_is_child.simps) simp
  finally show ?thesis using assms(5-10) by (simp add: sys_waitpid_def)
qed

text \<open>Three processes start, the second a child of the first; the first exits.  Then its id goes to
  a child of the second.\<close>

definition ex_orphan :: "pids option" where
  "ex_orphan = do {
     (a, p) \<leftarrow> pid_getnext 4 10 ex_pids;
     (b, p) \<leftarrow> pid_getnext 5 11 p;
     (c, p) \<leftarrow> pid_getnext 6 12 p;
     kassert (a = 5 \<and> b = 6 \<and> c = 7);
     pid_clear 5 p }"

definition ex_reuse :: "pids option" where
  "ex_reuse = do { p \<leftarrow> ex_orphan; (d, p) \<leftarrow> pid_getnext 4 13 p; kassert (d = 5); Some p }"

theorem waitpid_orphan_crashes_witness:
  "\<exists>p. ex_orphan = Some p \<and> sys_waitpid p [11 \<mapsto> 5, 12 \<mapsto> 0] 11 6 ex_umem 7 0x10 0 = None"
proof -
  have "(case ex_orphan of None \<Rightarrow> False | Some p \<Rightarrow> pid_getthread 5 p = Some None \<and> pid_getthread 7 p = Some (Some 12)
     \<and> pid_getexitcode 7 p = Some (- 1))" by code_simp
  then show ?thesis
    using waitpid_orphan_crashes[of "[11 \<mapsto> 5, 12 \<mapsto> 0]" 11 5 7 _ "0x10" 6 12]
    by (auto simp: PID_MAX_def split: option.splits)
qed



end
