(* ===== verification/Thread_Core.thy ===== *)
theory Thread_Core
  imports Kernel_Array Kernel_Queue Kernel_Pid
begin

text \<open>
  Threads, the run queue, sleeping and waking: \<open>src/kern/thread/thread.c\<close> and \<open>scheduler.c\<close>.

  The machine has one processor.  Code that runs with interrupts off is not interrupted until it
  calls \<open>mi_switch\<close>, so it is a function on the state of the thread system.  \<open>mi_switch\<close> itself is
  two functions: what the thread that leaves the processor does, up to the point where the scheduler
  waits for a runnable thread, and what the thread that gets the processor does on its way out of
  \<open>md_switch\<close>.  Between them no thread is current, which is what \<open>curthread = NULL\<close> says in the
  code.  The saved context of a thread that is not running is where it goes on: it is new, or inside
  \<open>thread_yield\<close>, or inside \<open>thread_sleep\<close>.

  The calls that a thread still has to make to the synchronisation primitives are a list of its
  record, \<open>t_code\<close>; the theory of the primitives gives them their meaning.  An argument \<open>ok\<close> says
  for which threads the run queue gets the memory it asks for.
\<close>

section \<open>Model\<close>

text \<open>What a thread may sleep on: the objects of the kernel have different addresses.\<close>

datatype waddr = Sem nat | Lock nat | Cv nat | Lbolt

datatype threadstate_t = S_READY | S_SLEEP | S_ZOMB

datatype context_t = Fresh | Yielding | Sleeping

datatype kcall =
    C_P nat | C_V nat
  | C_acquire nat | C_release nat
  | C_wait nat nat | C_signal nat nat | C_broadcast nat nat
  | C_yield | C_clocksleep int

record thread =
  t_pcb :: context_t
  t_sleepaddr :: "waddr option"
  t_stack :: "u8 list option"
  t_pid :: "int option"
  t_code :: "kcall list"

record tsys =
  curthread :: "nat option"
  sleepers :: "nat karray"
  zombies :: "nat karray"
  numthreads :: int
  runqueue :: "nat kqueue"
  thr :: "nat \<rightharpoonup> thread"
  tpids :: pids
  sem_count :: "nat \<rightharpoonup> int"
  lock_holder :: "nat \<rightharpoonup> nat option"
  lbolt_counter :: int

subsection \<open>Scheduler\<close>

definition scheduler_preallocate :: "bool \<Rightarrow> int \<Rightarrow> tsys \<Rightarrow> (errno \<times> tsys) option" where
  "scheduler_preallocate ok nthreads st = do {
     (result, q) \<leftarrow> q_preallocate ok (runqueue st) nthreads;
     Some (result, st\<lparr>runqueue := q\<rparr>) }"

text \<open>The loop of \<open>scheduler\<close> waits until the queue is not empty; this is what follows it.\<close>

definition scheduler :: "tsys \<Rightarrow> (nat \<times> tsys) option" where
  "scheduler st = do {
     (t, q) \<leftarrow> q_remhead (runqueue st);
     Some (t, st\<lparr>runqueue := q\<rparr>) }"

definition make_runnable :: "(nat \<Rightarrow> bool) \<Rightarrow> nat \<Rightarrow> tsys \<Rightarrow> (errno \<times> tsys) option" where
  "make_runnable ok t st = do {
     (result, q) \<leftarrow> q_addtail (ok t) (runqueue st) t;
     Some (result, st\<lparr>runqueue := q\<rparr>) }"

partial_function (option) scheduler_killall :: "tsys \<Rightarrow> tsys option" where
  "scheduler_killall st =
     (if q_empty (runqueue st) then Some st
      else do { (t, q) \<leftarrow> q_remhead (runqueue st); scheduler_killall (st\<lparr>runqueue := q\<rparr>) })"

subsection \<open>Threads\<close>

definition stack_magic :: "u8 list" where
  "stack_magic = [0xae, 0x11, 0xda, 0x33]"

definition stack_intact :: "thread \<Rightarrow> bool" where
  "stack_intact th = (case t_stack th of None \<Rightarrow> True | Some s \<Rightarrow> take 4 s = stack_magic)"

definition set_thread :: "nat \<Rightarrow> (thread \<Rightarrow> thread) \<Rightarrow> tsys \<Rightarrow> tsys" where
  "set_thread t f st = st\<lparr>thr := (thr st)(t := map_option f (thr st t))\<rparr>"

definition thread_destroy :: "nat \<Rightarrow> tsys \<Rightarrow> tsys option" where
  "thread_destroy t st = do {
     kassert (curthread st \<noteq> Some t);
     kassert (thr st t \<noteq> None);
     Some (st\<lparr>thr := (thr st)(t := None)\<rparr>) }"

fun exorcise_each :: "nat list \<Rightarrow> tsys \<Rightarrow> tsys option" where
  "exorcise_each [] st = Some st"
| "exorcise_each (i # is) st = do {
     z \<leftarrow> array_getguy (zombies st) (int i);
     kassert (curthread st \<noteq> Some z);
     st \<leftarrow> thread_destroy z st;
     exorcise_each is st }"

definition exorcise :: "tsys \<Rightarrow> tsys option" where
  "exorcise st = do {
     st \<leftarrow> exorcise_each [0..<nat (array_getnum (zombies st))] st;
     (result, z) \<leftarrow> array_setsize True (zombies st) 0;
     kassert (result = ESUCCESS);
     Some (st\<lparr>zombies := z\<rparr>) }"

definition thread_killall :: "tsys \<Rightarrow> tsys option" where
  "thread_killall st = do {
     (result, a) \<leftarrow> array_setsize True (sleepers st) 0;
     kassert (result = ESUCCESS);
     Some (st\<lparr>sleepers := a\<rparr>) }"

definition thread_panic :: "tsys \<Rightarrow> tsys option" where
  "thread_panic st = do { st \<leftarrow> thread_killall st; scheduler_killall st }"

definition one_thread_only :: "tsys \<Rightarrow> bool" where
  "one_thread_only st \<longleftrightarrow> numthreads st = 1"

text \<open>The half of \<open>mi_switch\<close> before the scheduler, and the half after it.\<close>

definition mi_switch :: "(nat \<Rightarrow> bool) \<Rightarrow> threadstate_t \<Rightarrow> tsys \<Rightarrow> tsys option" where
  "mi_switch ok nextstate st =
     (case curthread st of
        None \<Rightarrow> Some st
      | Some cur \<Rightarrow> do {
          th \<leftarrow> thr st cur;
          kassert (stack_intact th);
          let st = st\<lparr>curthread := None\<rparr>;
          (result, st) \<leftarrow>
            (case nextstate of
               S_READY \<Rightarrow> make_runnable ok cur st
             | S_SLEEP \<Rightarrow> do { (r, a) \<leftarrow> array_add (ok cur) (sleepers st) cur; Some (r, st\<lparr>sleepers := a\<rparr>) }
             | S_ZOMB \<Rightarrow> do { (r, a) \<leftarrow> array_add (ok cur) (zombies st) cur; Some (r, st\<lparr>zombies := a\<rparr>) });
          kassert (result = ESUCCESS);
          Some st })"

definition mi_resume :: "tsys \<Rightarrow> tsys option" where
  "mi_resume st = do {
     (next, st) \<leftarrow> scheduler st;
     th \<leftarrow> thr st next;
     let st = st\<lparr>curthread := Some next\<rparr>;
     case t_pcb th of
       Fresh \<Rightarrow> Some st
     | Yielding \<Rightarrow> exorcise st
     | Sleeping \<Rightarrow> do { st \<leftarrow> exorcise st; Some (set_thread next (t_sleepaddr_update (\<lambda>_. None)) st) } }"

definition thread_yield :: "(nat \<Rightarrow> bool) \<Rightarrow> tsys \<Rightarrow> tsys option" where
  "thread_yield ok st =
     (case curthread st of
        None \<Rightarrow> Some st
      | Some cur \<Rightarrow> mi_switch ok S_READY (set_thread cur (t_pcb_update (\<lambda>_. Yielding)) st))"

definition thread_sleep :: "(nat \<Rightarrow> bool) \<Rightarrow> waddr \<Rightarrow> tsys \<Rightarrow> tsys option" where
  "thread_sleep ok addr st = do {
     cur \<leftarrow> curthread st;
     mi_switch ok S_SLEEP
       (set_thread cur (\<lambda>th. th\<lparr>t_sleepaddr := Some addr, t_pcb := Sleeping\<rparr>) st) }"

text \<open>
  The loop of \<open>thread_wakeup\<close>: a thread that is woken leaves the array, so the index stays; and the
  loop of \<open>thread_wakeup_one\<close>, which stops at the first.
\<close>

lemma array_remove_num: "array_remove a i = Some a' \<Longrightarrow> a_num a' = a_num a - 1 \<and> i < a_num a"
  by (auto simp: array_remove_def bind_eq_Some_conv split: if_splits)

lemma make_runnable_sleepers: "make_runnable ok t st = Some (r, st') \<Longrightarrow> sleepers st' = sleepers st"
  by (auto simp: make_runnable_def bind_eq_Some_conv)

function wakeup_from :: "(nat \<Rightarrow> bool) \<Rightarrow> waddr \<Rightarrow> int \<Rightarrow> tsys \<Rightarrow> tsys option" where
  "wakeup_from ok addr i st =
     (if i < array_getnum (sleepers st) then do {
        t \<leftarrow> array_getguy (sleepers st) i;
        th \<leftarrow> thr st t;
        if t_sleepaddr th = Some addr then do {
          a \<leftarrow> array_remove (sleepers st) i;
          (result, st') \<leftarrow> make_runnable ok t (st\<lparr>sleepers := a\<rparr>);
          if result = ESUCCESS then wakeup_from ok addr i st' else None }
        else wakeup_from ok addr (i + 1) st }
      else Some st)"
  by pat_completeness auto
termination
  by (relation "measure (\<lambda>(ok, addr, i, st). nat (a_num (sleepers st) - i))")
    (auto simp: array_getnum_def dest!: array_remove_num make_runnable_sleepers)

declare wakeup_from.simps [simp del]

definition thread_wakeup :: "(nat \<Rightarrow> bool) \<Rightarrow> waddr \<Rightarrow> tsys \<Rightarrow> tsys option" where
  "thread_wakeup ok addr st = wakeup_from ok addr 0 st"

definition sleeper :: "tsys \<Rightarrow> int \<Rightarrow> (nat \<times> waddr option) option" where
  "sleeper st i = do { t \<leftarrow> array_getguy (sleepers st) i; th \<leftarrow> thr st t; Some (t, t_sleepaddr th) }"

definition thread_wakeup_one :: "(nat \<Rightarrow> bool) \<Rightarrow> waddr \<Rightarrow> tsys \<Rightarrow> tsys option" where
  "thread_wakeup_one ok addr st = do {
     r \<leftarrow> scan (sleeper st) (array_getnum (sleepers st)) (\<lambda>(t, a). a = Some addr) 0;
     case r of
       None \<Rightarrow> Some st
     | Some (i, t, _) \<Rightarrow> do {
         a \<leftarrow> array_remove (sleepers st) i;
         (result, st) \<leftarrow> make_runnable ok t (st\<lparr>sleepers := a\<rparr>);
         kassert (result = ESUCCESS);
         Some st } }"

definition thread_hassleepers :: "waddr \<Rightarrow> tsys \<Rightarrow> bool option" where
  "thread_hassleepers addr st = do {
     r \<leftarrow> scan (sleeper st) (array_getnum (sleepers st)) (\<lambda>(t, a). a = Some addr) 0;
     Some (r \<noteq> None) }"

subsection \<open>Starting and ending threads\<close>

text \<open>The memory that starting a thread gets: the structure, its name, the stack and what it held.\<close>

record fork_mem =
  fm_thread :: "nat option"
  fm_name :: bool
  fm_stack :: "u8 list option"
  fm_sleepers :: bool
  fm_zombies :: bool
  fm_queue :: bool

definition thread_create :: "fork_mem \<Rightarrow> kcall list \<Rightarrow> tsys \<Rightarrow> nat option \<times> tsys" where
  "thread_create fm code st =
     (case fm_thread fm of
        None \<Rightarrow> (None, st)
      | Some a \<Rightarrow>
          if \<not> fm_name fm then (None, st)
          else (Some a, st\<lparr>thr := (thr st)(a \<mapsto> \<lparr>t_pcb = Fresh, t_sleepaddr = None, t_stack = None,
                  t_pid = None, t_code = code\<rparr>)\<rparr>))"

text \<open>The clean-up after a failure: the process id is not given back.\<close>

definition fork_fail :: "errno \<Rightarrow> nat \<Rightarrow> tsys \<Rightarrow> (errno \<times> tsys) option" where
  "fork_fail result new st = Some (result, st\<lparr>thr := (thr st)(new := None)\<rparr>)"

definition fork_preallocate :: "fork_mem \<Rightarrow> tsys \<Rightarrow> (errno \<times> tsys) option" where
  "fork_preallocate fm st = do {
     let n = c_int (numthreads st + 1);
     (result, a) \<leftarrow> array_preallocate (fm_sleepers fm) (sleepers st) n;
     let st = st\<lparr>sleepers := a\<rparr>;
     if result \<noteq> ESUCCESS then Some (result, st)
     else do {
       (result, a) \<leftarrow> array_preallocate (fm_zombies fm) (zombies st) n;
       let st = st\<lparr>zombies := a\<rparr>;
       if result \<noteq> ESUCCESS then Some (result, st)
       else scheduler_preallocate (fm_queue fm) n st } }"

definition thread_fork :: "fork_mem \<Rightarrow> (nat \<Rightarrow> bool) \<Rightarrow> u32 \<Rightarrow> kcall list \<Rightarrow> tsys \<Rightarrow> (errno \<times> tsys) option" where
  "thread_fork fm ok rnd code st =
     (case thread_create fm code st of
        (None, st) \<Rightarrow> Some (ENOMEM, st)
      | (Some new, st) \<Rightarrow> do {
          (pid, p) \<leftarrow> pid_getnext rnd new (tpids st);
          let st = set_thread new (t_pid_update (\<lambda>_. Some pid)) (st\<lparr>tpids := p\<rparr>);
          if pid = 0 then fork_fail EAGAIN new st
          else case fm_stack fm of
            None \<Rightarrow> fork_fail ENOMEM new st
          | Some stk \<Rightarrow> do {
              let st = set_thread new (t_stack_update (\<lambda>_. Some (stack_magic @ drop 4 stk))) st;
              (result, st) \<leftarrow> fork_preallocate fm st;
              if result \<noteq> ESUCCESS then fork_fail result new st
              else do {
                (result, st) \<leftarrow> make_runnable ok new st;
                if result \<noteq> ESUCCESS then fork_fail result new st
                else Some (ESUCCESS, st\<lparr>numthreads := c_int (numthreads st + 1)\<rparr>) } } })"

definition thread_exit :: "(nat \<Rightarrow> bool) \<Rightarrow> tsys \<Rightarrow> tsys option" where
  "thread_exit ok st = do {
     cur \<leftarrow> curthread st;
     th \<leftarrow> thr st cur;
     kassert (stack_intact th);
     pid \<leftarrow> t_pid th;
     p \<leftarrow> pid_clear pid (tpids st);
     let st = st\<lparr>tpids := p\<rparr>;
     kassert (numthreads st > 0);
     mi_switch ok S_ZOMB (st\<lparr>numthreads := numthreads st - 1\<rparr>) }"

text \<open>\<open>scheduler_bootstrap\<close> and \<open>thread_bootstrap\<close>; the first thread runs at once, on the boot stack.\<close>

definition thread_bootstrap :: "fork_mem \<Rightarrow> kcall list \<Rightarrow> tsys option" where
  "thread_bootstrap fm code = do {
     q \<leftarrow> q_create True (fm_queue fm) 32;
     s \<leftarrow> array_create (fm_sleepers fm);
     z \<leftarrow> array_create (fm_zombies fm);
     p \<leftarrow> pid_setuptable True;
     let (me, st) = thread_create fm code
       \<lparr>curthread = None, sleepers = s, zombies = z, numthreads = 0, runqueue = q, thr = Map.empty,
        tpids = p, sem_count = Map.empty, lock_holder = Map.empty, lbolt_counter = 0\<rparr>;
     me \<leftarrow> me;
     Some (st\<lparr>curthread := Some me, numthreads := 1\<rparr>) }"

section \<open>The lists of threads\<close>

text \<open>
  The three containers of the thread system as lists.  Thread structures live in the kernel's
  512 MB of directly mapped memory, so there are fewer than \<open>2 ^ 24\<close> of them.
\<close>

definition tlists :: "tsys \<Rightarrow> nat list \<Rightarrow> nat list \<Rightarrow> nat list \<Rightarrow> bool" where
  "tlists st S Z Q \<longleftrightarrow> array_rep (sleepers st) S \<and> array_rep (zombies st) Z \<and> q_rep (runqueue st) Q
     \<and> q_room (runqueue st) \<le> 2 ^ 26"

definition sleepaddr :: "tsys \<Rightarrow> nat \<Rightarrow> waddr option" where
  "sleepaddr st t = Option.bind (thr st t) t_sleepaddr"

lemma make_runnable_cases:
  assumes "tlists st S Z Q" "length Q \<le> 2 ^ 24"
  obtains (ok) q where "make_runnable ok t st = Some (ESUCCESS, st\<lparr>runqueue := q\<rparr>)" "tlists (st\<lparr>runqueue := q\<rparr>) S Z (Q @ [t])"
  | (full) "make_runnable ok t st = Some (ENOMEM, st)" "\<not> ok t" "length Q = q_room (runqueue st)"
proof -
  have r: "q_rep (runqueue st) Q" "q_room (runqueue st) \<le> 2 ^ 26" "length Q \<le> q_room (runqueue st)"
    using assms(1) q_rep_length_room by (auto simp: tlists_def)
  have lim: "q_room (runqueue st) < 2 ^ 27" using r(2) by simp
  consider "length Q < q_room (runqueue st)" | "length Q = q_room (runqueue st)" "ok t"
    | "length Q = q_room (runqueue st)" "\<not> ok t" using r(3) by linarith
  then show thesis
  proof cases
    case 1
    then show thesis using runq.addtail_room[OF r(1), of "ok t" t] r(2) assms(1) that(1)
      by (auto simp: make_runnable_def tlists_def)
  next
    case 2
    obtain q where q: "q_addtail True (runqueue st) t = Some (ESUCCESS, q)" "q_rep q (Q @ [t])"
      "q_room q \<le> 2 * q_room (runqueue st) + 3"
      using runq.addtail_grow[OF r(1) lim, of t] by auto
    have "q_room q \<le> 2 ^ 26" using q(3) 2(1) assms(2) by simp
    then show thesis using q 2 assms(1) that(1)[of q] by (simp add: make_runnable_def tlists_def)
  next
    case 3
    then show thesis using runq.addtail_fail[OF r(1) lim, of t] that(2) by (simp add: make_runnable_def)
  qed
qed

lemma array_remove_max: "array_remove a i = Some a' \<Longrightarrow> a_max a' = a_max a"
  by (auto simp: array_remove_def bind_eq_Some_conv split: if_splits)

text \<open>Waking all sleepers of an address: they leave the array and join the queue, in their order.\<close>

lemma wakeup_from_ok:
  assumes "tlists st S Z Q" "i \<le> length S" "length Q + length S \<le> 2 ^ 24" "set S \<subseteq> dom (thr st)"
  shows "(\<exists>a q. wakeup_from ok addr (int i) st = Some (st\<lparr>sleepers := a, runqueue := q\<rparr>)
        \<and> tlists (st\<lparr>sleepers := a, runqueue := q\<rparr>)
            (take i S @ filter (\<lambda>t. sleepaddr st t \<noteq> Some addr) (drop i S)) Z
            (Q @ filter (\<lambda>t. sleepaddr st t = Some addr) (drop i S))
        \<and> a_max a = a_max (sleepers st))
     \<or> wakeup_from ok addr (int i) st = None \<and> (\<exists>t\<in>set S. \<not> ok t)"
  using assms
proof (induction "length S - i" arbitrary: i S Q st)
  case 0
  then have "array_getnum (sleepers st) = int i" using arr.getnum_law[of "sleepers st" S] by (simp add: tlists_def)
  then have "wakeup_from ok addr (int i) st = Some st" by (subst wakeup_from.simps) simp
  then show ?case using 0 by (intro disjI1 exI[of _ "sleepers st"] exI[of _ "runqueue st"]) simp
next
  case (Suc d)
  have i: "i < length S" using Suc.hyps(2) by simp
  have rep: "array_rep (sleepers st) S" using Suc.prems(1) by (simp add: tlists_def)
  have g: "array_getnum (sleepers st) = int (length S)" "array_getguy (sleepers st) (int i) = Some (S ! i)"
    using arr.getnum_law[OF rep] arr.getguy_law[OF rep i] by simp_all
  obtain th where th: "thr st (S ! i) = Some th" using Suc.prems(4) i nth_mem by blast
  have dr: "drop i S = S ! i # drop (Suc i) S" using i by (rule Cons_nth_drop_Suc[symmetric])
  show ?case
  proof (cases "t_sleepaddr th = Some addr")
    case False
    have "wakeup_from ok addr (int i) st = wakeup_from ok addr (int (Suc i)) st"
      using False g i th by (subst wakeup_from.simps) (simp add: add.commute)
    moreover have "take i S @ filter (\<lambda>t. sleepaddr st t \<noteq> Some addr) (drop i S)
        = take (Suc i) S @ filter (\<lambda>t. sleepaddr st t \<noteq> Some addr) (drop (Suc i) S)"
      "filter (\<lambda>t. sleepaddr st t = Some addr) (drop i S) = filter (\<lambda>t. sleepaddr st t = Some addr) (drop (Suc i) S)"
      using False th i by (simp_all add: dr take_Suc_conv_app_nth sleepaddr_def)
    ultimately show ?thesis using Suc.hyps(1)[of S "Suc i" st Q] Suc.hyps(2) Suc.prems i by simp
  next
    case True
    let ?S = "take i S @ drop (Suc i) S"
    obtain a where a: "array_remove (sleepers st) (int i) = Some a" "array_rep a ?S" "a_max a = a_max (sleepers st)"
      using arr.remove_law[OF rep i] array_remove_max by blast
    let ?st = "st\<lparr>sleepers := a\<rparr>"
    have tl: "tlists ?st ?S Z Q" using Suc.prems(1) a(2) by (simp add: tlists_def)
    have len: "length Q \<le> 2 ^ 24" using Suc.prems(3) by simp
    from tl len show ?thesis
    proof (cases rule: make_runnable_cases[where ok = ok and t = "S ! i"])
      case (ok q)
      let ?st' = "?st\<lparr>runqueue := q\<rparr>"
      have eq: "wakeup_from ok addr (int i) st = wakeup_from ok addr (int i) ?st'"
        using True g i th a(1) ok(1) by (subst wakeup_from.simps) simp
      have f: "filter P (drop i ?S) = filter P (drop (Suc i) S)" "take i ?S = take i S" for P
        using i by simp_all
      have sa: "sleepaddr ?st' = sleepaddr st" by (simp add: sleepaddr_def fun_eq_iff)
      have "(\<exists>a' q'. wakeup_from ok addr (int i) ?st' = Some (?st'\<lparr>sleepers := a', runqueue := q'\<rparr>)
          \<and> tlists (?st'\<lparr>sleepers := a', runqueue := q'\<rparr>)
              (take i ?S @ filter (\<lambda>t. sleepaddr ?st' t \<noteq> Some addr) (drop i ?S)) Z
              ((Q @ [S ! i]) @ filter (\<lambda>t. sleepaddr ?st' t = Some addr) (drop i ?S))
          \<and> a_max a' = a_max (sleepers ?st'))
        \<or> wakeup_from ok addr (int i) ?st' = None \<and> (\<exists>t\<in>set ?S. \<not> ok t)"
        using Suc.hyps(2) Suc.prems ok(2) i set_take_subset[of i S] set_drop_subset[of "Suc i" S]
        by (intro Suc.hyps(1)) auto
      moreover have "sleepaddr st (S ! i) = Some addr" using True th by (simp add: sleepaddr_def)
      ultimately show ?thesis
        using set_take_subset[of i S] set_drop_subset[of "Suc i" S] unfolding eq f sa dr by (auto simp: a(3))
    next
      case full
      then have "wakeup_from ok addr (int i) st = None"
        using True g i th a(1) by (subst wakeup_from.simps) simp
      then show ?thesis using full(2) i nth_mem by blast
    qed
  qed
qed

lemma thread_wakeup_cases:
  assumes "tlists st S Z Q" "length Q + length S \<le> 2 ^ 24" "set S \<subseteq> dom (thr st)"
  obtains (ok) a q where "thread_wakeup ok addr st = Some (st\<lparr>sleepers := a, runqueue := q\<rparr>)"
      "tlists (st\<lparr>sleepers := a, runqueue := q\<rparr>) (filter (\<lambda>t. sleepaddr st t \<noteq> Some addr) S) Z
         (Q @ filter (\<lambda>t. sleepaddr st t = Some addr) S)" "a_max a = a_max (sleepers st)"
  | (nomem) "thread_wakeup ok addr st = None" "\<exists>t\<in>set S. \<not> ok t"
  using wakeup_from_ok[OF assms(1) _ assms(2,3), of 0 ok addr] by (auto simp: thread_wakeup_def)

lemma scan_list:
  assumes "\<And>k. k < length xs \<Longrightarrow> g (int k) = Some (xs ! k)" "k \<le> length xs"
  shows "scan g (int (length xs)) P (int k) = Some (map_option (\<lambda>i. (int i, xs ! i)) (find (\<lambda>i. P (xs ! i)) [k..<length xs]))"
  using assms(2)
proof (induction "length xs - k" arbitrary: k)
  case 0
  then show ?case by (subst scan.simps) simp
next
  case (Suc d)
  then have k: "k < length xs" by simp
  have "scan g (int (length xs)) P (int k + 1) =
      Some (map_option (\<lambda>i. (int i, xs ! i)) (find (\<lambda>i. P (xs ! i)) [Suc k..<length xs]))"
    using Suc.hyps(1)[of "Suc k"] Suc.hyps(2) k by (simp add: add.commute)
  with k show ?case by (subst scan.simps) (simp add: assms(1) upt_conv_Cons)
qed

lemma sleeper_scan:
  assumes "tlists st S Z Q" "set S \<subseteq> dom (thr st)"
  shows "scan (sleeper st) (array_getnum (sleepers st)) (\<lambda>(t, a). a = Some addr) 0
    = Some (map_option (\<lambda>i. (int i, S ! i, sleepaddr st (S ! i))) (first_index (\<lambda>i. sleepaddr st (S ! i) = Some addr) (length S)))"
proof -
  have rep: "array_rep (sleepers st) S" using assms(1) by (simp add: tlists_def)
  let ?xs = "map (\<lambda>t. (t, sleepaddr st t)) S"
  have "sleeper st (int k) = Some (?xs ! k)" if k: "k < length S" for k
  proof -
    obtain th where "thr st (S ! k) = Some th" using assms(2) k nth_mem by blast
    then show ?thesis using arr.getguy_law[OF rep k] k by (simp add: sleeper_def sleepaddr_def)
  qed
  then have "scan (sleeper st) (int (length ?xs)) (\<lambda>(t, a). a = Some addr) (int 0) =
     Some (map_option (\<lambda>i. (int i, ?xs ! i)) (find (\<lambda>i. (\<lambda>(t, a). a = Some addr) (?xs ! i)) [0..<length ?xs]))"
    by (intro scan_list) simp_all
  moreover have "find (\<lambda>i. (\<lambda>(t, a). a = Some addr) (?xs ! i)) [0..<length ?xs]
      = first_index (\<lambda>i. sleepaddr st (S ! i) = Some addr) (length S)"
    unfolding first_index_def by (auto intro!: find_cong)
  moreover have "i < length S" if "first_index (\<lambda>i. sleepaddr st (S ! i) = Some addr) (length S) = Some i" for i
    using that by (auto simp: first_index_def find_Some_iff)
  ultimately show ?thesis
    using arr.getnum_law[OF rep]
    by (cases "first_index (\<lambda>i. sleepaddr st (S ! i) = Some addr) (length S)") simp_all
qed

text \<open>Waking one: the first sleeper of the address, if there is one.\<close>

lemma thread_wakeup_one_cases:
  assumes "tlists st S Z Q" "length Q \<le> 2 ^ 24" "set S \<subseteq> dom (thr st)"
  obtains (none) "thread_wakeup_one ok addr st = Some st" "\<forall>t\<in>set S. sleepaddr st t \<noteq> Some addr"
  | (one) S1 t S2 a q where "S = S1 @ t # S2" "\<forall>t\<in>set S1. sleepaddr st t \<noteq> Some addr" "sleepaddr st t = Some addr"
      "thread_wakeup_one ok addr st = Some (st\<lparr>sleepers := a, runqueue := q\<rparr>)"
      "tlists (st\<lparr>sleepers := a, runqueue := q\<rparr>) (S1 @ S2) Z (Q @ [t])" "a_max a = a_max (sleepers st)"
  | (nomem) "thread_wakeup_one ok addr st = None" "\<exists>t\<in>set S. \<not> ok t"
proof (cases "first_index (\<lambda>i. sleepaddr st (S ! i) = Some addr) (length S)")
  case None
  then have "\<forall>t\<in>set S. sleepaddr st t \<noteq> Some addr" by (auto simp: first_index_def find_None_iff in_set_conv_nth)
  then show thesis using sleeper_scan[OF assms(1,3), of addr] that(1) None by (simp add: thread_wakeup_one_def)
next
  case (Some i)
  then have i: "i < length S" "sleepaddr st (S ! i) = Some addr" "\<forall>j<i. sleepaddr st (S ! j) \<noteq> Some addr"
    by (auto simp: first_index_def find_Some_iff)
  have rep: "array_rep (sleepers st) S" using assms(1) by (simp add: tlists_def)
  obtain a where a: "array_remove (sleepers st) (int i) = Some a" "array_rep a (take i S @ drop (Suc i) S)"
    "a_max a = a_max (sleepers st)"
    using arr.remove_law[OF rep i(1)] array_remove_max by blast
  have tl: "tlists (st\<lparr>sleepers := a\<rparr>) (take i S @ drop (Suc i) S) Z Q" using assms(1) a(2) by (simp add: tlists_def)
  from tl assms(2) show thesis
  proof (cases rule: make_runnable_cases[where ok = ok and t = "S ! i"])
    case (ok q)
    have "\<forall>t\<in>set (take i S). sleepaddr st t \<noteq> Some addr" using i(1,3) by (auto simp: in_set_conv_nth)
    then show thesis
      using that(2)[of "take i S" "S ! i" "drop (Suc i) S" q a] id_take_nth_drop[OF i(1)] i(2) ok a sleeper_scan[OF assms(1,3), of addr] Some
      by (simp add: thread_wakeup_one_def)
  next
    case full
    then show thesis using that(3) sleeper_scan[OF assms(1,3), of addr] Some a(1) nth_mem[OF i(1)]
      by (auto simp: thread_wakeup_one_def)
  qed
qed

subsection \<open>Switching\<close>

lemma array_add_max:
  assumes "array_rep a xs" "length xs < 2 ^ 29 - 1" "array_add ok a x = Some (ESUCCESS, a')"
  shows "a_max a \<le> a_max a'"
proof -
  have n: "a_num a = int (length xs)" "array_inv a" using array_rep_num assms(1) by (auto simp: array_rep_def)
  have w: "c_int (a_num a + 1) = a_num a + 1" using n assms(2) by (intro c_int_id) auto
  have p: "array_preallocate ok a (a_num a + 1) = Some (ESUCCESS, b) \<Longrightarrow> a_max a \<le> a_max b" for b
    using array_preallocate_ok[of a "a_num a + 1"] array_preallocate_fail[of a "a_num a + 1"] n assms(2)
    by (cases ok) auto
  show ?thesis using assms(3) p n w
    by (auto simp: array_add_def array_setsize_def Let_def bind_eq_Some_conv split: if_splits)
qed

lemma array_add_outcome:
  assumes "array_rep a xs" "length xs \<le> 2 ^ 24"
  obtains (ok) a' where "array_add ok a x = Some (ESUCCESS, a')" "array_rep a' (xs @ [x])" "a_max a \<le> a_max a'"
  | (full) "array_add ok a x = Some (ENOMEM, a)" "\<not> ok" "int (length xs) = a_max a"
proof -
  have n: "a_num a = int (length xs)" "a_num a \<le> a_max a" "length xs < 2 ^ 29 - 1"
    using array_rep_num[OF assms(1)] assms by (auto simp: array_rep_def array_inv_def)
  show thesis
    using array_add_cases[OF assms(1) n(3), of ok x] array_add_max[OF assms(1) n(3), of ok x] that n by fastforce
qed

lemma mi_switch_cases:
  assumes "tlists st S Z Q" "curthread st = Some c" "thr st c = Some th" "stack_intact th"
    and "length Q + length S + length Z \<le> 2 ^ 24"
  obtains (ready) q where "nxt = S_READY" "mi_switch ok nxt st = Some (st\<lparr>curthread := None, runqueue := q\<rparr>)"
      "tlists (st\<lparr>curthread := None, runqueue := q\<rparr>) S Z (Q @ [c])"
  | (sleep) a where "nxt = S_SLEEP" "mi_switch ok nxt st = Some (st\<lparr>curthread := None, sleepers := a\<rparr>)"
      "tlists (st\<lparr>curthread := None, sleepers := a\<rparr>) (S @ [c]) Z Q" "a_max (sleepers st) \<le> a_max a"
  | (zomb) a where "nxt = S_ZOMB" "mi_switch ok nxt st = Some (st\<lparr>curthread := None, zombies := a\<rparr>)"
      "tlists (st\<lparr>curthread := None, zombies := a\<rparr>) S (Z @ [c]) Q"
  | (nomem) "mi_switch ok nxt st = None" "\<not> ok c" "nxt = S_SLEEP \<longrightarrow> int (length S) = a_max (sleepers st)"
proof (cases nxt)
  case S_READY
  have "tlists (st\<lparr>curthread := None\<rparr>) S Z Q" "length Q \<le> 2 ^ 24" using assms(1,5) by (simp_all add: tlists_def)
  then show thesis
  proof (cases rule: make_runnable_cases[where ok = ok and t = c])
    case (ok q)
    then show thesis using that(1) assms S_READY by (simp add: mi_switch_def)
  next
    case full
    then show thesis using that(4) assms S_READY by (simp add: mi_switch_def)
  qed
next
  case S_SLEEP
  have r: "array_rep (sleepers st) S" "length S \<le> 2 ^ 24" using assms(1,5) by (simp_all add: tlists_def)
  then show thesis
  proof (cases rule: array_add_outcome[where ok = "ok c" and x = c])
    case (ok a')
    then show thesis using that(2) assms S_SLEEP by (simp add: mi_switch_def tlists_def)
  next
    case full
    then show thesis using that(4) assms S_SLEEP by (simp add: mi_switch_def)
  qed
next
  case S_ZOMB
  have r: "array_rep (zombies st) Z" "length Z \<le> 2 ^ 24" using assms(1,5) by (simp_all add: tlists_def)
  then show thesis
  proof (cases rule: array_add_outcome[where ok = "ok c" and x = c])
    case (ok a')
    then show thesis using that(3) assms S_ZOMB by (simp add: mi_switch_def tlists_def)
  next
    case full
    then show thesis using that(4) assms S_ZOMB by (simp add: mi_switch_def)
  qed
qed

lemma exorcise_each_ok:
  assumes "array_rep (zombies st) Z" "distinct Z" "set Z \<inter> set_option (curthread st) = {}" "k \<le> length Z"
    and "set (drop k Z) \<subseteq> dom (thr st)"
  shows "exorcise_each [k..<length Z] st = Some (st\<lparr>thr := thr st |` (- set (drop k Z))\<rparr>)"
  using assms(1,3-5)
proof (induction "length Z - k" arbitrary: k st)
  case 0
  then show ?case by simp
next
  case (Suc d)
  then have k: "k < length Z" by simp
  have dr: "drop k Z = Z ! k # drop (Suc k) Z" using k by (rule Cons_nth_drop_Suc[symmetric])
  have "Z ! k \<notin> set (drop (Suc k) Z)" using distinct_drop[OF assms(2), of k] dr by simp
  moreover have "curthread st \<noteq> Some (Z ! k)" "thr st (Z ! k) \<noteq> None" using Suc.prems k dr by auto
  moreover have "array_getguy (zombies st) (int k) = Some (Z ! k)" using arr.getguy_law[OF Suc.prems(1) k] .
  moreover have "set (drop (Suc k) Z) \<subseteq> dom ((thr st)(Z ! k := None))" using Suc.prems(4) dr calculation(1) by auto
  then have "exorcise_each [Suc k..<length Z] (st\<lparr>thr := (thr st)(Z ! k := None)\<rparr>) =
      Some (st\<lparr>thr := (thr st)(Z ! k := None) |` (- set (drop (Suc k) Z))\<rparr>)"
    using Suc.hyps(1)[of "Suc k" "st\<lparr>thr := (thr st)(Z ! k := None)\<rparr>"] Suc.hyps(2) Suc.prems k
    by (simp add: Suc_diff_Suc[symmetric])
  moreover have "(thr st)(Z ! k := None) |` (- set (drop (Suc k) Z)) = thr st |` (- set (drop k Z))"
    by (auto simp: dr restrict_map_def fun_eq_iff)
  ultimately show ?case using k by (simp add: upt_conv_Cons thread_destroy_def)
qed

lemma array_clear:
  assumes "array_rep a xs"
  shows "\<exists>a'. array_setsize True a 0 = Some (ESUCCESS, a') \<and> array_rep a' []
     \<and> a_max a' = (if a_max a > 16 then 0 else a_max a)"
  using assms
  by (auto simp: array_rep_def array_inv_def array_setsize_def array_cells_def cells_of_def split: option.splits)

lemma exorcise_ok:
  assumes "tlists st S Z Q" "distinct Z" "set Z \<inter> set_option (curthread st) = {}" "set Z \<subseteq> dom (thr st)"
  shows "\<exists>a. exorcise st = Some (st\<lparr>thr := thr st |` (- set Z), zombies := a\<rparr>)
     \<and> tlists (st\<lparr>thr := thr st |` (- set Z), zombies := a\<rparr>) S [] Q
     \<and> a_max a = (if a_max (zombies st) > 16 then 0 else a_max (zombies st))"
proof -
  have rep: "array_rep (zombies st) Z" using assms(1) by (simp add: tlists_def)
  obtain a where a: "array_setsize True (zombies st) 0 = Some (ESUCCESS, a)" "array_rep a []"
    "a_max a = (if a_max (zombies st) > 16 then 0 else a_max (zombies st))"
    using array_clear[OF rep] by blast
  have "exorcise_each [0..<nat (array_getnum (zombies st))] st = Some (st\<lparr>thr := thr st |` (- set Z)\<rparr>)"
    using exorcise_each_ok[OF rep assms(2,3), of 0] assms(4) arr.getnum_law[OF rep] by simp
  then show ?thesis using a assms(1) by (auto simp: exorcise_def tlists_def)
qed

text \<open>The thread that gets the processor: the first of the queue.  A new thread leaves the zombies.\<close>

lemma mi_resume_ok:
  assumes "tlists st S Z (t # Q)" "thr st t = Some th" "distinct Z" "t \<notin> set Z" "set Z \<subseteq> dom (thr st)" "curthread st = None"
  shows "t_pcb th = Fresh \<Longrightarrow> \<exists>q. mi_resume st = Some (st\<lparr>curthread := Some t, runqueue := q\<rparr>)
      \<and> tlists (st\<lparr>curthread := Some t, runqueue := q\<rparr>) S Z Q"
    and "t_pcb th \<noteq> Fresh \<Longrightarrow> \<exists>q a. mi_resume st = Some (st\<lparr>curthread := Some t, runqueue := q, zombies := a,
          thr := (thr st |` (- set Z))(t \<mapsto> (if t_pcb th = Sleeping then th\<lparr>t_sleepaddr := None\<rparr> else th))\<rparr>)
      \<and> tlists (st\<lparr>curthread := Some t, runqueue := q, zombies := a,
          thr := (thr st |` (- set Z))(t \<mapsto> (if t_pcb th = Sleeping then th\<lparr>t_sleepaddr := None\<rparr> else th))\<rparr>) S [] Q"
proof -
  obtain q where q: "q_remhead (runqueue st) = Some (t, q)" "q_rep q Q" "q_room q = q_room (runqueue st)"
    using runq.remhead_law[of "runqueue st" t Q] assms(1) by (auto simp: tlists_def)
  let ?st = "st\<lparr>runqueue := q, curthread := Some t\<rparr>"
  have tl: "tlists ?st S Z Q" using assms(1) q by (simp add: tlists_def)
  have s: "scheduler st = Some (t, st\<lparr>runqueue := q\<rparr>)" using q(1) by (simp add: scheduler_def)
  show "\<exists>q. mi_resume st = Some (st\<lparr>curthread := Some t, runqueue := q\<rparr>) \<and> tlists (st\<lparr>curthread := Some t, runqueue := q\<rparr>) S Z Q"
    if "t_pcb th = Fresh"
    using that s assms(2) tl by (intro exI[of _ q]) (simp add: mi_resume_def tlists_def)
  obtain a where a: "exorcise ?st = Some (?st\<lparr>thr := thr st |` (- set Z), zombies := a\<rparr>)"
     "tlists (?st\<lparr>thr := thr st |` (- set Z), zombies := a\<rparr>) S [] Q"
    using exorcise_ok[OF tl assms(3)] assms(4,5) by auto
  have r: "(thr st |` (- set Z)) t = Some th" using assms(2,4) by (simp add: restrict_map_def)
  let ?th = "if t_pcb th = Sleeping then th\<lparr>t_sleepaddr := None\<rparr> else th"
  have "mi_resume st = Some (?st\<lparr>zombies := a, thr := (thr st |` (- set Z))(t \<mapsto> ?th)\<rparr>)" if "t_pcb th \<noteq> Fresh"
    using that s assms(2) a(1) r by (cases "t_pcb th") (auto simp: mi_resume_def set_thread_def fun_upd_idem)
  moreover have "tlists (?st\<lparr>zombies := a, thr := (thr st |` (- set Z))(t \<mapsto> ?th)\<rparr>) S [] Q"
    using a(2) by (simp add: tlists_def)
  ultimately show "\<exists>q a. mi_resume st = Some (st\<lparr>curthread := Some t, runqueue := q, zombies := a,
        thr := (thr st |` (- set Z))(t \<mapsto> ?th)\<rparr>)
      \<and> tlists (st\<lparr>curthread := Some t, runqueue := q, zombies := a, thr := (thr st |` (- set Z))(t \<mapsto> ?th)\<rparr>) S [] Q"
    if "t_pcb th \<noteq> Fresh" using that by (intro exI[of _ q] exI[of _ a]) (simp add: tlists_def)
qed

subsection \<open>Starting a thread\<close>

lemma array_preallocate_cases:
  assumes "array_rep a xs" "n < 2 ^ 29"
  obtains r a' where "array_preallocate ok a n = Some (r, a')" "array_rep a' xs" "a_max a \<le> a_max a'"
    "r = ESUCCESS \<and> n \<le> a_max a' \<or> r = ENOMEM"
  using array_preallocate_ok[of a n] array_preallocate_fail[of a n] assms that
  by (cases ok) (auto simp: array_rep_def)

lemma q_preallocate_cases:
  assumes "q_rep q xs" "n < 2 ^ 27"
  obtains r q' where "q_preallocate ok q n = Some (r, q')" "q_rep q' xs" "q_room q \<le> q_room q'"
    "q_room q' \<le> max (q_room q) (nat (2 * n))" "r = ESUCCESS \<and> n - 1 \<le> int (q_room q') \<or> r = ENOMEM"
proof (cases ok)
  case True
  then show thesis using runq.prealloc_law[OF assms(1), of n] assms(2) that by auto
next
  case False
  have "0 < q_size q" using assms(1) by (simp add: q_rep_def q_inv_def)
  then have "\<exists>e. q_preallocate False q n = Some (e, q)"
    using q_grow_n_ok(2)[OF assms(1), of n 0] assms(2) by (auto simp: q_preallocate_def q_grow_def)
  then show thesis using runq.prealloc_fail[OF assms(1), of n] assms that False by fastforce
qed

lemma fork_preallocate_cases:
  assumes "tlists st S Z Q" "0 \<le> numthreads st" "numthreads st \<le> 2 ^ 24"
  obtains r a z q where "fork_preallocate fm st = Some (r, st\<lparr>sleepers := a, zombies := z, runqueue := q\<rparr>)"
    "tlists (st\<lparr>sleepers := a, zombies := z, runqueue := q\<rparr>) S Z Q" "a_max (sleepers st) \<le> a_max a"
    "r = ESUCCESS \<and> numthreads st + 1 \<le> a_max a \<and> numthreads st \<le> int (q_room q) \<or> r = ENOMEM"
proof -
  let ?n = "numthreads st + 1"
  have w: "c_int ?n = ?n" using assms(2,3) by (intro c_int_id) auto
  have rep: "array_rep (sleepers st) S" "array_rep (zombies st) Z" "q_rep (runqueue st) Q" "q_room (runqueue st) \<le> 2 ^ 26"
    using assms(1) by (simp_all add: tlists_def)
  have n: "?n < 2 ^ 29" "?n < 2 ^ 27" using assms(3) by auto
  obtain r1 a where a: "array_preallocate (fm_sleepers fm) (sleepers st) ?n = Some (r1, a)" "array_rep a S"
    "a_max (sleepers st) \<le> a_max a" "r1 = ESUCCESS \<and> ?n \<le> a_max a \<or> r1 = ENOMEM"
    by (rule array_preallocate_cases[OF rep(1) n(1)])
  obtain r2 z where z: "array_preallocate (fm_zombies fm) (zombies st) ?n = Some (r2, z)" "array_rep z Z"
    "r2 = ESUCCESS \<and> ?n \<le> a_max z \<or> r2 = ENOMEM"
    by (rule array_preallocate_cases[OF rep(2) n(1)])
  obtain r3 q where q: "q_preallocate (fm_queue fm) (runqueue st) ?n = Some (r3, q)" "q_rep q Q"
    "q_room q \<le> max (q_room (runqueue st)) (nat (2 * ?n))" "r3 = ESUCCESS \<and> ?n - 1 \<le> int (q_room q) \<or> r3 = ENOMEM"
    by (rule q_preallocate_cases[OF rep(3) n(2)])
  have room: "q_room q \<le> 2 ^ 26" using q(3) rep(4) assms(3) by auto
  consider "r1 = ENOMEM" | "r1 = ESUCCESS" "r2 = ENOMEM" | "r1 = ESUCCESS" "r2 = ESUCCESS" using a(4) z(3) by blast
  then show thesis
  proof cases
    case 1
    then show thesis using that[of ENOMEM "runqueue st" "zombies st" a] a rep assms(1)
      by (simp add: fork_preallocate_def w tlists_def)
  next
    case 2
    then show thesis using that[of ENOMEM "runqueue st" z a] a z rep assms(1)
      by (simp add: fork_preallocate_def w tlists_def)
  next
    case 3
    then show thesis using that[of r3 q z a] a z q rep room assms(1)
      by (simp add: fork_preallocate_def w tlists_def scheduler_preallocate_def)
  qed
qed

end
