(* ===== verification/Thread_Synch.thy ===== *)
theory Thread_Synch
  imports Thread_Core
begin

text \<open>
  Semaphores, locks and condition variables, \<open>src/kern/thread/synch.c\<close>, the clock,
  \<open>hardclock.c\<close>, and the steps of a kernel that uses them.

  A primitive that may sleep sleeps in a loop that tests its condition again.  Its function here is
  one round of that loop, with interrupts off from the test to the switch: it says whether the call
  is complete, and when it is not the call stays at the head of the thread's list, so the thread
  makes another round when it runs again.
\<close>

section \<open>Model\<close>

subsection \<open>Semaphores\<close>

definition sem_create :: "nat option \<Rightarrow> bool \<Rightarrow> int \<Rightarrow> tsys \<Rightarrow> (nat option \<times> tsys) option" where
  "sem_create mem name initial_count st = do {
     kassert (initial_count \<ge> 0);
     Some (case mem of
         None \<Rightarrow> (None, st)
       | Some s \<Rightarrow> if \<not> name then (None, st)
                  else (Some s, st\<lparr>sem_count := (sem_count st)(s \<mapsto> initial_count)\<rparr>)) }"

definition sem_destroy :: "nat \<Rightarrow> tsys \<Rightarrow> tsys option" where
  "sem_destroy s st = do {
     b \<leftarrow> thread_hassleepers (Sem s) st;
     kassert (\<not> b);
     Some (st\<lparr>sem_count := (sem_count st)(s := None)\<rparr>) }"

definition P_round :: "(nat \<Rightarrow> bool) \<Rightarrow> nat \<Rightarrow> tsys \<Rightarrow> (bool \<times> tsys) option" where
  "P_round ok s st = do {
     count \<leftarrow> sem_count st s;
     if count = 0 then do { st \<leftarrow> thread_sleep ok (Sem s) st; Some (False, st) }
     else do {
       kassert (count > 0);
       Some (True, st\<lparr>sem_count := (sem_count st)(s \<mapsto> count - 1)\<rparr>) } }"

definition sem_V :: "(nat \<Rightarrow> bool) \<Rightarrow> nat \<Rightarrow> tsys \<Rightarrow> tsys option" where
  "sem_V ok s st = do {
     count \<leftarrow> sem_count st s;
     let count = c_int (count + 1);
     kassert (count > 0);
     thread_wakeup ok (Sem s) (st\<lparr>sem_count := (sem_count st)(s \<mapsto> count)\<rparr>) }"

subsection \<open>Locks\<close>

definition lock_create :: "nat option \<Rightarrow> bool \<Rightarrow> tsys \<Rightarrow> nat option \<times> tsys" where
  "lock_create mem name st =
     (case mem of
        None \<Rightarrow> (None, st)
      | Some l \<Rightarrow> if \<not> name then (None, st) else (Some l, st\<lparr>lock_holder := (lock_holder st)(l \<mapsto> None)\<rparr>))"

definition lock_destroy :: "nat \<Rightarrow> tsys \<Rightarrow> tsys option" where
  "lock_destroy l st = do {
     holder \<leftarrow> lock_holder st l;
     kassert (holder = None);
     Some (st\<lparr>lock_holder := (lock_holder st)(l := None)\<rparr>) }"

definition acquire_round :: "(nat \<Rightarrow> bool) \<Rightarrow> nat \<Rightarrow> tsys \<Rightarrow> (bool \<times> tsys) option" where
  "acquire_round ok l st = do {
     holder \<leftarrow> lock_holder st l;
     if holder \<noteq> None then do { st \<leftarrow> thread_sleep ok (Lock l) st; Some (False, st) }
     else Some (True, st\<lparr>lock_holder := (lock_holder st)(l \<mapsto> curthread st)\<rparr>) }"

definition lock_do_i_hold :: "nat \<Rightarrow> tsys \<Rightarrow> bool option" where
  "lock_do_i_hold l st = do { holder \<leftarrow> lock_holder st l; Some (curthread st = holder) }"

definition lock_release :: "(nat \<Rightarrow> bool) \<Rightarrow> nat \<Rightarrow> tsys \<Rightarrow> tsys option" where
  "lock_release ok l st = do {
     holder \<leftarrow> lock_holder st l;
     kassert (holder \<noteq> None);
     mine \<leftarrow> lock_do_i_hold l st;
     kassert mine;
     thread_wakeup ok (Lock l) (st\<lparr>lock_holder := (lock_holder st)(l \<mapsto> None)\<rparr>) }"

subsection \<open>Condition variables\<close>

text \<open>\<open>cv_wait\<close> up to the sleep; taking the lock again is what the thread does next.\<close>

definition cv_wait :: "(nat \<Rightarrow> bool) \<Rightarrow> nat \<Rightarrow> nat \<Rightarrow> tsys \<Rightarrow> tsys option" where
  "cv_wait ok cv l st = do { st \<leftarrow> lock_release ok l st; thread_sleep ok (Cv cv) st }"

definition cv_signal :: "(nat \<Rightarrow> bool) \<Rightarrow> nat \<Rightarrow> nat \<Rightarrow> tsys \<Rightarrow> tsys option" where
  "cv_signal ok cv l st = do {
     mine \<leftarrow> lock_do_i_hold l st;
     kassert mine;
     thread_wakeup_one ok (Cv cv) st }"

definition cv_broadcast :: "(nat \<Rightarrow> bool) \<Rightarrow> nat \<Rightarrow> nat \<Rightarrow> tsys \<Rightarrow> tsys option" where
  "cv_broadcast ok cv l st = do {
     mine \<leftarrow> lock_do_i_hold l st;
     kassert mine;
     thread_wakeup ok (Cv cv) st }"

subsection \<open>The clock\<close>

definition HZ :: int where
  "HZ = 100"

definition hardclock :: "(nat \<Rightarrow> bool) \<Rightarrow> tsys \<Rightarrow> tsys option" where
  "hardclock ok st = do {
     let n = lbolt_counter st + 1;
     st \<leftarrow> (if n \<ge> HZ then thread_wakeup ok Lbolt (st\<lparr>lbolt_counter := 0\<rparr>) else Some (st\<lparr>lbolt_counter := n\<rparr>));
     thread_yield ok st }"

subsection \<open>Steps\<close>

datatype event =
    Ev_P nat nat | Ev_V nat
  | Ev_acquire nat nat | Ev_release nat nat
  | Ev_run nat | Ev_exit nat
  | Ev_sem nat int | Ev_nosem nat

definition set_code :: "nat \<Rightarrow> kcall list \<Rightarrow> tsys \<Rightarrow> tsys" where
  "set_code t cs st = set_thread t (t_code_update (\<lambda>_. cs)) st"

text \<open>One call, or one round of one, by the current thread; \<open>cs\<close> are the calls after it.\<close>

definition run_call :: "(nat \<Rightarrow> bool) \<Rightarrow> nat \<Rightarrow> kcall \<Rightarrow> kcall list \<Rightarrow> tsys \<Rightarrow> (event list \<times> tsys) option" where
  "run_call ok cur c cs st =
     (case c of
        C_P s \<Rightarrow> do {
          (fin, st) \<leftarrow> P_round ok s st;
          Some (if fin then ([Ev_P cur s], set_code cur cs st) else ([], st)) }
      | C_V s \<Rightarrow> do { st \<leftarrow> sem_V ok s (set_code cur cs st); Some ([Ev_V s], st) }
      | C_acquire l \<Rightarrow> do {
          (fin, st) \<leftarrow> acquire_round ok l st;
          Some (if fin then ([Ev_acquire cur l], set_code cur cs st) else ([], st)) }
      | C_release l \<Rightarrow> do { st \<leftarrow> lock_release ok l (set_code cur cs st); Some ([Ev_release cur l], st) }
      | C_wait cv l \<Rightarrow> do {
          st \<leftarrow> cv_wait ok cv l (set_code cur (C_acquire l # cs) st); Some ([Ev_release cur l], st) }
      | C_signal cv l \<Rightarrow> do { st \<leftarrow> cv_signal ok cv l (set_code cur cs st); Some ([], st) }
      | C_broadcast cv l \<Rightarrow> do { st \<leftarrow> cv_broadcast ok cv l (set_code cur cs st); Some ([], st) }
      | C_yield \<Rightarrow> do { st \<leftarrow> thread_yield ok (set_code cur cs st); Some ([], st) }
      | C_clocksleep n \<Rightarrow>
          if n > 0 then do {
            st \<leftarrow> thread_sleep ok Lbolt (set_code cur (C_clocksleep (n - 1) # cs) st); Some ([], st) }
          else Some ([], set_code cur cs st))"

text \<open>
  What can happen next: the current thread makes a call, starts a thread, makes or destroys a
  primitive, or comes to its end; a device interrupts and signals a semaphore; the clock ticks; or,
  when no thread is current, the scheduler finds one.  New structures lie in memory that is free.
\<close>

inductive kstep :: "tsys \<Rightarrow> event list \<Rightarrow> tsys \<Rightarrow> bool" where
  call: "\<lbrakk>curthread st = Some cur; thr st cur = Some th; t_code th = c # cs;
          run_call ok cur c cs st = Some (evs, st')\<rbrakk> \<Longrightarrow> kstep st evs st'"
| exit: "\<lbrakk>curthread st = Some cur; thr st cur = Some th; t_code th = [];
          thread_exit ok st = Some st'\<rbrakk> \<Longrightarrow> kstep st [Ev_exit cur] st'"
| fork: "\<lbrakk>curthread st = Some cur; \<forall>a. fm_thread fm = Some a \<longrightarrow> thr st a = None \<and> a < 2 ^ 24;
          thread_fork fm ok rnd code st = Some (r, st')\<rbrakk> \<Longrightarrow> kstep st [] st'"
| new_sem: "\<lbrakk>sem_count st s = None; n < 2 ^ 31; sem_create (Some s) True n st = Some (Some s, st')\<rbrakk>
          \<Longrightarrow> kstep st [Ev_sem s n] st'"
| old_sem: "sem_destroy s st = Some st' \<Longrightarrow> kstep st [Ev_nosem s] st'"
| new_lock: "\<lbrakk>lock_holder st l = None; lock_create (Some l) True st = (Some l, st')\<rbrakk> \<Longrightarrow> kstep st [] st'"
| old_lock: "lock_destroy l st = Some st' \<Longrightarrow> kstep st [] st'"
| device: "sem_V ok s st = Some st' \<Longrightarrow> kstep st [Ev_V s] st'"
| clock: "hardclock ok st = Some st' \<Longrightarrow> kstep st [] st'"
| resume: "\<lbrakk>curthread st = None; \<not> q_empty (runqueue st); mi_resume st = Some st'; curthread st' = Some t\<rbrakk>
          \<Longrightarrow> kstep st [Ev_run t] st'"

inductive ksteps :: "tsys \<Rightarrow> event list \<Rightarrow> tsys \<Rightarrow> bool" where
  none: "ksteps st [] st"
| more: "ksteps st evs st1 \<Longrightarrow> kstep st1 evs' st2 \<Longrightarrow> ksteps st (evs @ evs') st2"

section \<open>Invariant\<close>

definition cur_list :: "tsys \<Rightarrow> nat list" where
  "cur_list st = (case curthread st of None \<Rightarrow> [] | Some c \<Rightarrow> [c])"

text \<open>
  Every thread is in exactly one place; the count of threads is right; the array of sleepers has
  room for all of them once there is more than one; ids point back at their threads, the first
  thread, which has none, apart.
\<close>

definition tcore :: "tsys \<Rightarrow> nat list \<Rightarrow> nat list \<Rightarrow> nat list \<Rightarrow> bool" where
  "tcore st S Z Q \<longleftrightarrow> tlists st S Z Q
     \<and> distinct (cur_list st @ Q @ S @ Z) \<and> dom (thr st) = set (cur_list st @ Q @ S @ Z)
     \<and> dom (thr st) \<subseteq> {..<2 ^ 24}
     \<and> numthreads st = int (length (cur_list st @ Q @ S))
     \<and> (numthreads st \<le> 1 \<or> numthreads st \<le> a_max (sleepers st))
     \<and> (\<forall>th\<in>ran (thr st). stack_intact th)
     \<and> (\<forall>c\<in>ran (sem_count st). 0 \<le> c \<and> c < 2 ^ 31)"

definition has_pid :: "tsys \<Rightarrow> nat \<Rightarrow> bool" where
  "has_pid st t \<longleftrightarrow> (\<exists>th pid. thr st t = Some th \<and> t_pid th = Some pid \<and> 1 \<le> pid \<and> pid \<le> int PID_MAX
     \<and> pid_getthread pid (tpids st) = Some (Some t))"

definition pid_link :: "tsys \<Rightarrow> nat \<Rightarrow> nat \<Rightarrow> bool" where
  "pid_link st boot t = (if t = boot then Option.bind (thr st t) t_pid = None else has_pid st t)"

definition tpid_ok :: "tsys \<Rightarrow> nat list \<Rightarrow> nat list \<Rightarrow> bool" where
  "tpid_ok st S Q \<longleftrightarrow> pids_ok (tpids st) \<and> (\<exists>boot. \<forall>t\<in>set (cur_list st @ Q @ S). pid_link st boot t)"

text \<open>What a sleeper waits for has not come: the semaphore is 0, the lock is held.\<close>

definition waits :: "tsys \<Rightarrow> nat \<Rightarrow> bool" where
  "waits st t = (case thr st t of
       None \<Rightarrow> False
     | Some th \<Rightarrow> t_pcb th = Sleeping \<and>
         (case t_sleepaddr th of
            None \<Rightarrow> False
          | Some (Sem s) \<Rightarrow> sem_count st s = Some 0 \<and> (\<exists>cs. t_code th = C_P s # cs)
          | Some (Lock l) \<Rightarrow> (\<exists>h. lock_holder st l = Some (Some h)) \<and> (\<exists>cs. t_code th = C_acquire l # cs)
          | Some (Cv c) \<Rightarrow> \<exists>l cs. t_code th = C_acquire l # cs
          | Some Lbolt \<Rightarrow> \<exists>n cs. t_code th = C_clocksleep n # cs))"

definition tinv :: "tsys \<Rightarrow> nat list \<Rightarrow> nat list \<Rightarrow> nat list \<Rightarrow> bool" where
  "tinv st S Z Q \<longleftrightarrow> tcore st S Z Q \<and> tpid_ok st S Q \<and> (\<forall>t\<in>set S. waits st t)"

lemma tcore_lengths:
  assumes "tcore st S Z Q"
  shows "length Q + length S + length Z + length (cur_list st) \<le> 2 ^ 24" "set S \<subseteq> dom (thr st)" "set Z \<subseteq> dom (thr st)"
    "distinct Z" "set Z \<inter> set_option (curthread st) = {}"
proof -
  have d: "distinct (cur_list st @ Q @ S @ Z)" "set (cur_list st @ Q @ S @ Z) \<subseteq> {..<2 ^ 24}"
    "dom (thr st) = set (cur_list st @ Q @ S @ Z)"
    using assms by (auto simp: tcore_def)
  have "length (cur_list st @ Q @ S @ Z) = card (set (cur_list st @ Q @ S @ Z))" using distinct_card[OF d(1)] by simp
  also have "\<dots> \<le> 2 ^ 24" using card_mono[OF _ d(2)] by simp
  finally show "length Q + length S + length Z + length (cur_list st) \<le> 2 ^ 24" by simp
  show "set S \<subseteq> dom (thr st)" "set Z \<subseteq> dom (thr st)" "distinct Z" using d by auto
  show "set Z \<inter> set_option (curthread st) = {}" using d(1) by (auto simp: cur_list_def split: option.splits)
qed

lemma pid_link_cong:
  assumes "map_option t_pid (thr st' t) = map_option t_pid (thr st t)" "tpids st' = tpids st"
  shows "pid_link st' boot t = pid_link st boot t"
  using assms by (cases "thr st t"; cases "thr st' t") (auto simp: has_pid_def pid_link_def)

lemma tpid_cong:
  assumes "tpid_ok st S Q" "\<And>t. t \<in> set (cur_list st' @ Q' @ S') \<Longrightarrow> map_option t_pid (thr st' t) = map_option t_pid (thr st t)"
    and "tpids st' = tpids st" "set (cur_list st' @ Q' @ S') \<subseteq> set (cur_list st @ Q @ S)"
  shows "tpid_ok st' S' Q'"
proof -
  obtain boot where b: "\<forall>t\<in>set (cur_list st @ Q @ S). pid_link st boot t" and p: "pids_ok (tpids st)"
    using assms(1) by (auto simp: tpid_ok_def)
  have "pid_link st' boot t" if t: "t \<in> set (cur_list st' @ Q' @ S')" for t
    using b subsetD[OF assms(4) t] pid_link_cong[OF assms(2)[OF t] assms(3), of boot] by blast
  then show ?thesis using p assms(3) unfolding tpid_ok_def by auto
qed

lemma tpid_mono:
  assumes "tpid_ok st S Q" "thr st' = thr st" "tpids st' = tpids st"
    and "set (cur_list st' @ Q' @ S') \<subseteq> set (cur_list st @ Q @ S)"
  shows "tpid_ok st' S' Q'"
  by (rule tpid_cong[OF assms(1) _ assms(3,4)]) (simp add: assms(2))

lemma waits_cong:
  assumes "thr st' t = thr st t"
    and "\<And>s. sleepaddr st t = Some (Sem s) \<Longrightarrow> sem_count st' s = sem_count st s"
    and "\<And>l. sleepaddr st t = Some (Lock l) \<Longrightarrow> lock_holder st' l = lock_holder st l"
  shows "waits st' t = waits st t"
  using assms by (auto simp: waits_def sleepaddr_def split: option.splits waddr.splits)

text \<open>Waking the sleepers of an address repairs the invariant when they were all that broke it.\<close>

lemma wakeup_inv:
  assumes "tcore st S Z Q" "tpid_ok st S Q" "\<forall>t\<in>set S. sleepaddr st t \<noteq> Some addr \<longrightarrow> waits st t"
    and "thread_wakeup ok addr st = Some st'"
  obtains a q where "st' = st\<lparr>sleepers := a, runqueue := q\<rparr>"
    "tinv st' (filter (\<lambda>t. sleepaddr st t \<noteq> Some addr) S) Z (Q @ filter (\<lambda>t. sleepaddr st t = Some addr) S)"
proof -
  let ?S = "filter (\<lambda>t. sleepaddr st t \<noteq> Some addr) S" and ?W = "filter (\<lambda>t. sleepaddr st t = Some addr) S"
  have tl: "tlists st S Z Q" using assms(1) by (simp add: tcore_def)
  have len: "length Q + length S \<le> 2 ^ 24" using tcore_lengths(1)[OF assms(1)] by simp
  obtain a q where w: "st' = st\<lparr>sleepers := a, runqueue := q\<rparr>" "tlists st' ?S Z (Q @ ?W)" "a_max a = a_max (sleepers st)"
    using tl len tcore_lengths(2)[OF assms(1)] assms(4) by (cases rule: thread_wakeup_cases[where ok = ok and addr = addr]) auto
  have cl: "cur_list st' = cur_list st" by (simp add: w(1) cur_list_def)
  have sets: "set (cur_list st @ (Q @ ?W) @ ?S @ Z) = set (cur_list st @ Q @ S @ Z)" by auto
  have lens: "length ?W + length ?S = length S" using sum_length_filter_compl[of "\<lambda>t. sleepaddr st t = Some addr" S] by simp
  have "distinct (cur_list st @ (Q @ ?W) @ ?S @ Z)" using assms(1) by (auto simp: tcore_def)
  then have "tcore st' ?S Z (Q @ ?W)"
    using assms(1) w lens unfolding tcore_def cl sets by (auto simp: w(1))
  moreover have "tpid_ok st' ?S (Q @ ?W)" by (rule tpid_mono[OF assms(2)]) (auto simp: w(1) cur_list_def)
  moreover have "waits st' t" if "t \<in> set ?S" for t
    using assms(3) that waits_cong[of st' t st] by (auto simp: w(1))
  ultimately show thesis using that[OF w(1)] by (simp add: tinv_def)
qed

lemma wakeup_one_inv:
  assumes "tinv st S Z Q" "thread_wakeup_one ok addr st = Some st'"
  obtains S' Q' a q where "st' = st\<lparr>sleepers := a, runqueue := q\<rparr>" "tinv st' S' Z Q'" "\<exists>W. Q' = Q @ W"
proof -
  have core: "tcore st S Z Q" and pid: "tpid_ok st S Q" and w: "\<forall>t\<in>set S. waits st t" using assms(1) by (auto simp: tinv_def)
  have tl: "tlists st S Z Q" "length Q \<le> 2 ^ 24" using core tcore_lengths(1)[OF core] by (auto simp: tcore_def)
  from tl tcore_lengths(2)[OF core] show thesis
  proof (cases rule: thread_wakeup_one_cases[where ok = ok and addr = addr])
    case none
    then show thesis using that[of "runqueue st" "sleepers st" S Q] assms by simp
  next
    case (one S1 t S2 a q)
    let ?S = "S1 @ S2" and ?Q = "Q @ [t]"
    have st': "st' = st\<lparr>sleepers := a, runqueue := q\<rparr>" using one(4) assms(2) by simp
    have cl: "cur_list st' = cur_list st" by (simp add: st' cur_list_def)
    have "distinct (cur_list st @ ?Q @ ?S @ Z)" "set (cur_list st @ ?Q @ ?S @ Z) = set (cur_list st @ Q @ S @ Z)"
      using core one(1) by (auto simp: tcore_def)
    then have "tcore st' ?S Z ?Q"
      using core one(1,5,6) unfolding tcore_def cl by (auto simp: st')
    moreover have "tpid_ok st' ?S ?Q" by (rule tpid_mono[OF pid]) (auto simp: st' cur_list_def one(1))
    moreover have "waits st' t" if "t \<in> set ?S" for t
      using w that one(1) waits_cong[of st' t st] by (auto simp: st')
    ultimately show thesis using that[OF st', of ?S ?Q] by (simp add: tinv_def)
  next
    case nomem
    then show thesis using assms(2) by simp
  qed
qed

lemma set_thread_simps [simp]:
  "curthread (set_thread t f st) = curthread st" "sleepers (set_thread t f st) = sleepers st"
  "zombies (set_thread t f st) = zombies st" "numthreads (set_thread t f st) = numthreads st"
  "runqueue (set_thread t f st) = runqueue st" "tpids (set_thread t f st) = tpids st"
  "sem_count (set_thread t f st) = sem_count st" "lock_holder (set_thread t f st) = lock_holder st"
  "lbolt_counter (set_thread t f st) = lbolt_counter st" "dom (thr (set_thread t f st)) = dom (thr st)"
  "thr (set_thread t f st) t = map_option f (thr st t)" "u \<noteq> t \<Longrightarrow> thr (set_thread t f st) u = thr st u"
  by (auto simp: set_thread_def split: if_splits)

lemma cur_list_set_thread [simp]: "cur_list (set_thread t f st) = cur_list st"
  by (simp add: cur_list_def)

lemma tcore_set_thread:
  assumes "tcore st S Z Q" "\<And>th. t_stack (f th) = t_stack th"
  shows "tcore (set_thread c f st) S Z Q"
proof -
  have "stack_intact th" if th: "th \<in> ran (thr (set_thread c f st))" for th
  proof -
    obtain t where t: "thr (set_thread c f st) t = Some th" using th by (auto simp: ran_def)
    then obtain th0 where "thr st t = Some th0" "t_stack th = t_stack th0"
      using assms(2) by (cases "t = c") auto
    then show ?thesis using assms(1) by (auto simp: tcore_def stack_intact_def ran_def)
  qed
  then show ?thesis using assms(1) unfolding tcore_def tlists_def by (auto simp del: append_assoc)
qed

lemma tpid_set_thread:
  assumes "tpid_ok st S Q" "\<And>th. t_pid (f th) = t_pid th"
  shows "tpid_ok (set_thread c f st) S Q"
proof (rule tpid_cong[OF assms(1)])
  show "map_option t_pid (thr (set_thread c f st) t) = map_option t_pid (thr st t)" for t
    by (cases "t = c") (simp_all add: option.map_comp assms(2) comp_def)
qed simp_all

lemma waits_set_thread: "t \<noteq> c \<Longrightarrow> waits (set_thread c f st) t = waits st t"
  by (rule waits_cong) simp_all

lemma cur_not_sleeping: "tcore st S Z Q \<Longrightarrow> curthread st = Some c \<Longrightarrow> c \<notin> set S"
  by (auto simp: tcore_def cur_list_def)

lemma tinv_set_cur:
  assumes "tinv st S Z Q" "curthread st = Some c" "\<And>th. t_stack (f th) = t_stack th" "\<And>th. t_pid (f th) = t_pid th"
  shows "tinv (set_thread c f st) S Z Q"
proof -
  have core: "tcore st S Z Q" using assms(1) by (simp add: tinv_def)
  have "waits (set_thread c f st) t" if "t \<in> set S" for t
    using that waits_set_thread[of t c f st] cur_not_sleeping[OF core assms(2)] assms(1) by (auto simp: tinv_def)
  then show ?thesis
    using tcore_set_thread[OF core assms(3)] tpid_set_thread[of st S Q f c] assms(1,4) by (simp add: tinv_def)
qed

lemma set_code_inv: "tinv st S Z Q \<Longrightarrow> curthread st = Some c \<Longrightarrow> tinv (set_code c cs st) S Z Q"
  unfolding set_code_def by (rule tinv_set_cur) auto

text \<open>Leaving the processor.\<close>

lemma cur_thread:
  assumes "tcore st S Z Q" "curthread st = Some c"
  obtains th where "thr st c = Some th" "stack_intact th"
proof -
  have "c \<in> set (cur_list st @ Q @ S @ Z)" using assms(2) by (simp add: cur_list_def)
  then have "c \<in> dom (thr st)" using assms(1) by (simp add: tcore_def)
  then obtain th where th: "thr st c = Some th" by blast
  then have "th \<in> ran (thr st)" by (rule ranI)
  then show thesis using that[OF th] assms(1) by (simp add: tcore_def)
qed

lemma ready_inv:
  assumes "tinv st S Z Q" "curthread st = Some c" "mi_switch ok S_READY st = Some st'"
  obtains q where "st' = st\<lparr>curthread := None, runqueue := q\<rparr>" "tinv st' S Z (Q @ [c])"
proof -
  have core: "tcore st S Z Q" and pid: "tpid_ok st S Q" and w: "\<forall>t\<in>set S. waits st t" using assms(1) by (auto simp: tinv_def)
  obtain th where th: "thr st c = Some th" "stack_intact th" by (rule cur_thread[OF core assms(2)])
  have tl: "tlists st S Z Q" "length Q + length S + length Z \<le> 2 ^ 24"
    using core tcore_lengths(1)[OF core] by (auto simp: tcore_def)
  obtain q where q: "st' = st\<lparr>curthread := None, runqueue := q\<rparr>" "tlists st' S Z (Q @ [c])"
    using tl(1) assms(2) th tl(2) assms(3) by (cases rule: mi_switch_cases[where ok = ok and nxt = S_READY]) auto
  have cl: "cur_list st' = []" "cur_list st = [c]" by (simp_all add: q(1) cur_list_def assms(2))
  have "tcore st' S Z (Q @ [c])" using core q unfolding tcore_def cl by (auto simp: q(1))
  moreover have "tpid_ok st' S (Q @ [c])" by (rule tpid_mono[OF pid]) (auto simp: q(1) cur_list_def assms(2))
  moreover have "waits st' t" if "t \<in> set S" for t using w that waits_cong[of st' t st] by (auto simp: q(1))
  ultimately show thesis using that[OF q(1)] by (simp add: tinv_def)
qed

lemma yield_inv:
  assumes "tinv st S Z Q" "thread_yield ok st = Some st'"
  obtains Q' where "tinv st' S Z Q'" "\<exists>W. Q' = Q @ W" "sem_count st' = sem_count st" "lock_holder st' = lock_holder st"
    "curthread st = None \<longrightarrow> curthread st' = None"
proof (cases "curthread st")
  case None
  then show thesis using that[of Q] assms by (simp add: thread_yield_def)
next
  case (Some c)
  let ?st = "set_thread c (t_pcb_update (\<lambda>_. Yielding)) st"
  have "tinv ?st S Z Q" using assms(1) Some by (intro tinv_set_cur) auto
  moreover have "curthread ?st = Some c" "mi_switch ok S_READY ?st = Some st'"
    using assms(2) Some by (simp_all add: thread_yield_def)
  ultimately show thesis by (rule ready_inv) (use that[of "Q @ [c]"] Some in auto)
qed

definition to_sleep :: "nat \<Rightarrow> waddr \<Rightarrow> tsys \<Rightarrow> tsys" where
  "to_sleep c addr st = set_thread c (\<lambda>th. th\<lparr>t_sleepaddr := Some addr, t_pcb := Sleeping\<rparr>) st"

lemma sleep_inv:
  assumes "tinv st S Z Q" "curthread st = Some c" "waits (to_sleep c addr st) c" "thread_sleep ok addr st = Some st'"
  obtains a where "st' = (to_sleep c addr st)\<lparr>curthread := None, sleepers := a\<rparr>" "tinv st' (S @ [c]) Z Q"
proof -
  let ?st = "to_sleep c addr st"
  have inv: "tinv ?st S Z Q" unfolding to_sleep_def using assms(1,2) by (intro tinv_set_cur) auto
  have cur: "curthread ?st = Some c" using assms(2) by (simp add: to_sleep_def)
  have core: "tcore ?st S Z Q" and pid: "tpid_ok ?st S Q" and w: "\<forall>t\<in>set S. waits ?st t" using inv by (auto simp: tinv_def)
  obtain th where th: "thr ?st c = Some th" "stack_intact th" by (rule cur_thread[OF core cur])
  have tl: "tlists ?st S Z Q" "length Q + length S + length Z \<le> 2 ^ 24"
    using core tcore_lengths(1)[OF core] by (auto simp: tcore_def)
  have sw: "mi_switch ok S_SLEEP ?st = Some st'" using assms(2,4) by (simp add: thread_sleep_def to_sleep_def)
  obtain a where a: "st' = ?st\<lparr>curthread := None, sleepers := a\<rparr>" "tlists st' (S @ [c]) Z Q" "a_max (sleepers ?st) \<le> a_max a"
    using tl(1) cur th tl(2) sw by (cases rule: mi_switch_cases[where ok = ok and nxt = S_SLEEP]) auto
  have cl: "cur_list st' = []" "cur_list ?st = [c]" by (simp_all add: a(1) cur_list_def cur)
  have "tcore st' (S @ [c]) Z Q" using core a unfolding tcore_def cl by (auto simp: a(1))
  moreover have "tpid_ok st' (S @ [c]) Q" by (rule tpid_mono[OF pid]) (auto simp: a(1) cur_list_def cur)
  moreover have "waits st' t" if "t \<in> set (S @ [c])" for t
    using w assms(3) that waits_cong[of st' t ?st] by (auto simp: a(1))
  ultimately show thesis using that[OF a(1)] by (simp add: tinv_def)
qed

text \<open>Getting the processor: a thread that ran before buries the zombies.\<close>

lemma bury_core:
  assumes "tcore st S Z (t # Q)" "curthread st = None" "thr st t = Some th" "t_stack th' = t_stack th"
    and "tlists st' S [] Q" "st' = st\<lparr>curthread := Some t, runqueue := q, zombies := a, thr := (thr st |` (- set Z))(t \<mapsto> th')\<rparr>"
  shows "tcore st' S [] Q"
proof -
  have cl: "cur_list st = []" "cur_list st' = [t]" using assms(2) by (simp_all add: cur_list_def assms(6))
  have d: "distinct ((t # Q) @ S @ Z)" "dom (thr st) = set ((t # Q) @ S @ Z)" using assms(1) by (auto simp: tcore_def cl)
  have "dom (thr st') = insert t (dom (thr st) - set Z)" by (simp add: assms(6) Diff_eq)
  then have "dom (thr st') = set ([t] @ Q @ S @ [])" using d by auto
  moreover have "stack_intact x" if "x \<in> ran (thr st')" for x
  proof -
    have "ran (thr st') \<subseteq> insert th' (ran (thr st))" by (auto simp: assms(6) ran_def restrict_map_def split: if_splits)
    moreover have "stack_intact th'" using assms(1,3,4) by (auto simp: tcore_def stack_intact_def ran_def)
    ultimately show ?thesis using that assms(1) by (auto simp: tcore_def)
  qed
  moreover have "distinct ([t] @ Q @ S @ [])" "dom (thr st') \<subseteq> {..<2 ^ 24}" "numthreads st' = int (length ([t] @ Q @ S))"
    "numthreads st' \<le> 1 \<or> numthreads st' \<le> a_max (sleepers st')" "\<forall>c\<in>ran (sem_count st'). 0 \<le> c \<and> c < 2 ^ 31"
    using assms(1) d by (auto simp: tcore_def cl assms(6) Diff_eq[symmetric])
  ultimately show ?thesis unfolding tcore_def cl using assms(5) by blast
qed

lemma bury_pid:
  assumes "tpid_ok st S (t # Q)" "curthread st = None" "thr st t = Some th" "t_pid th' = t_pid th"
    and "\<And>u. u \<in> set (Q @ S) \<Longrightarrow> thr st' u = thr st u" "thr st' t = Some th'" "tpids st' = tpids st" "curthread st' = Some t"
  shows "tpid_ok st' S Q"
  by (rule tpid_cong[OF assms(1)]) (use assms(2-8) in \<open>auto simp: cur_list_def\<close>)

lemma resume_inv:
  assumes "tinv st S Z Q" "curthread st = None" "mi_resume st = Some st'"
  obtains t Q' Z' where "Q = t # Q'" "curthread st' = Some t" "tinv st' S Z' Q'"
    "sem_count st' = sem_count st" "lock_holder st' = lock_holder st"
proof (cases Q)
  case Nil
  then have "q_remhead (runqueue st) = None"
    using assms(1) runq.remhead_empty by (auto simp: tinv_def tcore_def tlists_def)
  then show thesis using assms(3) by (simp add: mi_resume_def scheduler_def)
next
  case (Cons t Q')
  have core: "tcore st S Z (t # Q')" and pid: "tpid_ok st S (t # Q')" and w: "\<forall>t\<in>set S. waits st t"
    using assms(1) Cons by (auto simp: tinv_def)
  have cl: "cur_list st = []" using assms(2) by (simp add: cur_list_def)
  have d: "distinct ((t # Q') @ S @ Z)" "dom (thr st) = set ((t # Q') @ S @ Z)" using core by (auto simp: tcore_def cl)
  have tl: "tlists st S Z (t # Q')" using core by (simp add: tcore_def)
  obtain th where th: "thr st t = Some th" using d(2) by fastforce
  have tZ: "t \<notin> set Z" "t \<notin> set S" using d(1) by auto
  note r = mi_resume_ok[OF tl th tcore_lengths(4)[OF core] tZ(1) tcore_lengths(3)[OF core] assms(2)]
  show thesis
  proof (cases "t_pcb th = Fresh")
    case True
    then obtain q where q: "st' = st\<lparr>curthread := Some t, runqueue := q\<rparr>" "tlists st' S Z Q'"
      using r(1) assms(3) by auto
    have cl': "cur_list st' = [t]" by (simp add: q(1) cur_list_def)
    have "tcore st' S Z Q'" using core q unfolding tcore_def cl cl' by (auto simp: q(1))
    moreover have "tpid_ok st' S Q'" by (rule tpid_mono[OF pid]) (auto simp: q(1) cur_list_def assms(2))
    moreover have "waits st' u" if "u \<in> set S" for u using w that waits_cong[of st' u st] by (auto simp: q(1))
    ultimately show thesis using that[OF Cons, of Z] by (simp add: tinv_def q(1))
  next
    case False
    define th' where "th' = (if t_pcb th = Sleeping then th\<lparr>t_sleepaddr := None\<rparr> else th)"
    obtain q a where q: "st' = st\<lparr>curthread := Some t, runqueue := q, zombies := a, thr := (thr st |` (- set Z))(t \<mapsto> th')\<rparr>"
      "tlists st' S [] Q'"
      using r(2)[OF False] assms(3) unfolding th'_def by auto
    have thr': "thr st' u = thr st u" if "u \<in> set (Q' @ S)" for u
      using that d(1) by (auto simp: q(1) restrict_map_def)
    have th'': "thr st' t = Some th'" "t_pid th' = t_pid th" "t_stack th' = t_stack th" by (auto simp: q(1) th'_def)
    have "tcore st' S [] Q'" by (rule bury_core[OF core assms(2) th th''(3) q(2,1)])
    moreover have "tpid_ok st' S Q'" by (rule bury_pid[OF pid assms(2) th th''(2) thr' th''(1)]) (simp_all add: q(1))
    moreover have "waits st' u" if "u \<in> set S" for u using w that waits_cong[of st' u st] thr'[of u] by (simp add: q(1))
    ultimately show thesis using that[OF Cons, of "[]"] by (simp add: tinv_def q(1))
  qed
qed

text \<open>The end of a thread.\<close>

lemma pid_clear_other:
  assumes "pids_ok p" "pid_clear pid p = Some p'"
  shows "pids_ok p'" "q \<noteq> pid \<Longrightarrow> pid_getthread q p' = pid_getthread q p"
  using assms by (auto simp: pid_clear_def pids_ok_def pid_getthread_def wr_def rd_def bind_eq_Some_conv nth_list_update split: if_splits)

lemma exit_pid:
  assumes "tpid_ok st S Q" "curthread st = Some c" "thr st c = Some th" "t_pid th = Some pid" "distinct (c # Q @ S)"
    and "pid_clear pid (tpids st) = Some p" "thr st' = thr st" "tpids st' = p" "curthread st' = None"
  shows "tpid_ok st' S Q"
proof -
  obtain boot where b: "\<forall>t\<in>set (c # Q @ S). pid_link st boot t"
    and ok: "pids_ok (tpids st)"
    using assms(1,2) by (auto simp: tpid_ok_def cur_list_def)
  have c: "c \<noteq> boot" "has_pid st c" using b assms(3,4) by (auto simp: pid_link_def split: if_splits)
  have "has_pid st' u" if u: "u \<in> set (Q @ S)" "has_pid st u" for u
  proof -
    obtain thu q where q: "thr st u = Some thu" "t_pid thu = Some q" "1 \<le> q" "q \<le> int PID_MAX" "pid_getthread q (tpids st) = Some (Some u)"
      using u(2) by (auto simp: has_pid_def)
    have "q \<noteq> pid" using c(2) assms(3-5) q(5) u(1) by (auto simp: has_pid_def)
    then show ?thesis using q pid_clear_other(2)[OF ok assms(6)] assms(7,8) by (auto simp: has_pid_def)
  qed
  then have "\<forall>u\<in>set (Q @ S). pid_link st' boot u" using b assms(7) by (auto simp: pid_link_def)
  then show ?thesis using pid_clear_other(1)[OF ok assms(6)] assms(8,9) by (auto simp: tpid_ok_def cur_list_def)
qed

lemma exit_inv:
  assumes "tinv st S Z Q" "curthread st = Some c" "thread_exit ok st = Some st'"
  obtains "tinv st' S (Z @ [c]) Q" "sem_count st' = sem_count st" "lock_holder st' = lock_holder st" "curthread st' = None"
proof -
  have core: "tcore st S Z Q" and pid: "tpid_ok st S Q" and w: "\<forall>t\<in>set S. waits st t" using assms(1) by (auto simp: tinv_def)
  obtain th where th: "thr st c = Some th" "stack_intact th" by (rule cur_thread[OF core assms(2)])
  obtain i p where p: "t_pid th = Some i" "pid_clear i (tpids st) = Some p"
    and sw: "mi_switch ok S_ZOMB (st\<lparr>tpids := p, numthreads := numthreads st - 1\<rparr>) = Some st'"
    using assms(2,3) th by (auto simp: thread_exit_def bind_eq_Some_conv Let_def split: if_splits)
  let ?st = "st\<lparr>tpids := p, numthreads := numthreads st - 1\<rparr>"
  have tl: "tlists ?st S Z Q" "length Q + length S + length Z \<le> 2 ^ 24"
    using core tcore_lengths(1)[OF core] by (auto simp: tcore_def tlists_def)
  have cur: "curthread ?st = Some c" "thr ?st c = Some th" using assms(2) th by simp_all
  obtain a where a: "st' = ?st\<lparr>curthread := None, zombies := a\<rparr>" "tlists st' S (Z @ [c]) Q"
    using tl(1) cur th(2) tl(2) sw by (cases rule: mi_switch_cases[where ok = ok and nxt = S_ZOMB]) auto
  have cl: "cur_list st' = []" "cur_list st = [c]" by (simp_all add: a(1) cur_list_def assms(2))
  have "tcore st' S (Z @ [c]) Q" using core a unfolding tcore_def cl by (auto simp: a(1))
  moreover have "distinct (c # Q @ S)" using core by (auto simp: tcore_def cl)
  then have "tpid_ok st' S Q" by (rule exit_pid[OF pid assms(2) th(1) p(1) _ p(2)]) (simp_all add: a(1))
  moreover have "waits st' t" if "t \<in> set S" for t using w that waits_cong[of st' t st] by (auto simp: a(1))
  ultimately show thesis by (intro that) (simp_all add: tinv_def a(1))
qed

text \<open>A new thread.\<close>

definition pid_keep :: "pids \<Rightarrow> pids \<Rightarrow> bool" where
  "pid_keep p p' \<longleftrightarrow> pids_ok p' \<and> (\<forall>pid t. pid_getthread pid p = Some (Some t) \<longrightarrow> pid_getthread pid p' = Some (Some t))"

lemma pid_getnext_keep:
  assumes "pids_ok p" "pid_getnext rnd a p = Some (pid, p')"
  shows "pid_keep p p'" "pid = 0 \<or> 1 \<le> pid \<and> pid \<le> int PID_MAX \<and> pid_getthread pid p' = Some (Some a)"
proof -
  have o: "pids_ok p'" "if pid = 0 then p' = p \<and> (\<forall>s\<in>insert (unat (rnd mod 128)) {1..<PID_MAX}. taken p s)
     else \<exists>s<PID_MAX. pid = int s + 1 \<and> \<not> taken p s
       \<and> p' = \<lparr>pid_table = (pid_table p)[s := Some a], exitcodes = (exitcodes p)[s := - 1]\<rparr>"
    using pid_getnext_outcome[OF assms(1), of rnd a] assms(2) by auto
  show "pid = 0 \<or> 1 \<le> pid \<and> pid \<le> int PID_MAX \<and> pid_getthread pid p' = Some (Some a)"
    using o(2) assms(1) by (auto simp: pid_getthread_def rd_def pids_ok_def split: if_splits)
  have "pid_getthread q p' = Some (Some t)" if "pid_getthread q p = Some (Some t)" for q t
    using that o(2) assms(1) by (auto simp: pid_getthread_def rd_def nth_list_update taken_def pids_ok_def split: if_splits)
  then show "pid_keep p p'" using o(1) by (simp add: pid_keep_def)
qed

text \<open>A call that fails changes no list, and no id but the one it leaks.\<close>

definition fork_failed :: "tsys \<Rightarrow> nat list \<Rightarrow> nat list \<Rightarrow> nat list \<Rightarrow> tsys \<Rightarrow> bool" where
  "fork_failed st S Z Q st' \<longleftrightarrow>
     st' = st\<lparr>sleepers := sleepers st', zombies := zombies st', runqueue := runqueue st', tpids := tpids st'\<rparr>
     \<and> tlists st' S Z Q \<and> a_max (sleepers st) \<le> a_max (sleepers st') \<and> pid_keep (tpids st) (tpids st')"

definition fork_started :: "tsys \<Rightarrow> nat list \<Rightarrow> nat list \<Rightarrow> nat list \<Rightarrow> nat \<Rightarrow> kcall list \<Rightarrow> tsys \<Rightarrow> bool" where
  "fork_started st S Z Q a code st' \<longleftrightarrow> (\<exists>stk pid.
     let th = \<lparr>t_pcb = Fresh, t_sleepaddr = None, t_stack = stk, t_pid = Some pid, t_code = code\<rparr> in
     st' = st\<lparr>sleepers := sleepers st', zombies := zombies st', runqueue := runqueue st', tpids := tpids st',
       thr := (thr st)(a \<mapsto> th), numthreads := numthreads st + 1\<rparr>
     \<and> tlists st' S Z (Q @ [a]) \<and> numthreads st + 1 \<le> a_max (sleepers st') \<and> pid_keep (tpids st) (tpids st')
     \<and> stack_intact th \<and> 1 \<le> pid \<and> pid \<le> int PID_MAX \<and> pid_getthread pid (tpids st') = Some (Some a))"

text \<open>The part with interrupts off, for a structure that is ready.\<close>

definition fork_enter :: "fork_mem \<Rightarrow> (nat \<Rightarrow> bool) \<Rightarrow> nat \<Rightarrow> tsys \<Rightarrow> (errno \<times> tsys) option" where
  "fork_enter fm ok new st = do {
     (result, st) \<leftarrow> fork_preallocate fm st;
     if result \<noteq> ESUCCESS then fork_fail result new st
     else do {
       (result, st) \<leftarrow> make_runnable ok new st;
       if result \<noteq> ESUCCESS then fork_fail result new st
       else Some (ESUCCESS, st\<lparr>numthreads := c_int (numthreads st + 1)\<rparr>) } }"

lemma fork_enter_cases:
  assumes "tlists st S Z Q" "0 \<le> numthreads st" "numthreads st < 2 ^ 24" "length Q \<le> 2 ^ 24" "fork_enter fm ok a st = Some (r, st')"
  shows "r \<noteq> ESUCCESS \<and> tlists st' S Z Q \<and> a_max (sleepers st) \<le> a_max (sleepers st')
      \<and> st' = st\<lparr>sleepers := sleepers st', zombies := zombies st', runqueue := runqueue st', thr := (thr st)(a := None)\<rparr>
    \<or> r = ESUCCESS \<and> tlists st' S Z (Q @ [a]) \<and> numthreads st + 1 \<le> a_max (sleepers st')
      \<and> st' = st\<lparr>sleepers := sleepers st', zombies := zombies st', runqueue := runqueue st', numthreads := numthreads st + 1\<rparr>"
proof -
  have n: "numthreads st \<le> 2 ^ 24" using assms(3) by simp
  obtain r1 sl z q where pre: "fork_preallocate fm st = Some (r1, st\<lparr>sleepers := sl, zombies := z, runqueue := q\<rparr>)"
    "tlists (st\<lparr>sleepers := sl, zombies := z, runqueue := q\<rparr>) S Z Q" "a_max (sleepers st) \<le> a_max sl"
    "r1 = ESUCCESS \<and> numthreads st + 1 \<le> a_max sl \<and> numthreads st \<le> int (q_room q) \<or> r1 = ENOMEM"
    by (rule fork_preallocate_cases[OF assms(1,2) n])
  show ?thesis
  proof (cases "r1 = ESUCCESS")
    case False
    then show ?thesis using assms(5) pre by (auto simp: fork_enter_def fork_fail_def tlists_def)
  next
    case True
    have w: "c_int (numthreads st + 1) = numthreads st + 1" using assms(2,3) by (intro c_int_id) auto
    from pre(2) assms(4) show ?thesis
    proof (cases rule: make_runnable_cases[where ok = ok and t = a])
      case (ok q')
      then show ?thesis using assms(5) pre True w by (auto simp: fork_enter_def tlists_def)
    next
      case full
      then show ?thesis using assms(5) pre True by (auto simp: fork_enter_def fork_fail_def tlists_def)
    qed
  qed
qed

lemma fork_result:
  assumes "r \<noteq> ESUCCESS \<and> tlists st' S Z Q \<and> a_max (sleepers (st\<lparr>tpids := p, thr := (thr st)(a \<mapsto> th)\<rparr>)) \<le> a_max (sleepers st')
      \<and> st' = st\<lparr>tpids := p, thr := (thr st)(a \<mapsto> th), sleepers := sleepers st', zombies := zombies st', runqueue := runqueue st',
          thr := (thr (st\<lparr>tpids := p, thr := (thr st)(a \<mapsto> th)\<rparr>))(a := None)\<rparr>
    \<or> r = ESUCCESS \<and> tlists st' S Z (Q @ [a]) \<and> numthreads st + 1 \<le> a_max (sleepers st')
      \<and> st' = st\<lparr>tpids := p, thr := (thr st)(a \<mapsto> th), sleepers := sleepers st', zombies := zombies st', runqueue := runqueue st',
          numthreads := numthreads st + 1\<rparr>"
    and "((thr st)(a \<mapsto> th))(a := None) = thr st" "pid_keep (tpids st) p"
    and "th = \<lparr>t_pcb = Fresh, t_sleepaddr = None, t_stack = stk, t_pid = Some pid, t_code = code\<rparr>" "stack_intact th"
    and "1 \<le> pid" "pid \<le> int PID_MAX" "pid_getthread pid p = Some (Some a)"
  shows "r \<noteq> ESUCCESS \<and> fork_failed st S Z Q st' \<or> r = ESUCCESS \<and> fork_started st S Z Q a code st'"
  using assms(1)
proof
  assume l: "r \<noteq> ESUCCESS \<and> tlists st' S Z Q \<and> a_max (sleepers (st\<lparr>tpids := p, thr := (thr st)(a \<mapsto> th)\<rparr>)) \<le> a_max (sleepers st')
      \<and> st' = st\<lparr>tpids := p, thr := (thr st)(a \<mapsto> th), sleepers := sleepers st', zombies := zombies st', runqueue := runqueue st',
          thr := (thr (st\<lparr>tpids := p, thr := (thr st)(a \<mapsto> th)\<rparr>))(a := None)\<rparr>"
  define sl z q where "sl = sleepers st'" and "z = zombies st'" and "q = runqueue st'"
  have st': "st' = st\<lparr>tpids := p, sleepers := sl, zombies := z, runqueue := q\<rparr>"
    using l assms(2) unfolding sl_def[symmetric] z_def[symmetric] q_def[symmetric] by simp
  have "tlists st' S Z Q" "r \<noteq> ESUCCESS" "a_max (sleepers st) \<le> a_max sl" using l by (simp_all add: sl_def)
  then show ?thesis using assms(3) unfolding st' fork_failed_def by simp
next
  assume l: "r = ESUCCESS \<and> tlists st' S Z (Q @ [a]) \<and> numthreads st + 1 \<le> a_max (sleepers st')
      \<and> st' = st\<lparr>tpids := p, thr := (thr st)(a \<mapsto> th), sleepers := sleepers st', zombies := zombies st', runqueue := runqueue st',
          numthreads := numthreads st + 1\<rparr>"
  define sl z q where "sl = sleepers st'" and "z = zombies st'" and "q = runqueue st'"
  have st': "st' = st\<lparr>tpids := p, thr := (thr st)(a \<mapsto> th), sleepers := sl, zombies := z, runqueue := q, numthreads := numthreads st + 1\<rparr>"
    using l unfolding sl_def[symmetric] z_def[symmetric] q_def[symmetric] by simp
  have "tlists st' S Z (Q @ [a])" "r = ESUCCESS" "numthreads st + 1 \<le> a_max sl" using l by (simp_all add: sl_def)
  then have "fork_started st S Z Q a code st'"
    unfolding fork_started_def Let_def using assms(3-8)
    by (intro exI[of _ stk] exI[of _ pid] conjI) (simp_all add: st')
  then show ?thesis using l by simp
qed

lemma thread_fork_cases:
  assumes "tlists st S Z Q" "pids_ok (tpids st)" "0 \<le> numthreads st" "numthreads st < 2 ^ 24" "length Q \<le> 2 ^ 24"
    and "\<forall>a. fm_thread fm = Some a \<longrightarrow> thr st a = None" "thread_fork fm ok rnd code st = Some (r, st')"
  shows "r \<noteq> ESUCCESS \<and> fork_failed st S Z Q st' \<or> r = ESUCCESS \<and> (\<exists>a. fm_thread fm = Some a \<and> fork_started st S Z Q a code st')"
proof (cases "fst (thread_create fm code st)")
  case None
  then have "st' = st" "r = ENOMEM" using assms(7) by (auto simp: thread_fork_def thread_create_def split: option.splits if_splits)
  moreover have "pid_keep (tpids st) (tpids st)" using assms(2) by (simp add: pid_keep_def)
  ultimately show ?thesis using assms(1) by (auto simp: fork_failed_def)
next
  case (Some a)
  let ?th = "\<lparr>t_pcb = Fresh, t_sleepaddr = None, t_stack = None, t_pid = None, t_code = code\<rparr>"
  have a: "fm_thread fm = Some a" "thr st a = None" "thread_create fm code st = (Some a, st\<lparr>thr := (thr st)(a \<mapsto> ?th)\<rparr>)"
    using Some assms(6) by (auto simp: thread_create_def split: option.splits if_splits)
  obtain pid p where pid: "pid_getnext rnd a (tpids st) = Some (pid, p)"
    using pid_getnext_outcome[OF assms(2), of rnd a] by blast
  note pk = pid_getnext_keep[OF assms(2) pid]
  have undo: "((thr st)(a \<mapsto> x))(a := None) = thr st" for x using a(2) by auto
  show ?thesis
  proof (cases "pid = 0 \<or> fm_stack fm = None")
    case True
    then have "st' = st\<lparr>tpids := p\<rparr>" "r \<noteq> ESUCCESS"
      using assms(7) a pid undo by (auto simp: thread_fork_def fork_fail_def set_thread_def Let_def split: if_splits)
    then show ?thesis using pk(1) assms(1) by (auto simp: fork_failed_def tlists_def)
  next
    case False
    then obtain stk where stk: "fm_stack fm = Some stk" "pid \<noteq> 0" by auto
    let ?s = "Some (stack_magic @ drop 4 stk)"
    define th where "th = \<lparr>t_pcb = Fresh, t_sleepaddr = None, t_stack = ?s, t_pid = Some pid, t_code = code\<rparr>"
    define st1 where "st1 = st\<lparr>tpids := p, thr := (thr st)(a \<mapsto> th)\<rparr>"
    have run: "fork_enter fm ok a st1 = Some (r, st')"
      using stk a pid assms(7) by (simp add: thread_fork_def fork_enter_def set_thread_def st1_def th_def Let_def)
    have "tlists st1 S Z Q" using assms(1) by (simp add: st1_def tlists_def)
    moreover have "numthreads st1 = numthreads st" by (simp add: st1_def)
    ultimately have c: "r \<noteq> ESUCCESS \<and> tlists st' S Z Q \<and> a_max (sleepers st1) \<le> a_max (sleepers st')
        \<and> st' = st1\<lparr>sleepers := sleepers st', zombies := zombies st', runqueue := runqueue st', thr := (thr st1)(a := None)\<rparr>
      \<or> r = ESUCCESS \<and> tlists st' S Z (Q @ [a]) \<and> numthreads st + 1 \<le> a_max (sleepers st')
        \<and> st' = st1\<lparr>sleepers := sleepers st', zombies := zombies st', runqueue := runqueue st', numthreads := numthreads st + 1\<rparr>"
      using fork_enter_cases[OF _ _ _ assms(5) run] assms(3,4) by simp
    have "stack_intact th" by (simp add: stack_intact_def th_def stack_magic_def)
    then show ?thesis using fork_result[OF c[unfolded st1_def] undo pk(1) th_def] pk(2) stk(2) a(1) by auto
  qed
qed

lemma pid_keep_link: "pid_link st boot t \<Longrightarrow> thr st' t = thr st t \<Longrightarrow> pid_keep (tpids st) (tpids st') \<Longrightarrow> pid_link st' boot t"
  by (auto simp: pid_link_def has_pid_def pid_keep_def)

lemma fork_failed_inv:
  assumes "tinv st S Z Q" "fork_failed st S Z Q st'"
  shows "tinv st' S Z Q \<and> sem_count st' = sem_count st \<and> lock_holder st' = lock_holder st"
proof -
  define sl z q p where "sl = sleepers st'" and "z = zombies st'" and "q = runqueue st'" and "p = tpids st'"
  have f: "tlists st' S Z Q" "a_max (sleepers st) \<le> a_max sl" "pid_keep (tpids st) (tpids st')"
    using assms(2) by (auto simp: fork_failed_def sl_def)
  have "st' = st\<lparr>sleepers := sleepers st', zombies := zombies st', runqueue := runqueue st', tpids := tpids st'\<rparr>"
    using assms(2) unfolding fork_failed_def by (rule conjunct1)
  then have st': "st' = st\<lparr>sleepers := sl, zombies := z, runqueue := q, tpids := p\<rparr>"
    unfolding sl_def[symmetric] z_def[symmetric] q_def[symmetric] p_def[symmetric] .
  have cl: "cur_list st' = cur_list st" by (simp add: st' cur_list_def)
  have "tcore st' S Z Q" using assms(1) f(1,2) unfolding tinv_def tcore_def cl by (auto simp: st')
  moreover obtain boot where "\<forall>t\<in>set (cur_list st @ Q @ S). pid_link st boot t" using assms(1) by (auto simp: tinv_def tpid_ok_def)
  then have "\<forall>t\<in>set (cur_list st @ Q @ S). pid_link st' boot t" using pid_keep_link[OF _ _ f(3)] by (simp add: st')
  then have "tpid_ok st' S Q" using f(3) unfolding tpid_ok_def cl by (auto simp: pid_keep_def)
  moreover have "waits st' t" if "t \<in> set S" for t using assms(1) that waits_cong[of st' t st] by (auto simp: st' tinv_def)
  ultimately show ?thesis by (simp add: tinv_def st')
qed

lemma fork_started_inv:
  assumes "tinv st S Z Q" "fork_started st S Z Q a code st'" "thr st a = None" "a < 2 ^ 24"
  shows "tinv st' S Z (Q @ [a]) \<and> sem_count st' = sem_count st \<and> lock_holder st' = lock_holder st"
proof -
  obtain stk pid where f: "st' = st\<lparr>sleepers := sleepers st', zombies := zombies st', runqueue := runqueue st', tpids := tpids st',
       thr := (thr st)(a \<mapsto> \<lparr>t_pcb = Fresh, t_sleepaddr = None, t_stack = stk, t_pid = Some pid, t_code = code\<rparr>), numthreads := numthreads st + 1\<rparr>"
     "tlists st' S Z (Q @ [a])" "numthreads st + 1 \<le> a_max (sleepers st')" "pid_keep (tpids st) (tpids st')"
     "stack_intact \<lparr>t_pcb = Fresh, t_sleepaddr = None, t_stack = stk, t_pid = Some pid, t_code = code\<rparr>"
     "1 \<le> pid" "pid \<le> int PID_MAX" "pid_getthread pid (tpids st') = Some (Some a)"
    using assms(2) unfolding fork_started_def Let_def by blast
  define sl z q p th where "sl = sleepers st'" and "z = zombies st'" and "q = runqueue st'" and "p = tpids st'"
    and "th = \<lparr>t_pcb = Fresh, t_sleepaddr = None, t_stack = stk, t_pid = Some pid, t_code = code\<rparr>"
  have st': "st' = st\<lparr>sleepers := sl, zombies := z, runqueue := q, tpids := p, thr := (thr st)(a \<mapsto> th), numthreads := numthreads st + 1\<rparr>"
    using f(1) unfolding sl_def[symmetric] z_def[symmetric] q_def[symmetric] p_def[symmetric] th_def[symmetric] .
  have core: "tcore st S Z Q" using assms(1) by (simp add: tinv_def)
  have cl: "cur_list st' = cur_list st" by (simp add: st' cur_list_def)
  have a: "a \<notin> set (cur_list st @ Q @ S @ Z)" using core assms(3) by (auto simp: tcore_def)
  have thr': "thr st' t = thr st t" if "t \<noteq> a" for t using that by (simp add: st')
  have "tcore st' S Z (Q @ [a])"
  proof -
    have "ran (thr st') = insert th (ran (thr st))" using assms(3) by (simp add: st')
    moreover have "stack_intact th" using f(5) by (simp add: th_def)
    moreover have "a_max sl = a_max (sleepers st')" by (simp add: sl_def)
    ultimately show ?thesis using core a assms(4) f(2,3) unfolding tcore_def cl by (auto simp: st')
  qed
  moreover obtain boot where b: "\<forall>t\<in>set (cur_list st @ Q @ S). pid_link st boot t" using assms(1) by (auto simp: tinv_def tpid_ok_def)
  have "pid_getthread pid p = Some (Some a)" using f(8) by (simp only: p_def)
  then have new: "has_pid st' a" using f(6,7) by (simp add: has_pid_def st' th_def)
  have "\<exists>boot. \<forall>t\<in>set (cur_list st @ (Q @ [a]) @ S). pid_link st' boot t"
  proof (cases "boot = a")
    case True
    then have "\<forall>t\<in>set (cur_list st @ Q @ S). has_pid st t" using a b by (auto simp: pid_link_def split: if_splits)
    then have "\<forall>t\<in>set (cur_list st @ Q @ S). has_pid st' t"
      using a f(4) thr' by (fastforce simp: has_pid_def pid_keep_def)
    moreover note new
    moreover have "2 ^ 24 \<notin> set (cur_list st @ (Q @ [a]) @ S)" using core assms(4) by (auto simp: tcore_def)
    ultimately show ?thesis by (intro exI[of _ "2 ^ 24"]) (auto simp: pid_link_def)
  next
    case False
    have "pid_link st' boot t" if "t \<in> set (cur_list st @ Q @ S)" for t
      using pid_keep_link[OF _ _ f(4)] b that a thr' by (metis Un_iff set_append)
    moreover have "pid_link st' boot a" using False new by (simp add: pid_link_def)
    ultimately show ?thesis by (intro exI[of _ boot]) auto
  qed
  then have "tpid_ok st' S (Q @ [a])" using f(4) unfolding tpid_ok_def cl by (auto simp: pid_keep_def)
  moreover have "waits st' t" if "t \<in> set S" for t
  proof -
    have "t \<noteq> a" using that a by auto
    then have "waits st' t = waits st t" by (intro waits_cong) (simp_all add: st')
    then show ?thesis using assms(1) that by (simp add: tinv_def)
  qed
  ultimately show ?thesis by (simp add: tinv_def st')
qed

end
