(* ===== verification/Thread_Steps.thy ===== *)
theory Thread_Steps
  imports Thread_Synch
begin

text \<open>
  What every run of the thread system keeps: the invariant, the value of every semaphore as the
  events determine it, who holds which lock, and the order of the run queue.
\<close>

section \<open>Effects of events\<close>

fun sem_effect :: "event \<Rightarrow> (nat \<rightharpoonup> int) \<Rightarrow> (nat \<rightharpoonup> int)" where
  "sem_effect (Ev_P t s) f = f(s := map_option (\<lambda>c. c - 1) (f s))"
| "sem_effect (Ev_V s) f = f(s := map_option (\<lambda>c. c + 1) (f s))"
| "sem_effect (Ev_sem s n) f = f(s \<mapsto> n)"
| "sem_effect (Ev_nosem s) f = f(s := None)"
| "sem_effect _ f = f"

definition holds :: "tsys \<Rightarrow> nat \<rightharpoonup> nat" where
  "holds st l = Option.bind (lock_holder st l) (\<lambda>h. h)"

fun lock_effect :: "event \<Rightarrow> (nat \<rightharpoonup> nat) \<Rightarrow> (nat \<rightharpoonup> nat)" where
  "lock_effect (Ev_acquire t l) h = h(l \<mapsto> t)"
| "lock_effect (Ev_release t l) h = h(l := None)"
| "lock_effect _ h = h"

text \<open>Only a free lock is taken, and only its holder gives a lock back.\<close>

fun lock_guard :: "event \<Rightarrow> (nat \<rightharpoonup> nat) \<Rightarrow> bool" where
  "lock_guard (Ev_acquire t l) h = (h l = None)"
| "lock_guard (Ev_release t l) h = (h l = Some t)"
| "lock_guard _ h = True"

definition queue_step :: "nat list \<Rightarrow> event list \<Rightarrow> nat list \<Rightarrow> bool" where
  "queue_step Q evs Q' \<longleftrightarrow> (\<exists>t. evs = [Ev_run t] \<and> Q = t # Q') \<or> (\<forall>t. Ev_run t \<notin> set evs) \<and> (\<exists>W. Q' = Q @ W)"

definition stepped :: "tsys \<Rightarrow> nat list \<Rightarrow> event list \<Rightarrow> tsys \<Rightarrow> bool" where
  "stepped st Q evs st' \<longleftrightarrow> (\<exists>S' Z' Q'. tinv st' S' Z' Q' \<and> queue_step Q evs Q')
     \<and> sem_count st' = fold sem_effect evs (sem_count st) \<and> holds st' = fold lock_effect evs (holds st)
     \<and> length evs \<le> 1 \<and> (\<forall>ev\<in>set evs. lock_guard ev (holds st))"

lemma stepped_quiet:
  assumes "tinv st' S' Z' Q'" "\<exists>W. Q' = Q @ W" "sem_count st' = sem_count st" "lock_holder st' = lock_holder st"
  shows "stepped st Q [] st'"
proof -
  have "holds st' = holds st" using assms(4) by (simp add: holds_def fun_eq_iff)
  moreover have "queue_step Q [] Q'" using assms(2) by (simp add: queue_step_def)
  ultimately show ?thesis using assms(1,3) unfolding stepped_def by auto
qed

lemma set_code_simps [simp]:
  "curthread (set_code c cs st) = curthread st" "sem_count (set_code c cs st) = sem_count st"
  "lock_holder (set_code c cs st) = lock_holder st" "holds (set_code c cs st) = holds st"
  "sleepers (set_code c cs st) = sleepers st"
  by (simp_all add: set_code_def holds_def fun_eq_iff)

lemma holds_update: "holds (st\<lparr>lock_holder := (lock_holder st)(l \<mapsto> h)\<rparr>) = (holds st)(l := h)"
  by (auto simp: holds_def fun_eq_iff)

lemma tcore_sem:
  assumes "tcore st S Z Q" "\<forall>c. x = Some c \<longrightarrow> 0 \<le> c \<and> c < 2 ^ 31"
  shows "tcore (st\<lparr>sem_count := (sem_count st)(s := x)\<rparr>) S Z Q"
proof -
  have cl: "cur_list (st\<lparr>sem_count := (sem_count st)(s := x)\<rparr>) = cur_list st" by (simp add: cur_list_def)
  have "\<forall>c'\<in>ran ((sem_count st)(s := x)). 0 \<le> c' \<and> c' < 2 ^ 31"
    using assms unfolding tcore_def ran_def by (auto split: if_splits)
  then show ?thesis using assms(1) unfolding tcore_def tlists_def cl by auto
qed

lemma tcore_lock: "tcore (st\<lparr>lock_holder := f\<rparr>) S Z Q = tcore st S Z Q"
  by (simp add: tcore_def tlists_def cur_list_def)

lemma tcore_lbolt: "tcore (st\<lparr>lbolt_counter := n\<rparr>) S Z Q = tcore st S Z Q"
  by (simp add: tcore_def tlists_def cur_list_def)

lemma tpid_irrelevant [simp]:
  "tpid_ok (st\<lparr>lock_holder := f\<rparr>) S Q = tpid_ok st S Q" "tpid_ok (st\<lparr>sem_count := g\<rparr>) S Q = tpid_ok st S Q"
  "tpid_ok (st\<lparr>lbolt_counter := n\<rparr>) S Q = tpid_ok st S Q"
  by (simp_all add: tpid_ok_def cur_list_def pid_link_def has_pid_def)

text \<open>A change to a semaphore or a lock that no thread sleeps on.\<close>

lemma tinv_sem:
  assumes "tinv st S Z Q" "\<forall>c. x = Some c \<longrightarrow> 0 \<le> c \<and> c < 2 ^ 31" "\<forall>t\<in>set S. sleepaddr st t \<noteq> Some (Sem s)"
  shows "tinv (st\<lparr>sem_count := (sem_count st)(s := x)\<rparr>) S Z Q"
proof -
  have "waits (st\<lparr>sem_count := (sem_count st)(s := x)\<rparr>) t = waits st t" if "t \<in> set S" for t
    using assms(3) that by (intro waits_cong) (auto simp: sleepaddr_def)
  then show ?thesis using assms(1) tcore_sem[OF _ assms(2), of st S Z Q s] by (simp add: tinv_def)
qed

lemma tinv_lock:
  assumes "tinv st S Z Q" "\<forall>t\<in>set S. sleepaddr st t \<noteq> Some (Lock l)"
  shows "tinv (st\<lparr>lock_holder := (lock_holder st)(l := x)\<rparr>) S Z Q"
proof -
  have "waits (st\<lparr>lock_holder := (lock_holder st)(l := x)\<rparr>) t = waits st t" if "t \<in> set S" for t
    using assms(2) that by (intro waits_cong) (auto simp: sleepaddr_def)
  then show ?thesis using assms(1) by (simp add: tinv_def tcore_lock)
qed

lemma waits_Sem: "waits st t \<Longrightarrow> sleepaddr st t = Some (Sem s) \<Longrightarrow> sem_count st s = Some 0"
  by (auto simp: waits_def sleepaddr_def split: option.splits)

lemma waits_Lock: "waits st t \<Longrightarrow> sleepaddr st t = Some (Lock l) \<Longrightarrow> holds st l \<noteq> None"
  by (auto simp: waits_def sleepaddr_def holds_def split: option.splits)

lemma no_sem_sleeper: "tinv st S Z Q \<Longrightarrow> sem_count st s \<noteq> Some 0 \<Longrightarrow> \<forall>t\<in>set S. sleepaddr st t \<noteq> Some (Sem s)"
  using waits_Sem by (auto simp: tinv_def)

lemma no_lock_sleeper: "tinv st S Z Q \<Longrightarrow> holds st l = None \<Longrightarrow> \<forall>t\<in>set S. sleepaddr st t \<noteq> Some (Lock l)"
  by (auto simp: tinv_def dest: waits_Lock)

section \<open>Semaphores\<close>

lemma sem_V_step:
  assumes "tinv st S Z Q" "sem_V ok s st = Some st'"
  shows "stepped st Q [Ev_V s] st'"
proof -
  obtain c where c: "sem_count st s = Some c" "c_int (c + 1) > 0"
    and wk: "thread_wakeup ok (Sem s) (st\<lparr>sem_count := (sem_count st)(s \<mapsto> c_int (c + 1))\<rparr>) = Some st'"
    using assms(2) by (auto simp: sem_V_def bind_eq_Some_conv Let_def split: if_splits)
  have core: "tcore st S Z Q" using assms(1) by (simp add: tinv_def)
  have "0 \<le> c" "c < 2 ^ 31" using core c(1) by (auto simp: tcore_def ran_def)
  moreover have "c \<noteq> 2 ^ 31 - 1" using c(2) by (auto simp: c_int_def)
  ultimately have w: "c_int (c + 1) = c + 1" "0 \<le> c + 1" "c + 1 < 2 ^ 31" by (auto intro: c_int_id)
  let ?st = "st\<lparr>sem_count := (sem_count st)(s \<mapsto> c + 1)\<rparr>"
  have core': "tcore ?st S Z Q" "tpid_ok ?st S Q" using tcore_sem[OF core, of "Some (c + 1)" s] w(2,3) assms(1) by (simp_all add: tinv_def)
  have "waits ?st t" if "t \<in> set S" "sleepaddr ?st t \<noteq> Some (Sem s)" for t
  proof -
    have "waits ?st t = waits st t" using that(2) by (intro waits_cong) (auto simp: sleepaddr_def)
    then show ?thesis using assms(1) that(1) by (simp add: tinv_def)
  qed
  then have ws: "\<forall>t\<in>set S. sleepaddr ?st t \<noteq> Some (Sem s) \<longrightarrow> waits ?st t" by blast
  obtain a q where a: "st' = ?st\<lparr>sleepers := a, runqueue := q\<rparr>"
    "tinv st' (filter (\<lambda>t. sleepaddr ?st t \<noteq> Some (Sem s)) S) Z (Q @ filter (\<lambda>t. sleepaddr ?st t = Some (Sem s)) S)"
    by (rule wakeup_inv[OF core' ws wk[unfolded w(1)]])
  have "queue_step Q [Ev_V s] (Q @ filter (\<lambda>t. sleepaddr ?st t = Some (Sem s)) S)" by (simp add: queue_step_def)
  moreover have "sem_count st' = fold sem_effect [Ev_V s] (sem_count st)" using c(1) by (simp add: a(1))
  moreover have "holds st' = holds st" by (simp add: a(1) holds_def fun_eq_iff)
  ultimately show ?thesis using a(2) unfolding stepped_def by auto
qed

text \<open>Going to sleep, when what the thread waits for has not come.\<close>

lemma sleep_step:
  assumes "tinv st S Z Q" "curthread st = Some c" "waits (to_sleep c addr st) c" "thread_sleep ok addr st = Some st'"
  shows "stepped st Q [] st'"
  using assms by (rule sleep_inv) (erule stepped_quiet, auto simp: to_sleep_def)

lemma P_step:
  assumes "tinv st S Z Q" "curthread st = Some c" "thr st c = Some th" "t_code th = C_P s # cs"
    and "run_call ok c (C_P s) cs st = Some (evs, st')"
  shows "stepped st Q evs st'"
proof -
  obtain n where n: "sem_count st s = Some n" using assms(5) by (auto simp: run_call_def P_round_def bind_eq_Some_conv)
  have core: "tcore st S Z Q" using assms(1) by (simp add: tinv_def)
  have nn: "0 \<le> n" "n < 2 ^ 31" using core n by (auto simp: tcore_def ran_def)
  show ?thesis
  proof (cases "n = 0")
    case True
    then have "thread_sleep ok (Sem s) st = Some st'" "evs = []"
      using assms(5) n by (auto simp: run_call_def P_round_def bind_eq_Some_conv)
    moreover have "waits (to_sleep c (Sem s) st) c" using assms(3,4) n True by (simp add: waits_def to_sleep_def)
    ultimately show ?thesis using sleep_step[OF assms(1,2)] by simp
  next
    case False
    let ?st = "st\<lparr>sem_count := (sem_count st)(s \<mapsto> n - 1)\<rparr>"
    have st': "st' = set_code c cs ?st" "evs = [Ev_P c s]"
      using assms(5) n False by (auto simp: run_call_def P_round_def bind_eq_Some_conv split: if_splits)
    have "tinv ?st S Z Q" using tinv_sem[OF assms(1) _ no_sem_sleeper[OF assms(1)]] n nn False by simp
    then have "tinv st' S Z Q" using assms(2) by (simp add: st'(1) set_code_inv)
    moreover have "queue_step Q evs Q" by (simp add: queue_step_def st'(2))
    moreover have "sem_count st' = fold sem_effect evs (sem_count st)" "holds st' = holds st" using n by (simp_all add: st' holds_def fun_eq_iff)
    ultimately show ?thesis unfolding stepped_def by (auto simp: st'(2))
  qed
qed

section \<open>Locks and condition variables\<close>

lemma acquire_step:
  assumes "tinv st S Z Q" "curthread st = Some c" "thr st c = Some th" "t_code th = C_acquire l # cs"
    and "run_call ok c (C_acquire l) cs st = Some (evs, st')"
  shows "stepped st Q evs st'"
proof -
  obtain h where h: "lock_holder st l = Some h" using assms(5) by (auto simp: run_call_def acquire_round_def bind_eq_Some_conv)
  show ?thesis
  proof (cases h)
    case (Some u)
    then have "thread_sleep ok (Lock l) st = Some st'" "evs = []"
      using assms(5) h by (auto simp: run_call_def acquire_round_def bind_eq_Some_conv)
    moreover have "waits (to_sleep c (Lock l) st) c" using assms(3,4) h Some by (simp add: waits_def to_sleep_def)
    ultimately show ?thesis using sleep_step[OF assms(1,2)] by simp
  next
    case None
    let ?st = "st\<lparr>lock_holder := (lock_holder st)(l \<mapsto> Some c)\<rparr>"
    have st': "st' = set_code c cs ?st" "evs = [Ev_acquire c l]"
      using assms(2,5) h None by (auto simp: run_call_def acquire_round_def bind_eq_Some_conv split: if_splits)
    have free: "holds st l = None" using h None by (simp add: holds_def)
    have "tinv ?st S Z Q" by (rule tinv_lock[OF assms(1) no_lock_sleeper[OF assms(1) free]])
    then have "tinv st' S Z Q" using assms(2) by (simp add: st'(1) set_code_inv)
    moreover have "queue_step Q evs Q" by (simp add: queue_step_def st'(2))
    moreover have "holds st' = fold lock_effect evs (holds st)" by (simp add: st' holds_update)
    ultimately show ?thesis using free unfolding stepped_def by (auto simp: st')
  qed
qed

lemma release_inv:
  assumes "tinv st S Z Q" "curthread st = Some c" "lock_release ok l st = Some st'"
  obtains S' W a q where "st' = st\<lparr>lock_holder := (lock_holder st)(l \<mapsto> None), sleepers := a, runqueue := q\<rparr>"
    "tinv st' S' Z (Q @ W)" "holds st l = Some c" "holds st' = (holds st)(l := None)"
proof -
  let ?st = "st\<lparr>lock_holder := (lock_holder st)(l \<mapsto> None)\<rparr>"
  have h: "lock_holder st l = Some (Some c)" and wk: "thread_wakeup ok (Lock l) ?st = Some st'"
    using assms(2,3) by (auto simp: lock_release_def lock_do_i_hold_def bind_eq_Some_conv split: if_splits)
  have core: "tcore ?st S Z Q" "tpid_ok ?st S Q" using assms(1) by (simp_all add: tinv_def tcore_lock)
  have "waits ?st t" if "t \<in> set S" "sleepaddr ?st t \<noteq> Some (Lock l)" for t
  proof -
    have "waits ?st t = waits st t" using that(2) by (intro waits_cong) (auto simp: sleepaddr_def)
    then show ?thesis using assms(1) that(1) by (simp add: tinv_def)
  qed
  then have ws: "\<forall>t\<in>set S. sleepaddr ?st t \<noteq> Some (Lock l) \<longrightarrow> waits ?st t" by blast
  obtain a q where a: "st' = ?st\<lparr>sleepers := a, runqueue := q\<rparr>"
    "tinv st' (filter (\<lambda>t. sleepaddr ?st t \<noteq> Some (Lock l)) S) Z (Q @ filter (\<lambda>t. sleepaddr ?st t = Some (Lock l)) S)"
    by (rule wakeup_inv[OF core ws wk])
  have "holds st' = (holds st)(l := None)" unfolding a(1) by (auto simp: holds_def fun_eq_iff)
  then show thesis using that a h by (simp add: holds_def)
qed

lemma release_step:
  assumes "tinv st S Z Q" "curthread st = Some c" "lock_release ok l (set_code c cs st) = Some st'"
  shows "stepped st Q [Ev_release c l] st'"
proof -
  have "tinv (set_code c cs st) S Z Q" "curthread (set_code c cs st) = Some c" using assms(1,2) by (simp_all add: set_code_inv)
  then obtain S' W a q where r: "st' = (set_code c cs st)\<lparr>lock_holder := (lock_holder st)(l \<mapsto> None), sleepers := a, runqueue := q\<rparr>"
    "tinv st' S' Z (Q @ W)" "holds st l = Some c" "holds st' = (holds st)(l := None)"
    using release_inv[OF _ _ assms(3)] by (metis set_code_simps(3,4))
  then show ?thesis unfolding stepped_def queue_step_def by (auto simp: r(1))
qed

lemma wait_step:
  assumes "tinv st S Z Q" "curthread st = Some c" "thr st c = Some th"
    and "cv_wait ok cv l (set_code c (C_acquire l # cs) st) = Some st'"
  shows "stepped st Q [Ev_release c l] st'"
proof -
  let ?st = "set_code c (C_acquire l # cs) st"
  have i: "tinv ?st S Z Q" "curthread ?st = Some c" using assms(1,2) by (simp_all add: set_code_inv)
  obtain st1 where s1: "lock_release ok l ?st = Some st1" "thread_sleep ok (Cv cv) st1 = Some st'"
    using assms(4) by (auto simp: cv_wait_def bind_eq_Some_conv)
  obtain S' W a q where r: "st1 = ?st\<lparr>lock_holder := (lock_holder ?st)(l \<mapsto> None), sleepers := a, runqueue := q\<rparr>"
    "tinv st1 S' Z (Q @ W)" "holds ?st l = Some c" "holds st1 = (holds ?st)(l := None)"
    by (rule release_inv[OF i s1(1)])
  have c1: "curthread st1 = Some c" "thr st1 c = Some (th\<lparr>t_code := C_acquire l # cs\<rparr>)"
    using assms(2,3) by (simp_all add: r(1) set_code_def)
  have "waits (to_sleep c (Cv cv) st1) c" using c1(2) by (simp add: waits_def to_sleep_def)
  then obtain a' where s2: "st' = (to_sleep c (Cv cv) st1)\<lparr>curthread := None, sleepers := a'\<rparr>" "tinv st' (S' @ [c]) Z (Q @ W)"
    using sleep_inv[OF r(2) c1(1) _ s1(2)] by blast
  have "holds st' = holds st1" "sem_count st' = sem_count st" by (simp_all add: s2(1) to_sleep_def holds_def fun_eq_iff r(1))
  then show ?thesis using s2(2) r(3,4) unfolding stepped_def queue_step_def by auto
qed

lemma signal_step:
  assumes "tinv st S Z Q" "curthread st = Some c" "cv_signal ok cv l (set_code c cs st) = Some st'"
  shows "stepped st Q [] st'"
proof -
  have i: "tinv (set_code c cs st) S Z Q" using assms(1,2) by (simp add: set_code_inv)
  have "thread_wakeup_one ok (Cv cv) (set_code c cs st) = Some st'"
    using assms(3) by (auto simp: cv_signal_def bind_eq_Some_conv split: if_splits)
  then obtain S' Q' a q where w: "st' = (set_code c cs st)\<lparr>sleepers := a, runqueue := q\<rparr>" "tinv st' S' Z Q'" "\<exists>W. Q' = Q @ W"
    by (rule wakeup_one_inv[OF i])
  then show ?thesis by (intro stepped_quiet[OF w(2,3)]) simp_all
qed

lemma wakeup_step:
  assumes "tinv st S Z Q" "thread_wakeup ok addr st = Some st'"
  obtains S' W a q where "st' = st\<lparr>sleepers := a, runqueue := q\<rparr>" "tinv st' S' Z (Q @ W)"
proof -
  have "tcore st S Z Q" "tpid_ok st S Q" "\<forall>t\<in>set S. sleepaddr st t \<noteq> Some addr \<longrightarrow> waits st t" using assms(1) by (auto simp: tinv_def)
  then show thesis using assms(2) by (rule wakeup_inv) (rule that)
qed

lemma broadcast_step:
  assumes "tinv st S Z Q" "curthread st = Some c" "cv_broadcast ok cv l (set_code c cs st) = Some st'"
  shows "stepped st Q [] st'"
proof -
  have i: "tinv (set_code c cs st) S Z Q" using assms(1,2) by (simp add: set_code_inv)
  have "thread_wakeup ok (Cv cv) (set_code c cs st) = Some st'"
    using assms(3) by (auto simp: cv_broadcast_def bind_eq_Some_conv split: if_splits)
  then obtain S' W a q where w: "st' = (set_code c cs st)\<lparr>sleepers := a, runqueue := q\<rparr>" "tinv st' S' Z (Q @ W)"
    by (rule wakeup_step[OF i])
  then show ?thesis by (intro stepped_quiet[OF w(2)]) simp_all
qed

lemma yield_step:
  assumes "tinv st S Z Q" "thread_yield ok st = Some st'" shows "stepped st Q [] st'"
  using assms by (rule yield_inv) (rule stepped_quiet)

lemma stepped_set_code: "stepped (set_code c cs st) Q evs st' = stepped st Q evs st'"
  by (simp add: stepped_def)

lemma clocksleep_step:
  assumes "tinv st S Z Q" "curthread st = Some c" "thr st c = Some th"
    and "run_call ok c (C_clocksleep n) cs st = Some (evs, st')"
  shows "stepped st Q evs st'"
proof (cases "n > 0")
  case True
  let ?st = "set_code c (C_clocksleep (n - 1) # cs) st"
  have i: "tinv ?st S Z Q" "curthread ?st = Some c" using assms(1,2) by (simp_all add: set_code_inv)
  have "waits (to_sleep c Lbolt ?st) c" using assms(3) by (simp add: waits_def to_sleep_def set_code_def)
  moreover have "thread_sleep ok Lbolt ?st = Some st'" "evs = []"
    using assms(4) True by (auto simp: run_call_def bind_eq_Some_conv)
  ultimately show ?thesis using sleep_step[OF i] by (simp add: stepped_set_code)
next
  case False
  then have "st' = set_code c cs st" "evs = []" using assms(4) by (simp_all add: run_call_def)
  then show ?thesis using set_code_inv[OF assms(1,2)] by (auto intro!: stepped_quiet)
qed

lemma clock_step:
  assumes "tinv st S Z Q" "hardclock ok st = Some st'" shows "stepped st Q [] st'"
proof -
  have i: "tinv (st\<lparr>lbolt_counter := n\<rparr>) S Z Q" for n
  proof -
    have "waits (st\<lparr>lbolt_counter := n\<rparr>) t = waits st t" for t by (rule waits_cong) simp_all
    then show ?thesis using assms(1) by (simp add: tinv_def tcore_lbolt)
  qed
  obtain st1 where s1: "thread_yield ok st1 = Some st'"
    and "(if lbolt_counter st + 1 \<ge> HZ then thread_wakeup ok Lbolt (st\<lparr>lbolt_counter := 0\<rparr>)
          else Some (st\<lparr>lbolt_counter := lbolt_counter st + 1\<rparr>)) = Some st1"
    using assms(2) by (auto simp: hardclock_def Let_def bind_eq_Some_conv)
  then obtain S' W where "tinv st1 S' Z (Q @ W)" "sem_count st1 = sem_count st" "lock_holder st1 = lock_holder st"
  proof (cases "lbolt_counter st + 1 \<ge> HZ")
    case True
    then obtain S' W a q where w: "st1 = (st\<lparr>lbolt_counter := 0\<rparr>)\<lparr>sleepers := a, runqueue := q\<rparr>" "tinv st1 S' Z (Q @ W)"
      using wakeup_step[OF i] \<open>(if _ then _ else _) = _\<close> by (metis (full_types))
    then show thesis using that[of S' W] by simp
  next
    case False
    then show thesis using that[of S "[]"] i \<open>(if _ then _ else _) = _\<close> by auto
  qed
  moreover from this(1) s1 obtain Q' where "tinv st' S' Z Q'" "\<exists>W'. Q' = (Q @ W) @ W'" "sem_count st' = sem_count st1"
    "lock_holder st' = lock_holder st1" by (rule yield_inv)
  ultimately show ?thesis by (intro stepped_quiet) auto
qed

section \<open>Steps and runs\<close>

lemma call_stepped:
  assumes "tinv st S Z Q" "curthread st = Some c" "thr st c = Some th" "t_code th = call # cs"
    and "run_call ok c call cs st = Some (evs, st')"
  shows "stepped st Q evs st'"
proof (cases call)
  case (C_P s)
  then show ?thesis using P_step assms by blast
next
  case (C_V s)
  then obtain "evs = [Ev_V s]" "sem_V ok s (set_code c cs st) = Some st'" using assms(5) by (auto simp: run_call_def bind_eq_Some_conv)
  then show ?thesis using sem_V_step[OF set_code_inv[OF assms(1,2)]] by (simp add: stepped_set_code)
next
  case (C_acquire l)
  then show ?thesis using acquire_step assms by blast
next
  case (C_release l)
  then show ?thesis using release_step[OF assms(1,2)] assms(5) by (auto simp: run_call_def bind_eq_Some_conv)
next
  case (C_wait cv l)
  then show ?thesis using wait_step[OF assms(1-3)] assms(5) by (auto simp: run_call_def bind_eq_Some_conv)
next
  case (C_signal cv l)
  then show ?thesis using signal_step[OF assms(1,2)] assms(5) by (auto simp: run_call_def bind_eq_Some_conv)
next
  case (C_broadcast cv l)
  then show ?thesis using broadcast_step[OF assms(1,2)] assms(5) by (auto simp: run_call_def bind_eq_Some_conv)
next
  case C_yield
  then show ?thesis using yield_step[OF set_code_inv[OF assms(1,2)]] assms(5) by (auto simp: run_call_def bind_eq_Some_conv stepped_set_code)
next
  case (C_clocksleep n)
  then show ?thesis using clocksleep_step[OF assms(1-3)] assms(5) by blast
qed

lemma exit_stepped:
  assumes "tinv st S Z Q" "curthread st = Some c" "thread_exit ok st = Some st'"
  shows "stepped st Q [Ev_exit c] st'"
proof -
  have i: "tinv st' S (Z @ [c]) Q" "sem_count st' = sem_count st" "lock_holder st' = lock_holder st"
    using exit_inv[OF assms] by blast+
  have "holds st' = holds st" using i(3) by (simp add: holds_def fun_eq_iff)
  moreover have "queue_step Q [Ev_exit c] Q" by (simp add: queue_step_def)
  ultimately show ?thesis using i(1,2) unfolding stepped_def by auto
qed

lemma fork_stepped:
  assumes "tinv st S Z Q" "\<forall>a. fm_thread fm = Some a \<longrightarrow> thr st a = None \<and> a < 2 ^ 24" "curthread st = Some c"
    and "thread_fork fm ok rnd code st = Some (r, st')"
  shows "stepped st Q [] st'"
proof -
  have core: "tcore st S Z Q" and pok: "pids_ok (tpids st)" using assms(1) by (simp_all add: tinv_def tpid_ok_def)
  have n: "0 \<le> numthreads st" "length Q \<le> 2 ^ 24" "tlists st S Z Q" using core tcore_lengths(1)[OF core] by (auto simp: tcore_def)
  have le: "numthreads st \<le> 2 ^ 24" using core tcore_lengths(1)[OF core] by (auto simp: tcore_def)
  show ?thesis
  proof (cases "fm_thread fm")
    case None
    then have "st' = st" using assms(4) by (simp add: thread_fork_def thread_create_def)
    then show ?thesis using stepped_quiet[OF assms(1)] by simp
  next
    case (Some a)
    have "a \<notin> dom (thr st)" "insert a (dom (thr st)) \<subseteq> {..<2 ^ 24}" using assms(2) Some core by (auto simp: tcore_def)
    then have "Suc (card (dom (thr st))) \<le> 2 ^ 24"
      using card_mono[of "{..<2 ^ 24 :: nat}" "insert a (dom (thr st))"] finite_subset[of "dom (thr st)" "{..<2 ^ 24}"] by simp
    moreover have "int (card (dom (thr st))) \<ge> numthreads st"
    proof -
      have "card (dom (thr st)) = length (cur_list st @ Q @ S @ Z)"
        using core distinct_card[of "cur_list st @ Q @ S @ Z"] by (simp add: tcore_def)
      then show ?thesis using core by (simp add: tcore_def)
    qed
    ultimately have lt: "numthreads st < 2 ^ 24" by simp
    have f: "\<forall>a. fm_thread fm = Some a \<longrightarrow> thr st a = None" using assms(2) by blast
    from thread_fork_cases[OF n(3) pok n(1) lt n(2) f assms(4)] show ?thesis
      using fork_failed_inv[OF assms(1), of st'] fork_started_inv[OF assms(1), of _ code st'] assms(2)
        stepped_quiet[of st' S Z Q Q st] stepped_quiet[of st' S Z _ Q st] by blast
  qed
qed

lemma destroy_sem:
  assumes "tinv st S Z Q" "sem_destroy s st = Some st'"
  shows "stepped st Q [Ev_nosem s] st'"
proof -
  have tl: "tlists st S Z Q" "set S \<subseteq> dom (thr st)"
    using assms(1) tcore_lengths(2)[of st S Z Q] by (auto simp: tinv_def tcore_def)
  have st': "st' = st\<lparr>sem_count := (sem_count st)(s := None)\<rparr>" and no: "thread_hassleepers (Sem s) st = Some False"
    using assms(2) by (auto simp: sem_destroy_def bind_eq_Some_conv split: if_splits)
  have "\<forall>t\<in>set S. sleepaddr st t \<noteq> Some (Sem s)"
    using no sleeper_scan[OF tl, of "Sem s"] by (auto simp: thread_hassleepers_def first_index_def find_None_iff in_set_conv_nth)
  then have "tinv st' S Z Q" using tinv_sem[OF assms(1), of None s] by (simp add: st')
  moreover have "queue_step Q [Ev_nosem s] Q" by (simp add: queue_step_def)
  moreover have "holds st' = holds st" by (simp add: st' holds_def fun_eq_iff)
  ultimately show ?thesis unfolding stepped_def by (auto simp: st')
qed

lemma kstep_stepped:
  assumes "kstep st evs st'" "tinv st S Z Q" shows "stepped st Q evs st'"
  using assms(1)
proof cases
  case (call cur th c cs ok)
  then show ?thesis using call_stepped[OF assms(2)] by blast
next
  case (exit cur th ok)
  then show ?thesis using exit_stepped[OF assms(2)] by blast
next
  case (fork cur fm ok rnd code r)
  then show ?thesis using fork_stepped[OF assms(2)] by blast
next
  case (new_sem s n)
  then have st': "st' = st\<lparr>sem_count := (sem_count st)(s \<mapsto> n)\<rparr>" "0 \<le> n"
    by (auto simp: sem_create_def bind_eq_Some_conv split: if_splits)
  have "tinv st' S Z Q" using tinv_sem[OF assms(2) _ no_sem_sleeper[OF assms(2)], of "Some n" s] new_sem st' by simp
  moreover have "queue_step Q evs Q" using new_sem(1) by (simp add: queue_step_def)
  moreover have "holds st' = holds st" by (simp add: st' holds_def fun_eq_iff)
  ultimately show ?thesis unfolding stepped_def by (auto simp: st' new_sem(1))
next
  case (old_sem s)
  then show ?thesis using destroy_sem[OF assms(2)] by simp
next
  case (new_lock l)
  then have st': "st' = st\<lparr>lock_holder := (lock_holder st)(l \<mapsto> None)\<rparr>" by (simp add: lock_create_def)
  have free: "holds st l = None" using new_lock by (simp add: holds_def)
  have "tinv st' S Z Q" unfolding st' by (rule tinv_lock[OF assms(2) no_lock_sleeper[OF assms(2) free]])
  moreover have "holds st' = holds st" using free by (simp add: st' holds_update fun_upd_idem)
  moreover have "queue_step Q evs Q" using new_lock(1) by (simp add: queue_step_def)
  ultimately show ?thesis unfolding stepped_def by (auto simp: new_lock(1) st')
next
  case (old_lock l)
  then have st': "st' = st\<lparr>lock_holder := (lock_holder st)(l := None)\<rparr>" and free: "holds st l = None"
    by (auto simp: lock_destroy_def bind_eq_Some_conv holds_def split: if_splits)
  have "tinv st' S Z Q" unfolding st' by (rule tinv_lock[OF assms(2) no_lock_sleeper[OF assms(2) free]])
  moreover have "holds st' = holds st" using free by (auto simp: st' holds_def fun_eq_iff)
  moreover have "queue_step Q evs Q" using old_lock(1) by (simp add: queue_step_def)
  ultimately show ?thesis unfolding stepped_def by (auto simp: old_lock(1) st')
next
  case (device ok s)
  then show ?thesis using sem_V_step[OF assms(2)] by simp
next
  case (clock ok)
  then show ?thesis using clock_step[OF assms(2)] by simp
next
  case (resume t)
  obtain t' Q' Z' where r: "Q = t' # Q'" "curthread st' = Some t'" "tinv st' S Z' Q'" "sem_count st' = sem_count st"
    "lock_holder st' = lock_holder st"
    using resume_inv[OF assms(2) resume(2) resume(4)] by blast
  have "holds st' = holds st" using r(5) by (simp add: holds_def fun_eq_iff)
  moreover have "queue_step Q evs Q'" using r(1,2) resume(1,5) by (simp add: queue_step_def)
  ultimately show ?thesis using r(3,4) unfolding stepped_def by (auto simp: resume(1))
qed

fun lock_trace :: "event list \<Rightarrow> (nat \<rightharpoonup> nat) \<Rightarrow> bool" where
  "lock_trace [] h = True"
| "lock_trace (e # es) h = (lock_guard e h \<and> lock_trace es (lock_effect e h))"

lemma lock_trace_append: "lock_trace (xs @ ys) h \<longleftrightarrow> lock_trace xs h \<and> lock_trace ys (fold lock_effect xs h)"
  by (induction xs arbitrary: h) auto

definition run_count :: "event list \<Rightarrow> nat" where
  "run_count evs = length (filter (\<lambda>e. \<exists>t. e = Ev_run t) evs)"

text \<open>A thread in the queue has run, or is that much nearer to the front.\<close>

definition advanced :: "nat list \<Rightarrow> event list \<Rightarrow> nat list \<Rightarrow> bool" where
  "advanced Q evs Q' \<longleftrightarrow> (\<forall>k<length Q. Ev_run (Q ! k) \<in> set evs
     \<or> run_count evs \<le> k \<and> k - run_count evs < length Q' \<and> Q' ! (k - run_count evs) = Q ! k)"

lemma advanced_step:
  assumes "advanced Q evs Q1" "queue_step Q1 evs' Q2" shows "advanced Q (evs @ evs') Q2"
proof -
  have "Ev_run (Q ! k) \<in> set (evs @ evs') \<or> run_count (evs @ evs') \<le> k
      \<and> k - run_count (evs @ evs') < length Q2 \<and> Q2 ! (k - run_count (evs @ evs')) = Q ! k" if k: "k < length Q" for k
    using assms(2) unfolding queue_step_def
  proof
    assume "\<exists>t. evs' = [Ev_run t] \<and> Q1 = t # Q2"
    then obtain t where t: "evs' = [Ev_run t]" "Q1 = t # Q2" by blast
    have n: "run_count (evs @ evs') = Suc (run_count evs)" by (simp add: run_count_def t(1))
    show ?thesis
    proof (cases "Ev_run (Q ! k) \<in> set evs")
      case False
      then have p: "run_count evs \<le> k" "k - run_count evs < length Q1" "Q1 ! (k - run_count evs) = Q ! k"
        using assms(1) k unfolding advanced_def by blast+
      show ?thesis
      proof (cases "k - run_count evs")
        case 0
        then show ?thesis using p t by simp
      next
        case (Suc j)
        then have "k - run_count (evs @ evs') = j" "run_count (evs @ evs') \<le> k" using n by simp_all
        then show ?thesis using p Suc t by simp
      qed
    qed simp
  next
    assume a: "(\<forall>t. Ev_run t \<notin> set evs') \<and> (\<exists>W. Q2 = Q1 @ W)"
    then have n: "run_count (evs @ evs') = run_count evs" by (auto simp: run_count_def filter_empty_conv)
    obtain W where W: "Q2 = Q1 @ W" using a by blast
    show ?thesis
      using assms(1)[unfolded advanced_def, rule_format, OF k] unfolding n W by (auto simp: nth_append)
  qed
  then show ?thesis by (simp add: advanced_def)
qed

lemma ksteps_inv:
  assumes "ksteps st evs st'" "tinv st S Z Q"
  shows "(\<exists>S' Z' Q'. tinv st' S' Z' Q' \<and> advanced Q evs Q') \<and> sem_count st' = fold sem_effect evs (sem_count st)
     \<and> holds st' = fold lock_effect evs (holds st) \<and> lock_trace evs (holds st)"
  using assms
proof (induction rule: ksteps.induct)
  case (none st)
  have "advanced Q [] Q" by (simp add: advanced_def run_count_def)
  then show ?case using none by auto
next
  case (more st evs st1 evs' st2)
  obtain S' Z' Q' where i: "tinv st1 S' Z' Q'" "advanced Q evs Q'" and e: "sem_count st1 = fold sem_effect evs (sem_count st)"
    "holds st1 = fold lock_effect evs (holds st)" "lock_trace evs (holds st)"
    using more.IH[OF more.prems] by blast
  have s: "stepped st1 Q' evs' st2" by (rule kstep_stepped[OF more.hyps(2) i(1)])
  then obtain S2 Z2 Q2 where q: "tinv st2 S2 Z2 Q2" "queue_step Q' evs' Q2" by (auto simp: stepped_def)
  have "\<exists>S' Z' Q'. tinv st2 S' Z' Q' \<and> advanced Q (evs @ evs') Q'" using q(1) advanced_step[OF i(2) q(2)] by blast
  moreover have "lock_trace evs' (holds st1)" using s by (cases evs') (auto simp: stepped_def)
  ultimately show ?case using s e by (simp add: stepped_def lock_trace_append)
qed

text \<open>The system starts in the invariant.\<close>

lemma boot_inv:
  assumes "thread_bootstrap fm code = Some st" "\<forall>a. fm_thread fm = Some a \<longrightarrow> a < 2 ^ 24"
  shows "tinv st [] [] []" "sem_count st = Map.empty" "holds st = Map.empty"
proof -
  obtain a where a: "fm_thread fm = Some a" "a < 2 ^ 24"
    and st: "st = \<lparr>curthread = Some a, sleepers = \<lparr>a_num = 0, a_max = 0, a_v = None\<rparr>, zombies = \<lparr>a_num = 0, a_max = 0, a_v = None\<rparr>,
      numthreads = 1, runqueue = \<lparr>q_size = 32, q_nextwrite = 0, q_nextread = 0, q_data = replicate (ptr_cells 32) None\<rparr>,
      thr = [a \<mapsto> \<lparr>t_pcb = Fresh, t_sleepaddr = None, t_stack = None, t_pid = None, t_code = code\<rparr>],
      tpids = \<lparr>pid_table = replicate PID_MAX None, exitcodes = replicate PID_MAX (- 1)\<rparr>,
      sem_count = Map.empty, lock_holder = Map.empty, lbolt_counter = 0\<rparr>"
    using assms by (auto simp: thread_bootstrap_def thread_create_def q_create_def array_create_def pid_setuptable_def
        bind_eq_Some_conv Let_def split: if_splits option.splits)
  have "array_rep \<lparr>a_num = 0, a_max = 0, a_v = None\<rparr> []" by (simp add: array_rep_def array_inv_def array_cells_def)
  then have "tlists st [] [] []" using q_rep_fresh[of 32] by (simp add: st tlists_def q_room_def)
  then have "tcore st [] [] []" using a by (simp add: tcore_def cur_list_def) (simp add: st stack_intact_def)
  moreover have "tpid_ok st [] []" by (auto simp: tpid_ok_def st pids_ok_def cur_list_def pid_link_def intro!: exI[of _ a])
  ultimately show "tinv st [] [] []" by (simp add: tinv_def)
  show "sem_count st = Map.empty" "holds st = Map.empty" by (simp_all add: st holds_def fun_eq_iff)
qed

definition reachable :: "tsys \<Rightarrow> bool" where
  "reachable st \<longleftrightarrow> (\<exists>fm code st0 evs. thread_bootstrap fm code = Some st0
     \<and> (\<forall>a. fm_thread fm = Some a \<longrightarrow> a < 2 ^ 24) \<and> ksteps st0 evs st)"

lemma reachable_inv:
  assumes "reachable st" obtains S Z Q where "tinv st S Z Q"
proof -
  obtain fm code st0 evs where r: "thread_bootstrap fm code = Some st0" "\<forall>a. fm_thread fm = Some a \<longrightarrow> a < 2 ^ 24" "ksteps st0 evs st"
    using assms unfolding reachable_def by blast
  from ksteps_inv[OF r(3) boot_inv(1)[OF r(1,2)]] show thesis using that by blast
qed

lemma q_rep_unique:
  assumes "q_rep q xs" "q_rep q ys" shows "xs = ys"
proof (rule nth_equalityI)
  have "(q_nextread q + int (length xs)) mod q_size q = (q_nextread q + int (length ys)) mod q_size q"
    using assms by (simp add: q_rep_def)
  then have "int (length xs) = int (length ys)"
    using assms by (intro ring_distinct[of "q_size q" "int (length xs)" "int (length ys)" "q_nextread q"]) (auto simp: q_rep_def q_inv_def)
  then show l: "length xs = length ys" by simp
  fix i assume "i < length xs"
  then show "xs ! i = ys ! i" using assms l by (force simp: q_rep_def)
qed

end
