(* ===== verification/Thread_Props.thy ===== *)
theory Thread_Props
  imports Thread_Steps
begin

text \<open>
  The properties of the thread system over all its runs, and a run of 31 starts that the witnesses
  share.
\<close>

section \<open>Lemmas\<close>

lemma lock_kept:
  assumes "lock_trace es h" "h l = Some t" "Ev_release t l \<notin> set es"
  shows "fold lock_effect es h l = Some t"
  using assms
proof (induction es arbitrary: h)
  case (Cons e es)
  then have "lock_effect e h l = Some t" by (cases e) auto
  then show ?case using Cons by simp
qed simp

lemma lock_exclusive:
  assumes "lock_trace (e1 @ Ev_acquire t l # e2 @ Ev_acquire u l # e3) h"
  shows "Ev_release t l \<in> set e2"
proof (rule ccontr)
  assume no: "Ev_release t l \<notin> set e2"
  let ?h = "(fold lock_effect e1 h)(l \<mapsto> t)"
  have "lock_trace (e2 @ Ev_acquire u l # e3) ?h" using assms by (simp add: lock_trace_append)
  then have "lock_trace e2 ?h" "fold lock_effect e2 ?h l = None" by (simp_all add: lock_trace_append)
  then show False using lock_kept[of e2 ?h l t] no by simp
qed

definition count_P :: "nat \<Rightarrow> event list \<Rightarrow> nat" where
  "count_P s evs = length (filter (\<lambda>e. \<exists>t. e = Ev_P t s) evs)"

definition count_V :: "nat \<Rightarrow> event list \<Rightarrow> nat" where
  "count_V s evs = length (filter (\<lambda>e. e = Ev_V s) evs)"

lemma sem_value:
  assumes "\<forall>e\<in>set evs. e \<noteq> Ev_nosem s \<and> (\<forall>n. e \<noteq> Ev_sem s n)" "f s = Some c"
  shows "fold sem_effect evs f s = Some (c + int (count_V s evs) - int (count_P s evs))"
  using assms
proof (induction evs arbitrary: f c)
  case (Cons e evs)
  obtain c' where c': "sem_effect e f s = Some c'"
    "c' + int (count_V s evs) - int (count_P s evs) = c + int (count_V s (e # evs)) - int (count_P s (e # evs))"
  proof -
    consider (P) t where "e = Ev_P t s" | (V) "e = Ev_V s" | (other) "\<forall>t. e \<noteq> Ev_P t s" "e \<noteq> Ev_V s" by blast
    then show thesis
    proof cases
      case P
      then show thesis using that[of "c - 1"] Cons.prems by (simp add: count_P_def count_V_def)
    next
      case V
      then show thesis using that[of "c + 1"] Cons.prems by (simp add: count_P_def count_V_def)
    next
      case other
      then have "sem_effect e f s = Some c" using Cons.prems by (cases e) auto
      then show thesis using that[of c] other by (simp add: count_P_def count_V_def)
    qed
  qed
  then show ?case using Cons.IH[of "sem_effect e f" c'] Cons.prems by simp
qed (simp add: count_P_def count_V_def)

lemma card_but_one: "card T \<le> card (T - {b}) + 1"
  by (simp add: card_Diff_singleton_if) arith

lemma pid_bound:
  assumes "tinv st S Z Q" shows "numthreads st \<le> int PID_MAX + 1"
proof -
  let ?T = "set (cur_list st @ Q @ S)"
  obtain boot where b: "\<forall>t\<in>?T. pid_link st boot t" using assms by (auto simp: tinv_def tpid_ok_def)
  define pid_of where "pid_of = (\<lambda>t. the (Option.bind (thr st t) t_pid))"
  have p: "pid_of t \<in> {1..int PID_MAX}" "pid_getthread (pid_of t) (tpids st) = Some (Some t)" if "t \<in> ?T - {boot}" for t
  proof -
    have "has_pid st t" using b that by (auto simp: pid_link_def)
    then show "pid_of t \<in> {1..int PID_MAX}" "pid_getthread (pid_of t) (tpids st) = Some (Some t)"
      by (auto simp: has_pid_def pid_of_def)
  qed
  have "inj_on pid_of (?T - {boot})"
  proof (rule inj_onI)
    fix x y assume xy: "x \<in> ?T - {boot}" "y \<in> ?T - {boot}" "pid_of x = pid_of y"
    have "Some (Some x) = Some (Some y)" using p(2)[OF xy(1)] p(2)[OF xy(2)] xy(3) by (simp only:)
    then show "x = y" by simp
  qed
  then have "card (?T - {boot}) \<le> card {1..int PID_MAX}"
    by (rule card_inj_on_le) (rule image_subsetI, erule p(1), simp)
  moreover have "card ?T \<le> card (?T - {boot}) + 1" by (rule card_but_one)
  moreover have "card ?T = length (cur_list st @ Q @ S)" using assms by (intro distinct_card) (auto simp: tinv_def tcore_def)
  moreover have "numthreads st = int (length (cur_list st @ Q @ S))" using assms by (simp add: tinv_def tcore_def)
  ultimately show ?thesis by simp
qed

text \<open>The event of a V comes from a V: all who sleep on the semaphore are then runnable.\<close>

lemma V_moves:
  assumes "tinv st S Z Q" "sem_V ok s st = Some st'" "t \<in> set S" "sleepaddr st t = Some (Sem s)"
  obtains S' Q' where "tinv st' S' Z Q'" "t \<in> set Q'"
proof -
  obtain c where c: "sem_count st s = Some c" "c_int (c + 1) > 0"
    and wk: "thread_wakeup ok (Sem s) (st\<lparr>sem_count := (sem_count st)(s \<mapsto> c_int (c + 1))\<rparr>) = Some st'"
    using assms(2) by (auto simp: sem_V_def bind_eq_Some_conv Let_def split: if_splits)
  let ?st = "st\<lparr>sem_count := (sem_count st)(s \<mapsto> c_int (c + 1))\<rparr>"
  have sa: "sleepaddr ?st = sleepaddr st" by (simp add: sleepaddr_def fun_eq_iff)
  have core: "tcore ?st S Z Q" "tpid_ok ?st S Q"
    using assms(1) c(2) c_int_range(2)[of "c + 1"] by (auto simp: tinv_def intro!: tcore_sem)
  have "waits ?st u" if "u \<in> set S" "sleepaddr ?st u \<noteq> Some (Sem s)" for u
  proof -
    have "waits ?st u = waits st u" using that(2) by (intro waits_cong) (auto simp: sleepaddr_def)
    then show ?thesis using assms(1) that(1) by (simp add: tinv_def)
  qed
  then have ws: "\<forall>u\<in>set S. sleepaddr ?st u \<noteq> Some (Sem s) \<longrightarrow> waits ?st u" by blast
  from core ws wk show thesis
  proof (rule wakeup_inv)
    fix a q
    assume "tinv st' (filter (\<lambda>t. sleepaddr ?st t \<noteq> Some (Sem s)) S) Z (Q @ filter (\<lambda>t. sleepaddr ?st t = Some (Sem s)) S)"
    then show thesis by (rule that) (simp add: sa assms(3,4))
  qed
qed

lemma V_step_moves:
  assumes "tinv st S Z Q" "kstep st [Ev_V s] st'" "t \<in> set S" "sleepaddr st t = Some (Sem s)"
  obtains S' Q' where "tinv st' S' Z Q'" "t \<in> set Q'"
  using assms(2)
proof cases
  case (call cur th c cs ok)
  then have v: "sem_V ok s (set_code cur cs st) = Some st'"
    by (cases c) (auto simp: run_call_def bind_eq_Some_conv split: if_splits)
  have "tcore st S Z Q" using assms(1) by (simp add: tinv_def)
  then have "t \<noteq> cur" using cur_not_sleeping call(1) assms(3) by blast
  then have "sleepaddr (set_code cur cs st) t = Some (Sem s)" using assms(4) by (simp add: sleepaddr_def set_code_def)
  then show thesis by (rule V_moves[OF set_code_inv[OF assms(1) call(1)] v assms(3)]) (rule that)
next
  case (device ok)
  then show thesis using V_moves[OF assms(1) _ assms(3,4)] that by blast
qed

section \<open>Runs that are computed\<close>

declare grow_max.simps [code]

text \<open>One step chosen from those the system may take, with all memory served.\<close>

datatype act = K_call | K_fork nat "kcall list" | K_sem nat int | K_lock nat | K_resume

definition ex_mem :: "nat \<Rightarrow> fork_mem" where
  "ex_mem a = \<lparr>fm_thread = Some a, fm_name = True, fm_stack = Some (replicate 8 0), fm_sleepers = True, fm_zombies = True, fm_queue = True\<rparr>"

fun act_step :: "act \<Rightarrow> tsys \<Rightarrow> (event list \<times> tsys) option" where
  "act_step K_call st = do {
     cur \<leftarrow> curthread st;
     th \<leftarrow> thr st cur;
     case t_code th of
       [] \<Rightarrow> do { st' \<leftarrow> thread_exit (\<lambda>_. True) st; Some ([Ev_exit cur], st') }
     | c # cs \<Rightarrow> run_call (\<lambda>_. True) cur c cs st }"
| "act_step (K_fork a code) st = do {
     cur \<leftarrow> curthread st;
     kassert (thr st a = None \<and> int a < 2 ^ 24);
     (r, st') \<leftarrow> thread_fork (ex_mem a) (\<lambda>_. True) (of_nat a) code st;
     Some ([], st') }"
| "act_step (K_sem s n) st = do {
     kassert (sem_count st s = None \<and> n < 2 ^ 31);
     (r, st') \<leftarrow> sem_create (Some s) True n st;
     kassert (r = Some s);
     Some ([Ev_sem s n], st') }"
| "act_step (K_lock l) st = do {
     kassert (lock_holder st l = None);
     let (r, st') = lock_create (Some l) True st;
     kassert (r = Some l);
     Some ([], st') }"
| "act_step K_resume st = do {
     kassert (curthread st = None \<and> \<not> q_empty (runqueue st));
     st' \<leftarrow> mi_resume st;
     t \<leftarrow> curthread st';
     Some ([Ev_run t], st') }"

fun run_acts :: "act list \<Rightarrow> tsys \<Rightarrow> (event list \<times> tsys) option" where
  "run_acts [] st = Some ([], st)"
| "run_acts (a # as) st = do {
     (e1, st) \<leftarrow> act_step a st;
     (e2, st) \<leftarrow> run_acts as st;
     Some (e1 @ e2, st) }"

lemma act_step_kstep: "act_step a st = Some (evs, st') \<Longrightarrow> kstep st evs st'"
proof (cases a)
  case K_call
  assume "act_step a st = Some (evs, st')"
  then obtain cur th where c: "curthread st = Some cur" "thr st cur = Some th"
    "(case t_code th of [] \<Rightarrow> do { st' \<leftarrow> thread_exit (\<lambda>_. True) st; Some ([Ev_exit cur], st') }
     | c # cs \<Rightarrow> run_call (\<lambda>_. True) cur c cs st) = Some (evs, st')"
    by (auto simp: K_call bind_eq_Some_conv)
  then show ?thesis by (cases "t_code th") (auto simp: bind_eq_Some_conv intro: kstep.call kstep.exit)
next
  case (K_fork b code)
  assume "act_step a st = Some (evs, st')"
  then show ?thesis
    by (auto simp: K_fork bind_eq_Some_conv split: if_splits intro!: kstep.fork[where fm = "ex_mem b"]) (auto simp: ex_mem_def)
qed (auto simp: bind_eq_Some_conv split: if_splits prod.splits intro: kstep.new_sem kstep.new_lock kstep.resume)

lemma ksteps_append:
  assumes "ksteps st1 e2 st2" "ksteps st e1 st1" shows "ksteps st (e1 @ e2) st2"
  using assms by (induction rule: ksteps.induct) (auto dest: ksteps.more)

lemma kstep_ksteps: "kstep st evs st' \<Longrightarrow> ksteps st evs st'"
  using ksteps.more[OF ksteps.none] by force

lemma run_acts_ksteps: "run_acts as st = Some (evs, st') \<Longrightarrow> ksteps st evs st'"
proof (induction as arbitrary: st evs)
  case Nil
  then show ?case by (simp add: ksteps.none)
next
  case (Cons a as)
  then obtain e1 e2 st1 where s: "act_step a st = Some (e1, st1)" "run_acts as st1 = Some (e2, st')" "evs = e1 @ e2"
    by (auto simp: bind_eq_Some_conv)
  show ?case unfolding s(3) by (rule ksteps_append[OF Cons.IH[OF s(2)] kstep_ksteps[OF act_step_kstep[OF s(1)]]])
qed

definition ex_system :: "kcall list \<Rightarrow> act list \<Rightarrow> tsys option" where
  "ex_system code as = do { st \<leftarrow> thread_bootstrap (ex_mem 0) code; (evs, st) \<leftarrow> run_acts as st; Some st }"

lemma ex_system_reachable: "ex_system code as = Some st \<Longrightarrow> reachable st"
proof -
  assume "ex_system code as = Some st"
  then obtain st0 evs where "thread_bootstrap (ex_mem 0) code = Some st0" "run_acts as st0 = Some (evs, st)"
    by (auto simp: ex_system_def bind_eq_Some_conv)
  moreover have "\<forall>a. fm_thread (ex_mem 0) = Some a \<longrightarrow> a < 2 ^ 24" by (simp add: ex_mem_def)
  ultimately show ?thesis using run_acts_ksteps unfolding reachable_def by blast
qed

section \<open>Properties\<close>

text \<open>C3. In every reachable state of the thread system each thread is in exactly one place: it is
  current, in the run queue, asleep, or a zombie; the containers hold no other pointers; the counter
  counts the threads that are not zombies.  No wake-up is lost: a thread that sleeps on a semaphore
  finds it 0, and one that sleeps on a lock finds it held.\<close>

theorem thread_places:
  assumes "reachable st"
  shows "\<exists>S Z Q. array_rep (sleepers st) S \<and> array_rep (zombies st) Z \<and> q_rep (runqueue st) Q
     \<and> distinct (cur_list st @ Q @ S @ Z) \<and> dom (thr st) = set (cur_list st @ Q @ S @ Z)
     \<and> numthreads st = int (length (cur_list st @ Q @ S))
     \<and> (\<forall>t\<in>set S. sleepaddr st t \<noteq> None \<and> (\<forall>s. sleepaddr st t = Some (Sem s) \<longrightarrow> sem_count st s = Some 0)
          \<and> (\<forall>l. sleepaddr st t = Some (Lock l) \<longrightarrow> holds st l \<noteq> None))"
proof -
  obtain S Z Q where i: "tinv st S Z Q" by (rule reachable_inv[OF assms])
  have w: "sleepaddr st t \<noteq> None \<and> (\<forall>s. sleepaddr st t = Some (Sem s) \<longrightarrow> sem_count st s = Some 0)
          \<and> (\<forall>l. sleepaddr st t = Some (Lock l) \<longrightarrow> holds st l \<noteq> None)" if "t \<in> set S" for t
  proof -
    have "waits st t" using i that by (simp add: tinv_def)
    moreover have "sleepaddr st t \<noteq> None" using calculation by (auto simp: waits_def sleepaddr_def split: option.splits)
    ultimately show ?thesis using waits_Sem waits_Lock by blast
  qed
  then show ?thesis using i unfolding tinv_def tcore_def tlists_def by blast
qed

theorem thread_places_witness:
  "\<exists>st Q. ex_system [C_P 5] [K_sem 5 0, K_fork 1 [], K_fork 2 [], K_call] = Some st
     \<and> q_rep (runqueue st) Q \<and> distinct (cur_list st @ Q)"
proof -
  have "ex_system [C_P 5] [K_sem 5 0, K_fork 1 [], K_fork 2 [], K_call] \<noteq> None" by code_simp
  then obtain st where st: "ex_system [C_P 5] [K_sem 5 0, K_fork 1 [], K_fork 2 [], K_call] = Some st" by blast
  then show ?thesis using thread_places[OF ex_system_reachable[OF st]] by auto
qed

text \<open>C4. Mutual exclusion: in every run of the thread system, between two acquisitions of a lock
  the first holder has released it.\<close>

theorem mutual_exclusion:
  assumes "reachable st"
    and "ksteps st (e1 @ Ev_acquire t l # e2 @ Ev_acquire u l # e3) st'"
  shows "Ev_release t l \<in> set e2"
proof -
  obtain S Z Q where "tinv st S Z Q" by (rule reachable_inv[OF assms(1)])
  then show ?thesis using ksteps_inv[OF assms(2)] lock_exclusive by blast
qed

theorem mutual_exclusion_witness:
  "\<exists>st evs st'. ex_system [C_acquire 7, C_yield, C_release 7, C_yield] [K_lock 7, K_fork 1 [C_acquire 7]] = Some st
     \<and> run_acts [K_call, K_call, K_resume, K_call, K_resume, K_call, K_call, K_resume, K_call] st = Some (evs, st')
     \<and> evs = Ev_acquire 0 7 # [Ev_run 1, Ev_run 0, Ev_release 0 7, Ev_run 1] @ [Ev_acquire 1 7]
     \<and> Ev_release 0 7 \<in> set [Ev_run 1, Ev_run 0, Ev_release 0 7, Ev_run 1]"
proof -
  let ?as = "[K_call, K_call, K_resume, K_call, K_resume, K_call, K_call, K_resume, K_call]"
  let ?code = "[C_acquire 7, C_yield, C_release 7, C_yield]"
  let ?evs = "Ev_acquire 0 7 # [Ev_run 1, Ev_run 0, Ev_release 0 7, Ev_run 1] @ [Ev_acquire 1 7]"
  have "case ex_system ?code [K_lock 7, K_fork 1 [C_acquire 7]] of None \<Rightarrow> False
    | Some st \<Rightarrow> (case run_acts ?as st of None \<Rightarrow> False | Some (evs, st') \<Rightarrow> evs = ?evs)" by code_simp
  then obtain st st' where r: "ex_system ?code [K_lock 7, K_fork 1 [C_acquire 7]] = Some st" "run_acts ?as st = Some (?evs, st')"
    by (auto split: option.splits)
  have "ksteps st ([] @ ?evs) st'" using run_acts_ksteps[OF r(2)] by simp
  from mutual_exclusion[OF ex_system_reachable[OF r(1)] this] show ?thesis using r by blast
qed

text \<open>C8. The count of a semaphore is what it was, plus the number of V's, minus the number of P's
  that went through, over every run in which it is neither created nor destroyed; so no more P's go
  through than the count and the V's allow.\<close>

theorem semaphore_conserved:
  assumes "reachable st" and "ksteps st evs st'" and "sem_count st s = Some c"
    and "\<forall>e\<in>set evs. e \<noteq> Ev_nosem s \<and> (\<forall>n. e \<noteq> Ev_sem s n)"
  shows "sem_count st' s = Some (c + int (count_V s evs) - int (count_P s evs))
     \<and> int (count_P s evs) \<le> c + int (count_V s evs)"
proof -
  obtain S Z Q where i: "tinv st S Z Q" by (rule reachable_inv[OF assms(1)])
  have v: "sem_count st' s = Some (c + int (count_V s evs) - int (count_P s evs))"
    using ksteps_inv[OF assms(2) i] sem_value[of evs s "sem_count st" c] assms(3,4) by simp
  obtain S' Z' Q' where "tinv st' S' Z' Q'" using ksteps_inv[OF assms(2) i] by blast
  then have "\<forall>c\<in>ran (sem_count st'). 0 \<le> c" by (simp add: tinv_def tcore_def)
  then have "0 \<le> c + int (count_V s evs) - int (count_P s evs)" using v by (blast intro: ranI)
  then show ?thesis using v by simp
qed

theorem semaphore_conserved_witness:
  "\<exists>st st'. ex_system [C_V 5, C_V 5, C_P 5] [K_sem 5 0] = Some st
     \<and> run_acts [K_call, K_call, K_call] st = Some ([Ev_V 5, Ev_V 5, Ev_P 0 5], st') \<and> sem_count st' 5 = Some 1"
proof -
  have "case ex_system [C_V 5, C_V 5, C_P 5] [K_sem 5 0] of None \<Rightarrow> False
    | Some st \<Rightarrow> sem_count st 5 = Some 0 \<and> (case run_acts [K_call, K_call, K_call] st of None \<Rightarrow> False
        | Some (evs, st') \<Rightarrow> evs = [Ev_V 5, Ev_V 5, Ev_P 0 5])" by code_simp
  then obtain st st' where r: "ex_system [C_V 5, C_V 5, C_P 5] [K_sem 5 0] = Some st" "sem_count st 5 = Some 0"
    "run_acts [K_call, K_call, K_call] st = Some ([Ev_V 5, Ev_V 5, Ev_P 0 5], st')"
    by (auto split: option.splits)
  have "sem_count st' 5 = Some 1"
    using semaphore_conserved[OF ex_system_reachable[OF r(1)] run_acts_ksteps[OF r(3)] r(2)]
    by (simp add: count_V_def count_P_def)
  then show ?thesis using r by blast
qed

text \<open>C15. The scheduler is fair: a thread that stands at position \<open>k\<close> of the run queue has run
  once the scheduler has chosen \<open>k + 1\<close> times, whatever happens in between.\<close>

theorem round_robin:
  assumes "reachable st" and "q_rep (runqueue st) Q" and "k < length Q"
    and "ksteps st evs st'" and "k < run_count evs"
  shows "Ev_run (Q ! k) \<in> set evs"
proof -
  obtain S Z Q1 where i: "tinv st S Z Q1" by (rule reachable_inv[OF assms(1)])
  then have "Q1 = Q" using assms(2) q_rep_unique by (auto simp: tinv_def tcore_def tlists_def)
  then obtain Q' where "advanced Q evs Q'" using ksteps_inv[OF assms(4) i] by blast
  then show ?thesis using assms(3,5) by (auto simp: advanced_def)
qed

theorem round_robin_witness:
  "\<exists>st st' Q. ex_system [C_yield] [K_fork 1 [C_yield], K_fork 2 [], K_call] = Some st \<and> q_rep (runqueue st) Q
     \<and> run_acts [K_resume, K_call, K_resume] st = Some ([Ev_run 1, Ev_run 2], st') \<and> Ev_run (Q ! 1) \<in> set [Ev_run 1, Ev_run 2]"
proof -
  let ?as = "[K_fork 1 [C_yield], K_fork 2 [], K_call]"
  have "case ex_system [C_yield] ?as of None \<Rightarrow> False | Some st \<Rightarrow> numthreads st = 3 \<and> curthread st = None \<and> a_num (sleepers st) = 0
     \<and> (case run_acts [K_resume, K_call, K_resume] st of None \<Rightarrow> False | Some (evs, st') \<Rightarrow> evs = [Ev_run 1, Ev_run 2])" by code_simp
  then obtain st st' where r: "ex_system [C_yield] ?as = Some st" "numthreads st = 3" "curthread st = None" "a_num (sleepers st) = 0"
    "run_acts [K_resume, K_call, K_resume] st = Some ([Ev_run 1, Ev_run 2], st')"
    by (auto split: option.splits)
  obtain S Z Q where i: "tinv st S Z Q" by (rule reachable_inv[OF ex_system_reachable[OF r(1)]])
  then have q: "q_rep (runqueue st) Q" "array_rep (sleepers st) S" "numthreads st = int (length (cur_list st @ Q @ S))"
    by (auto simp: tinv_def tcore_def tlists_def)
  then have "length Q = 3" using r(2-4) array_rep_num[OF q(2)] by (simp add: cur_list_def)
  then have "Ev_run (Q ! 1) \<in> set [Ev_run 1, Ev_run 2]"
    by (intro round_robin[OF ex_system_reachable[OF r(1)] q(1) _ run_acts_ksteps[OF r(5)]]) (simp_all add: run_count_def)
  then show ?thesis using r q(1) by blast
qed

text \<open>C9. A V is not in vain: a thread that sleeps on the semaphore when it is signalled runs again
  before the scheduler has chosen as many times as there are threads.\<close>

theorem V_wakes_runs:
  assumes "reachable st" and "array_rep (sleepers st) S" and "t \<in> set S" and "sleepaddr st t = Some (Sem s)"
    and "kstep st [Ev_V s] st'" and "ksteps st' evs st''" and "numthreads st' \<le> int (run_count evs)"
  shows "Ev_run t \<in> set evs"
proof -
  obtain S1 Z Q where i: "tinv st S1 Z Q" by (rule reachable_inv[OF assms(1)])
  then have "array_rep (sleepers st) S1" by (simp add: tinv_def tcore_def tlists_def)
  then have "S1 = S" using assms(2) by (simp add: array_rep_def)
  then obtain S' Q' where q: "tinv st' S' Z Q'" "t \<in> set Q'" using V_step_moves[OF i assms(5)] assms(3,4) by blast
  obtain k where k: "k < length Q'" "Q' ! k = t" using q(2) by (auto simp: in_set_conv_nth)
  have "int (length Q') \<le> numthreads st'" using q(1) by (simp add: tinv_def tcore_def)
  moreover obtain Q'' where "advanced Q' evs Q''" using ksteps_inv[OF assms(6) q(1)] by blast
  ultimately show ?thesis using k assms(7) by (auto simp: advanced_def)
qed

theorem V_wakes_runs_witness:
  "\<exists>st st' st''. ex_system [C_yield, C_V 5, C_yield] [K_sem 5 0, K_fork 1 [C_P 5], K_call, K_resume, K_call, K_resume] = Some st
     \<and> run_acts [K_call] st = Some ([Ev_V 5], st')
     \<and> run_acts [K_call, K_resume, K_call, K_call, K_resume] st' = Some ([Ev_run 1, Ev_P 1 5, Ev_exit 1, Ev_run 0], st'')
     \<and> Ev_run 1 \<in> set [Ev_run 1, Ev_P 1 5, Ev_exit 1, Ev_run 0]"
proof -
  let ?as = "[K_sem 5 0, K_fork 1 [C_P 5], K_call, K_resume, K_call, K_resume]"
  have "case ex_system [C_yield, C_V 5, C_yield] ?as of None \<Rightarrow> False
    | Some st \<Rightarrow> array_cells (sleepers st) = [Some 1] \<and> sleepaddr st 1 = Some (Sem 5) \<and> (case act_step K_call st of None \<Rightarrow> False
    | Some (evs, st') \<Rightarrow> evs = [Ev_V 5] \<and> numthreads st' = 2 \<and> (case run_acts [K_call, K_resume, K_call, K_call, K_resume] st' of None \<Rightarrow> False
    | Some (evs, st'') \<Rightarrow> evs = [Ev_run 1, Ev_P 1 5, Ev_exit 1, Ev_run 0]))" by code_simp
  then obtain st st' st'' where r: "ex_system [C_yield, C_V 5, C_yield] ?as = Some st" "array_cells (sleepers st) = [Some 1]"
    "sleepaddr st 1 = Some (Sem 5)" "act_step K_call st = Some ([Ev_V 5], st')" "numthreads st' = 2"
    "run_acts [K_call, K_resume, K_call, K_call, K_resume] st' = Some ([Ev_run 1, Ev_P 1 5, Ev_exit 1, Ev_run 0], st'')"
    by (auto split: option.splits simp del: act_step.simps run_acts.simps)
  note R = ex_system_reachable[OF r(1)]
  obtain S Z Q where "tinv st S Z Q" by (rule reachable_inv[OF R])
  then have "array_rep (sleepers st) [1]" using r(2) by (simp add: tinv_def tcore_def tlists_def array_rep_def)
  from V_wakes_runs[OF R this _ r(3) act_step_kstep[OF r(4)] run_acts_ksteps[OF r(6)]] r(5)
  have "Ev_run 1 \<in> set [Ev_run 1, Ev_P 1 5, Ev_exit 1, Ev_run 0]" by (simp add: run_count_def)
  moreover have "run_acts [K_call] st = Some ([Ev_V 5], st')" by (simp add: r(4) del: act_step.simps)
  ultimately show ?thesis using r(1,6) by blast
qed





text \<open>C19. Giving up the processor may need memory: \<open>thread_yield\<close> panics exactly when the ring of the
  run queue is full and cannot be grown.  \<open>scheduler_preallocate\<close> is asked for as many cells as there are
  threads and the ring keeps one free, so this state is reached with 32 threads, although the
  comment in \<open>mi_switch\<close> says that it is not.\<close>

theorem yield_needs_memory:
  assumes "reachable st" and "curthread st = Some c" and "q_rep (runqueue st) Q"
  shows "thread_yield ok st = None \<longleftrightarrow> length Q = q_room (runqueue st) \<and> \<not> ok c"
proof -
  obtain S Z Q1 where i: "tinv st S Z Q1" by (rule reachable_inv[OF assms(1)])
  then have "Q1 = Q" using assms(3) q_rep_unique by (auto simp: tinv_def tcore_def tlists_def)
  let ?st = "set_thread c (t_pcb_update (\<lambda>_. Yielding)) st"
  have "tinv ?st S Z Q" using i assms(2) \<open>Q1 = Q\<close> by (intro tinv_set_cur) auto
  then have core: "tcore ?st S Z Q" by (simp add: tinv_def)
  have cur: "curthread ?st = Some c" using assms(2) by simp
  obtain th where th: "thr ?st c = Some th" "stack_intact th" by (rule cur_thread[OF core cur])
  have tl: "tlists (?st\<lparr>curthread := None\<rparr>) S Z Q" "length Q \<le> 2 ^ 24"
    using core tcore_lengths(1)[OF core] by (auto simp: tcore_def tlists_def)
  have y: "thread_yield ok st = mi_switch ok S_READY ?st" using assms(2) by (simp add: thread_yield_def)
  have rq: "runqueue ?st = runqueue st" by simp
  from tl have "mi_switch ok S_READY ?st = None \<longleftrightarrow> length Q = q_room (runqueue st) \<and> \<not> ok c"
  proof (cases rule: make_runnable_cases[where ok = ok and t = c])
    case (ok q)
    have "q_room (runqueue st) < 2 ^ 27" using tl(1) by (simp add: tlists_def)
    then have "q_addtail False (runqueue st) c = Some (ENOMEM, runqueue st)" if "length Q = q_room (runqueue st)"
      using runq.addtail_fail[OF assms(3) _ that] by blast
    then have "\<not> (length Q = q_room (runqueue st) \<and> \<not> ok c)" using ok(1)
      by (cases "ok c") (auto simp: make_runnable_def)
    then show ?thesis using cur th ok(1) by (auto simp: mi_switch_def)
  next
    case full
    then show ?thesis using cur th by (auto simp: mi_switch_def)
  qed
  then show ?thesis using y by simp
qed

theorem yield_needs_memory_witness:
  "\<exists>st. ex_system [] (map (\<lambda>i. K_fork i []) [1..<32]) = Some st \<and> thread_yield (\<lambda>_. False) st = None"
proof -
  let ?as = "map (\<lambda>i. K_fork i []) [1..<32]"
  have "case ex_system [] ?as of None \<Rightarrow> False | Some st \<Rightarrow> numthreads st = 32 \<and> curthread st = Some 0 \<and> a_num (sleepers st) = 0
     \<and> q_size (runqueue st) = 32" by code_simp
  then obtain st where r: "ex_system [] ?as = Some st" "numthreads st = 32" "curthread st = Some 0" "a_num (sleepers st) = 0"
     "q_size (runqueue st) = 32" by (auto split: option.splits)
  obtain S Z Q where i: "tinv st S Z Q" by (rule reachable_inv[OF ex_system_reachable[OF r(1)]])
  then have q: "q_rep (runqueue st) Q" "array_rep (sleepers st) S" "numthreads st = int (length (cur_list st @ Q @ S))"
    by (auto simp: tinv_def tcore_def tlists_def)
  then have "length Q = 31" using r(2-4) array_rep_num[OF q(2)] by (simp add: cur_list_def)
  then show ?thesis
    using yield_needs_memory[OF ex_system_reachable[OF r(1)] r(3) q(1), of "\<lambda>_. False"] r(1,5) by (auto simp: q_room_def)
qed

end
