(* ===== verification/Vm_Pagetable.thy ===== *)
theory Vm_Pagetable
  imports Vm_Coremap
begin

text \<open>
  The page table and the swap file: \<open>src/kern/vm/pt.c\<close>, \<open>src/kern/vm/swapfile.c\<close>,
  \<open>tlb_invalidate\<close> of \<open>src/kern/vm/vm_tlb.c\<close> and \<open>coremap_bootstrap\<close> of
  \<open>src/kern/vm/coremap.c\<close>.

  The swap file is reached through its vnode, whose operations are function pointers in the
  kernel and arguments here (\<open>file_ops\<close>).  \<open>view\<close> is what a process sees: the contents of a
  page of its address space, whether it is in a frame or in the swap file.  The central fact
  is that moving pages between memory and swap never changes the view of any page.
\<close>

section \<open>Model\<close>

subsection \<open>The file operations used on the swap file\<close>

text \<open>
  \<open>fop_read f off n\<close> hands back at most \<open>n\<close> bytes from offset \<open>off\<close>;
  \<open>fop_write f off bytes\<close> stores them.  Both answer with an error code.
\<close>

record 'f file_ops =
  fop_read :: "'f \<Rightarrow> int \<Rightarrow> nat \<Rightarrow> (errno + u8 list) \<times> 'f"
  fop_write :: "'f \<Rightarrow> int \<Rightarrow> u8 list \<Rightarrow> errno \<times> 'f"

subsection \<open>TLB shootdown\<close>

definition NUM_TLB :: nat where
  "NUM_TLB = 64"

definition TLBHI_INVALID :: "nat \<Rightarrow> u32" where
  "TLBHI_INVALID entryno = push_bit 12 (0x80000 + of_nat entryno)"

definition tlb_invalidate :: "'f vm_state \<Rightarrow> 'f vm_state option" where
  "tlb_invalidate s = do {
     let spl = spl_high s;
     let s = s\<lparr>spl_high := True\<rparr>;
     let s = s\<lparr>tlb_entries := map (\<lambda>i. (TLBHI_INVALID i, 0)) [0..<NUM_TLB]\<rparr>;
     let s = s\<lparr>m_next_victim := 0\<rparr>;
     let s = s\<lparr>spl_high := spl\<rparr>;
     vmstats_inc 3 s }"

subsection \<open>Swap entries\<close>

definition SWAP_MAX :: nat where
  "SWAP_MAX = 9437184 div 4096"

definition swap_entry_init :: "int \<Rightarrow> vaddr \<Rightarrow> int \<Rightarrow> swap_entry" where
  "swap_entry_init pid va offset = \<lparr>se_va = va, se_pid = pid, se_offset = offset\<rparr>"

text \<open>\<open>swap_bootstrap\<close>, with the opened swap file and the fresh buffer as arguments.\<close>

definition swap_bootstrap :: "'f \<Rightarrow> page \<Rightarrow> 'f vm_state \<Rightarrow> 'f vm_state option" where
  "swap_bootstrap file buf s = do {
     s \<leftarrow> vlock Swap_Mutex (s\<lparr>k_in_data := buf\<rparr>);
     let s = s\<lparr>swap_array := replicate SWAP_MAX (swap_entry_init 0 0 0)\<rparr>;
     s \<leftarrow> vunlock Swap_Mutex s;
     Some (s\<lparr>swap_file := file\<rparr>) }"

definition swap_search :: "int \<Rightarrow> vaddr \<Rightarrow> 'f vm_state \<Rightarrow> nat option" where
  "swap_search pid va s =
     first_index (\<lambda>i. se_pid (swap_array s ! i) = pid \<and> se_va (swap_array s ! i) = va)
       (length (swap_array s))"

definition swap_find_free :: "'f vm_state \<Rightarrow> nat option" where
  "swap_find_free s = first_index (\<lambda>i. se_va (swap_array s ! i) = 0) (length (swap_array s))"

definition swap_out :: "'f file_ops \<Rightarrow> int \<Rightarrow> paddr \<Rightarrow> vaddr \<Rightarrow> 'f vm_state \<Rightarrow> (errno \<times> 'f vm_state) option" where
  "swap_out ops pid pa va s = do {
     s \<leftarrow> vmstats_inc 9 s;
     let k_out_data = pmem s (pa AND PAGE_FRAME);
     s \<leftarrow> vlock Swap_Mutex s;
     case swap_find_free s of
       None \<Rightarrow> None
     | Some index \<Rightarrow> do {
         let (result, f) = fop_write ops (swap_file s) (int index * 4096) k_out_data;
         let s = s\<lparr>swap_file := f\<rparr>;
         if result \<noteq> ESUCCESS then do {
           s \<leftarrow> vunlock Swap_Mutex s;
           Some (result, s) }
         else do {
           let s = s\<lparr>swap_array := (swap_array s)[index :=
                       \<lparr>se_va = va, se_pid = pid, se_offset = int index * 4096\<rparr>]\<rparr>;
           s \<leftarrow> vunlock Swap_Mutex s;
           Some (ESUCCESS, s) } } }"

subsection \<open>Allocating frames\<close>

text \<open>
  The victim of a replacement goes to the swap file; the code does not look at the result of
  \<open>swap_out\<close>.
\<close>

definition evict_page :: "'f file_ops \<Rightarrow> 'f vm_state \<Rightarrow> (nat \<times> 'f vm_state) option" where
  "evict_page ops s = do {
     (i, s) \<leftarrow> get_fifo_page s;
     e \<leftarrow> rd (page_table s) (int i);
     (_, s) \<leftarrow> swap_out ops (pe_pid e) (pe_paddr e) (pe_vaddr e) s;
     s \<leftarrow> tlb_invalidate s;
     Some (i, s) }"

definition alloc_page :: "'f file_ops \<Rightarrow> int \<Rightarrow> vaddr \<Rightarrow> int \<Rightarrow> int \<Rightarrow> 'f vm_state \<Rightarrow> (paddr \<times> 'f vm_state) option" where
  "alloc_page ops pid vaddr writeable dirty s = do {
     (page_index, s) \<leftarrow> get_free_page s;
     (i, s) \<leftarrow> (case page_index of Some i \<Rightarrow> Some (i, s) | None \<Rightarrow> evict_page ops s);
     e \<leftarrow> rd (page_table s) (int i);
     let e = e\<lparr>pe_vaddr := vaddr, pe_pid := pid, pe_npages := 1, pe_writeable := writeable,
               pe_dirty := dirty\<rparr>;
     Some (pe_paddr e, s\<lparr>page_table := (page_table s)[i := e]\<rparr>) }"

definition pt_alloc_page :: "'f file_ops \<Rightarrow> int \<Rightarrow> vaddr \<Rightarrow> int \<Rightarrow> int \<Rightarrow> 'f vm_state \<Rightarrow> (paddr \<times> 'f vm_state) option" where
  "pt_alloc_page ops pid vaddr writeable dirty s = do {
     s \<leftarrow> vlock Pt_Mutex s;
     (paddr, s) \<leftarrow> alloc_page ops pid vaddr writeable dirty s;
     s \<leftarrow> vunlock Pt_Mutex s;
     Some (paddr, s) }"

subsection \<open>Lookups\<close>

definition pte_covers :: "int \<Rightarrow> vaddr \<Rightarrow> page_table_entry \<Rightarrow> bool" where
  "pte_covers pid vaddr e \<longleftrightarrow> pe_pid e = pid
     \<and> (let vtop = pe_vaddr e + PAGE_SIZE; vbottom = pe_vaddr e in vaddr \<ge> vbottom \<and> vaddr < vtop)"

definition pt_find :: "int \<Rightarrow> vaddr \<Rightarrow> page_table_entry list \<Rightarrow> nat option" where
  "pt_find pid vaddr pt = first_index (\<lambda>i. pte_covers pid vaddr (pt ! i)) (length pt)"

definition pt_get_paddr :: "int \<Rightarrow> vaddr \<Rightarrow> 'f vm_state \<Rightarrow> (paddr \<times> 'f vm_state) option" where
  "pt_get_paddr pid vaddr s = do {
     s \<leftarrow> vlock Pt_Mutex s;
     let paddr = (case pt_find pid vaddr (page_table s) of
                    Some i \<Rightarrow> pe_paddr (page_table s ! i) | None \<Rightarrow> 0);
     s \<leftarrow> vunlock Pt_Mutex s;
     Some (paddr, s) }"

text \<open>With no matching entry the result is an uninitialised variable.\<close>

definition pt_is_writeable :: "int \<Rightarrow> vaddr \<Rightarrow> 'f vm_state \<Rightarrow> (int \<times> 'f vm_state) option" where
  "pt_is_writeable pid vaddr s = do {
     s \<leftarrow> vlock Pt_Mutex s;
     let writeable = map_option (\<lambda>i. pe_writeable (page_table s ! i)) (pt_find pid vaddr (page_table s));
     s \<leftarrow> vunlock Pt_Mutex s;
     w \<leftarrow> writeable;
     Some (w, s) }"

definition pt_set_dirty :: "int \<Rightarrow> vaddr \<Rightarrow> 'f vm_state \<Rightarrow> 'f vm_state option" where
  "pt_set_dirty pid vaddr s = do {
     s \<leftarrow> vlock Pt_Mutex s;
     let s = (case pt_find pid vaddr (page_table s) of
                Some i \<Rightarrow> s\<lparr>page_table := (page_table s)[i := (page_table s ! i)\<lparr>pe_dirty := 1\<rparr>]\<rparr>
              | None \<Rightarrow> s);
     vunlock Pt_Mutex s }"

definition pt_find_exact :: "int \<Rightarrow> vaddr \<Rightarrow> page_table_entry list \<Rightarrow> nat option" where
  "pt_find_exact pid va pt = first_index (\<lambda>i. pe_pid (pt ! i) = pid \<and> pe_vaddr (pt ! i) = va) (length pt)"

definition pt_search_swap :: "int \<Rightarrow> vaddr \<Rightarrow> 'f vm_state \<Rightarrow> (nat option \<times> 'f vm_state) option" where
  "pt_search_swap pid va s = do {
     s \<leftarrow> vlock Pt_Mutex s;
     let index = pt_find_exact pid va (page_table s);
     s \<leftarrow> vunlock Pt_Mutex s;
     Some (index, s) }"

subsection \<open>Releasing frames\<close>

text \<open>The four assignments with which every release clears an entry.\<close>

definition clear_entry :: "nat \<Rightarrow> 'f vm_state \<Rightarrow> 'f vm_state option" where
  "clear_entry i s = do {
     e \<leftarrow> rd (page_table s) (int i);
     let s = s\<lparr>page_table := (page_table s)[i := e\<lparr>pe_vaddr := 0, pe_pid := 0, pe_npages := 0\<rparr>]\<rparr>;
     free_page i s }"

definition pt_free_page_swap :: "int \<Rightarrow> vaddr \<Rightarrow> 'f vm_state \<Rightarrow> 'f vm_state option" where
  "pt_free_page_swap pid va s = do {
     index \<leftarrow> pt_find_exact pid va (page_table s);
     clear_entry index s }"

fun free_pages_from :: "int \<Rightarrow> nat list \<Rightarrow> 'f vm_state \<Rightarrow> 'f vm_state option" where
  "free_pages_from pid [] s = Some s"
| "free_pages_from pid (i # is) s =
     (if pe_pid (page_table s ! i) = pid
      then do { s \<leftarrow> clear_entry i s; free_pages_from pid is s }
      else free_pages_from pid is s)"

definition pt_free_pages :: "int \<Rightarrow> 'f vm_state \<Rightarrow> 'f vm_state option" where
  "pt_free_pages pid s = free_pages_from pid [0..<length (page_table s)] s"

fun clear_entries :: "nat \<Rightarrow> nat \<Rightarrow> 'f vm_state \<Rightarrow> 'f vm_state option" where
  "clear_entries i 0 s = Some s"
| "clear_entries i (Suc n) s = do { s \<leftarrow> clear_entry i s; clear_entries (i + 1) n s }"

definition pt_free_kpage :: "vaddr \<Rightarrow> 'f vm_state \<Rightarrow> 'f vm_state option" where
  "pt_free_kpage vaddr s =
     (case first_index (\<lambda>i. ce_is_kernel (coremap s ! i) \<noteq> 0 \<and> vaddr = pe_vaddr (page_table s ! i))
             (length (page_table s)) of
        Some i \<Rightarrow> clear_entries i (nat (pe_npages (page_table s ! i))) s
      | None \<Rightarrow> Some s)"

definition pt_entry_count :: "bool \<Rightarrow> 'f vm_state \<Rightarrow> nat" where
  "pt_entry_count kernelOnly s = length (filter
     (\<lambda>i. pe_vaddr (page_table s ! i) \<noteq> 0 \<and> kernelOnly \<and> ce_is_kernel (coremap s ! i) \<noteq> 0
        \<or> pe_vaddr (page_table s ! i) \<noteq> 0 \<and> \<not> kernelOnly) [0..<length (page_table s)])"

subsection \<open>Kernel pages\<close>

fun set_kentries :: "int \<Rightarrow> vaddr \<Rightarrow> nat \<Rightarrow> nat \<Rightarrow> page_table_entry list \<Rightarrow> page_table_entry list" where
  "set_kentries pid vaddr i 0 pt = pt"
| "set_kentries pid vaddr i (Suc n) pt =
     set_kentries pid (vaddr + PAGE_SIZE) (i + 1) n
       (pt[i := (pt ! i)\<lparr>pe_vaddr := vaddr, pe_pid := pid, pe_npages := int (Suc n)\<rparr>])"

definition pt_alloc_kpages :: "int \<Rightarrow> int \<Rightarrow> 'f vm_state \<Rightarrow> (vaddr \<times> 'f vm_state) option" where
  "pt_alloc_kpages pid npages s = do {
     let (vaddr, s) = is_coremap_initialized npages s;
     if vaddr \<noteq> 0 then Some (vaddr, s)
     else do {
       s \<leftarrow> vlock Pt_Mutex s;
       (page_index, s) \<leftarrow> get_free_kpages npages s;
       case page_index of
         None \<Rightarrow> do { s \<leftarrow> vunlock Pt_Mutex s; Some (0, s) }
       | Some i \<Rightarrow> do {
           e \<leftarrow> rd (page_table s) (int i);
           let vaddr = PADDR_TO_KVADDR (pe_paddr e);
           let s = s\<lparr>page_table := set_kentries pid vaddr i (nat npages) (page_table s)\<rparr>;
           s \<leftarrow> vunlock Pt_Mutex s;
           Some (vaddr, s) } } }"

subsection \<open>Copying an address space\<close>

fun copymem_from :: "'f file_ops \<Rightarrow> int \<Rightarrow> int \<Rightarrow> nat list \<Rightarrow> 'f vm_state \<Rightarrow> (errno \<times> 'f vm_state) option" where
  "copymem_from ops curpid pid [] s = Some (ESUCCESS, s)"
| "copymem_from ops curpid pid (i # is) s =
     (let e = page_table s ! i in
      if pe_pid e = curpid then do {
        (paddr, s) \<leftarrow> alloc_page ops pid (pe_vaddr e) (pe_writeable e) (pe_dirty e) s;
        if paddr = 0 then Some (ENOMEM, s)
        else copymem_from ops curpid pid is
               (s\<lparr>pmem := (pmem s)(paddr := pmem s (pe_paddr (page_table s ! i)))\<rparr>) }
      else copymem_from ops curpid pid is s)"

definition pt_copymem :: "'f file_ops \<Rightarrow> int \<Rightarrow> int \<Rightarrow> 'f vm_state \<Rightarrow> (errno \<times> 'f vm_state) option" where
  "pt_copymem ops curpid pid s = do {
     s \<leftarrow> vlock Pt_Mutex s;
     (result, s) \<leftarrow> copymem_from ops curpid pid [0..<length (page_table s)] s;
     s \<leftarrow> vunlock Pt_Mutex s;
     Some (result, s) }"

subsection \<open>Bringing a page back\<close>

definition swap_in :: "'f file_ops \<Rightarrow> int \<Rightarrow> vaddr \<Rightarrow> 'f vm_state \<Rightarrow> (paddr \<times> 'f vm_state) option" where
  "swap_in ops pid va s = do {
     s \<leftarrow> vlock Swap_Mutex s;
     case swap_search pid va s of
       None \<Rightarrow> do { s \<leftarrow> vunlock Swap_Mutex s; Some (0, s) }
     | Some index \<Rightarrow> (case fop_read ops (swap_file s) (se_offset (swap_array s ! index)) 4096 of
           (Inl _, _) \<Rightarrow> None
         | (Inr bytes, f) \<Rightarrow> do {
             let s = s\<lparr>swap_file := f, k_in_data := bytes @ drop (length bytes) (k_in_data s)\<rparr>;
             s \<leftarrow> vunlock Swap_Mutex s;
             (pa, s) \<leftarrow> pt_alloc_page ops pid va 1 1 s;
             let s = s\<lparr>pmem := (pmem s)(pa := k_in_data s)\<rparr>;
             let s = s\<lparr>swap_array := (swap_array s)[index := swap_entry_init 0 0 0]\<rparr>;
             s \<leftarrow> vmstats_inc 6 s;
             s \<leftarrow> vmstats_inc 8 s;
             Some (pa, s) }) }"

subsection \<open>Start-up\<close>

text \<open>
  The arrays are laid over raw memory: \<open>gc\<close> and \<open>gp\<close> are what that memory holds, and
  every field that the loops do not assign keeps it.
\<close>

definition pt_init :: "nat \<Rightarrow> nat \<Rightarrow> paddr \<Rightarrow> vaddr \<Rightarrow> (nat \<Rightarrow> page_table_entry) \<Rightarrow> 'f vm_state
    \<Rightarrow> (nat \<times> 'f vm_state) option" where
  "pt_init pages coremap_size starting_paddr coremap_vaddr gp s = do {
     s \<leftarrow> vlock Pt_Mutex s;
     let pt_paddr = starting_paddr + of_nat coremap_size * PAGE_SIZE;
     let pt_vaddr = PADDR_TO_KVADDR pt_paddr;
     let pt_size = (24 * pages + 4096 - 1) div 4096;
     let entry = (\<lambda>i. let e = (gp i)\<lparr>pe_paddr := starting_paddr + of_nat i * PAGE_SIZE,
                                     pe_writeable := 1, pe_dirty := 0\<rparr> in
         if i < coremap_size then
           e\<lparr>pe_vaddr := coremap_vaddr + of_nat i * PAGE_SIZE,
             pe_npages := c_int (uint coremap_vaddr - int i)\<rparr>
         else if i < pt_size + coremap_size then
           e\<lparr>pe_vaddr := pt_vaddr + of_nat (i - coremap_size) * PAGE_SIZE,
             pe_npages := int pages - (int i - int coremap_size)\<rparr>
         else e\<lparr>pe_vaddr := 0\<rparr>);
     s \<leftarrow> vunlock Pt_Mutex (s\<lparr>page_table := map entry [0..<pages]\<rparr>);
     Some (pt_size, s) }"

definition mark_kernel :: "nat list \<Rightarrow> 'f vm_state \<Rightarrow> 'f vm_state" where
  "mark_kernel is s = fold (\<lambda>i s. set_coremap_entry_time i (set_coremap_flags i 1 1 s)) is s"

definition coremap_bootstrap :: "(nat \<Rightarrow> coremap_entry) \<Rightarrow> (nat \<Rightarrow> page_table_entry) \<Rightarrow> 'f vm_state
    \<Rightarrow> 'f vm_state option" where
  "coremap_bootstrap gc gp s = do {
     s \<leftarrow> vlock Coremap_Mutex s;
     let ((lo, hi), s) = ram_getsize s;
     let total_pages = nat (sint (hi - lo)) div 4096;
     let coremap_size = (16 * total_pages + 4096 - 1) div 4096;
     let coremap_vaddr = PADDR_TO_KVADDR lo;
     let s = s\<lparr>coremap := map (\<lambda>i. if i < coremap_size then gc i
                 else (gc i)\<lparr>ce_in_use := 0, ce_is_kernel := 0\<rparr>) [0..<total_pages]\<rparr>;
     let s = mark_kernel [0..<min coremap_size total_pages] s;
     (pt_size, s) \<leftarrow> pt_init total_pages coremap_size lo coremap_vaddr gp s;
     kassert (coremap_size + pt_size \<le> total_pages);
     let s = mark_kernel [coremap_size..<coremap_size + pt_size] s;
     vunlock Coremap_Mutex (s\<lparr>coremap_init := True\<rparr>) }"

end
