(* ===== verification/Vm_View.thy ===== *)
theory Vm_View
  imports Vm_Pagetable
begin

text \<open>
  What a process sees of its memory.  \<open>view\<close> gives the contents of a page of an address
  space, from the frame that holds it or from the swap file, and \<open>vm_inv\<close> is the invariant of
  the page table, the core map and the swap table.  The lemmas show that frame allocation,
  with or without replacement, and bringing a page back from the swap file keep the invariant
  and change the view of no page but the one asked for.
\<close>

section \<open>Invariant and view\<close>

text \<open>
  What the VM system relies on of the swap file: while \<open>fok f\<close> holds, whole pages can be
  written at multiples of the page size, they do not disturb each other, and reading gives
  back what was written.  \<open>slot f i\<close> is the page that \<open>f\<close> holds at offset \<open>i * PAGE_SIZE\<close>.
\<close>

definition page_store :: "'f file_ops \<Rightarrow> ('f \<Rightarrow> bool) \<Rightarrow> ('f \<Rightarrow> nat \<Rightarrow> page) \<Rightarrow> bool" where
  "page_store ops fok slot \<longleftrightarrow>
     (\<forall>f i pg. fok f \<longrightarrow> length pg = 4096 \<longrightarrow> (\<exists>f'. fop_write ops f (int i * 4096) pg = (ESUCCESS, f')
        \<and> fok f' \<and> slot f' = (slot f)(i := pg)))
   \<and> (\<forall>f i. fok f \<longrightarrow> length (slot f i) = 4096 \<longrightarrow>
        (\<exists>f'. fop_read ops f (int i * 4096) 4096 = (Inr (slot f i), f') \<and> fok f' \<and> slot f' = slot f))"

definition page_va :: "vaddr \<Rightarrow> bool" where
  "page_va va \<longleftrightarrow> va \<noteq> 0 \<and> va AND PAGE_FRAME = va \<and> va < MIPS_KSEG0"

text \<open>Frame \<open>i\<close> holds page \<open>va\<close> of process \<open>pid\<close>; swap slot \<open>j\<close> does.\<close>

definition maps :: "'f vm_state \<Rightarrow> nat \<Rightarrow> int \<Rightarrow> vaddr \<Rightarrow> bool" where
  "maps s i pid va \<longleftrightarrow> i < length (page_table s) \<and> ce_user (coremap s ! i)
     \<and> pe_pid (page_table s ! i) = pid \<and> pe_vaddr (page_table s ! i) = va"

definition swapped :: "'f vm_state \<Rightarrow> nat \<Rightarrow> int \<Rightarrow> vaddr \<Rightarrow> bool" where
  "swapped s j pid va \<longleftrightarrow> j < length (swap_array s)
     \<and> se_pid (swap_array s ! j) = pid \<and> se_va (swap_array s ! j) = va"

definition frame_addr :: "'f vm_state \<Rightarrow> nat \<Rightarrow> paddr" where
  "frame_addr s i = pe_paddr (page_table s ! i)"

definition frames_inv :: "'f vm_state \<Rightarrow> bool" where
  "frames_inv s \<longleftrightarrow> length (coremap s) = length (page_table s)
     \<and> inj_on (frame_addr s) {..<length (page_table s)}
     \<and> (\<forall>i<length (page_table s). frame_addr s i \<noteq> 0 \<and> frame_addr s i AND PAGE_FRAME = frame_addr s i
          \<and> length (pmem s (frame_addr s i)) = 4096
          \<and> (ce_in_use (coremap s ! i) = 0 \<or> ce_in_use (coremap s ! i) = 1))"

definition table_inv :: "'f vm_state \<Rightarrow> bool" where
  "table_inv s \<longleftrightarrow>
     (\<forall>i<length (page_table s). if ce_user (coremap s ! i)
        then pe_pid (page_table s ! i) \<noteq> 0 \<and> page_va (pe_vaddr (page_table s ! i))
        else pe_pid (page_table s ! i) = 0)
   \<and> (\<forall>i i' pid va. maps s i pid va \<longrightarrow> maps s i' pid va \<longrightarrow> i = i')"

text \<open>
  No page is both in a frame and in the swap file, except the pages in \<open>X\<close>: while \<open>swap_in\<close>
  runs, the page it brings back is for a moment in both.
\<close>

definition swap_inv :: "(int \<times> vaddr) set \<Rightarrow> ('f \<Rightarrow> nat \<Rightarrow> page) \<Rightarrow> 'f vm_state \<Rightarrow> bool" where
  "swap_inv X slot s \<longleftrightarrow>
     (\<forall>j<length (swap_array s). se_va (swap_array s ! j) \<noteq> 0 \<longrightarrow>
        se_offset (swap_array s ! j) = int j * 4096 \<and> length (slot (swap_file s) j) = 4096)
   \<and> (\<forall>j j' pid va. va \<noteq> 0 \<longrightarrow> swapped s j pid va \<longrightarrow> swapped s j' pid va \<longrightarrow> j = j')
   \<and> (\<forall>i j pid va. (pid, va) \<notin> X \<longrightarrow> maps s i pid va \<longrightarrow> \<not> swapped s j pid va)"

definition clock_inv :: "'f vm_state \<Rightarrow> bool" where
  "clock_inv s \<longleftrightarrow> (\<forall>a b. a \<le> b \<longrightarrow> time_le (clock s a) (clock s b))
     \<and> (\<forall>e t. e \<in> set (coremap s) \<longrightarrow> ce_user e \<longrightarrow> ticks s \<le> t \<longrightarrow> time_le (ce_time e) (clock s t))"

definition vm_inv :: "(int \<times> vaddr) set \<Rightarrow> ('f \<Rightarrow> bool) \<Rightarrow> ('f \<Rightarrow> nat \<Rightarrow> page) \<Rightarrow> 'f vm_state \<Rightarrow> bool" where
  "vm_inv X fok slot s \<longleftrightarrow> frames_inv s \<and> table_inv s \<and> swap_inv X slot s \<and> clock_inv s
     \<and> fok (swap_file s) \<and> length (stats_counts s) = 10 \<and> length (k_in_data s) = 4096"

definition view :: "('f \<Rightarrow> nat \<Rightarrow> page) \<Rightarrow> 'f vm_state \<Rightarrow> int \<Rightarrow> vaddr \<Rightarrow> page option" where
  "view slot s pid va =
     (case pt_find pid va (page_table s) of
        Some i \<Rightarrow> Some (pmem s (frame_addr s i))
      | None \<Rightarrow> (case swap_search pid va s of
          Some j \<Rightarrow> Some (slot (swap_file s) j)
        | None \<Rightarrow> None))"

text \<open>There is room: a frame that the kernel does not own, and a free swap entry.\<close>

definition vm_room :: "'f vm_state \<Rightarrow> bool" where
  "vm_room s \<longleftrightarrow> (\<exists>i<length (coremap s). ce_in_use (coremap s ! i) = 0 \<or> ce_user (coremap s ! i))
     \<and> (\<exists>j<length (swap_array s). se_va (swap_array s ! j) = 0)"

section \<open>Page addresses\<close>

lemma page_frame_mask: "PAGE_FRAME = NOT (mask 12)"
  by (simp add: PAGE_FRAME_def mask_eq_exp_minus_1)

lemma aligned_iff: "va AND PAGE_FRAME = va \<longleftrightarrow> unat va mod 4096 = 0"
proof -
  have "va AND PAGE_FRAME = va \<longleftrightarrow> take_bit 12 va = 0"
    unfolding page_frame_mask by (auto simp: bit_eq_iff bit_simps)
  also have "\<dots> \<longleftrightarrow> unat (take_bit 12 va) = 0" by (rule unat_eq_zero[symmetric])
  also have "\<dots> \<longleftrightarrow> unat va mod 4096 = 0"
    by (subst unsigned_take_bit_eq) (simp add: take_bit_eq_mod)
  finally show ?thesis .
qed

lemma page_va_covers:
  assumes "page_va va" and "page_va b"
  shows "(va \<ge> b \<and> va < b + PAGE_SIZE) \<longleftrightarrow> va = b"
proof -
  have b: "unat b < 2 ^ 31" "unat b mod 4096 = 0" "unat va mod 4096 = 0"
    using assms by (auto simp: page_va_def aligned_iff MIPS_KSEG0_def word_less_nat_alt)
  then have top: "unat (b + PAGE_SIZE) = unat b + 4096"
    by (subst unat_add_lem[THEN iffD1]) (auto simp: PAGE_SIZE_def)
  have "(va \<ge> b \<and> va < b + PAGE_SIZE) \<longleftrightarrow> unat b \<le> unat va \<and> unat va < unat b + 4096"
    by (simp add: word_le_nat_alt word_less_nat_alt top)
  also obtain k l where "unat b = 4096 * k" "unat va = 4096 * l"
    using b(2,3) by (auto simp: mod_eq_0_iff_dvd elim!: dvdE)
  then have "(unat b \<le> unat va \<and> unat va < unat b + 4096) \<longleftrightarrow> unat va = unat b" by auto
  finally show ?thesis by (simp add: word_unat_eq_iff)
qed

section \<open>Lookups under the invariant\<close>

lemma vm_invD:
  assumes "vm_inv X fok slot s"
  shows "frames_inv s" "table_inv s" "swap_inv X slot s" "clock_inv s" "fok (swap_file s)"
    "length (stats_counts s) = 10" "length (k_in_data s) = 4096"
  using assms by (auto simp: vm_inv_def)

lemma pt_find_iff:
  assumes "frames_inv s" and "table_inv s" and "pid \<noteq> 0" and "page_va va"
  shows "pt_find pid va (page_table s) = Some i \<longleftrightarrow> maps s i pid va"
proof -
  have cov: "pte_covers pid va (page_table s ! i) \<longleftrightarrow> maps s i pid va" if "i < length (page_table s)" for i
  proof (cases "ce_user (coremap s ! i)")
    case True
    then have "page_va (pe_vaddr (page_table s ! i))" using assms(2) that by (simp add: table_inv_def)
    from page_va_covers[OF assms(4) this] True that show ?thesis
      by (auto simp: pte_covers_def maps_def Let_def)
  next
    case False
    then have "pe_pid (page_table s ! i) = 0" using assms(2) that by (simp add: table_inv_def)
    then show ?thesis using False assms(3) by (auto simp: pte_covers_def maps_def)
  qed
  have "maps s i pid va \<Longrightarrow> i < length (page_table s)" for i by (simp add: maps_def)
  moreover have "maps s i pid va \<Longrightarrow> maps s j pid va \<Longrightarrow> i = j" for i j
    using assms(2) by (auto simp: table_inv_def)
  ultimately show ?thesis
    unfolding pt_find_def by (intro first_index_unique cov) auto
qed

lemma swap_search_iff:
  assumes "swap_inv X slot s" and "va \<noteq> 0"
  shows "swap_search pid va s = Some j \<longleftrightarrow> swapped s j pid va"
proof -
  have "swapped s i pid va \<Longrightarrow> swapped s j pid va \<Longrightarrow> i = j" for i j
    using assms by (auto simp: swap_inv_def)
  then show ?thesis
    unfolding swap_search_def by (intro first_index_unique) (auto simp: swapped_def)
qed

lemma view_iff:
  assumes "frames_inv s" and "table_inv s" and "swap_inv X slot s" and "pid \<noteq> 0" and "page_va va"
    and "(pid, va) \<notin> X"
  shows "view slot s pid va = Some pg \<longleftrightarrow>
    (\<exists>i. maps s i pid va \<and> pg = pmem s (frame_addr s i))
    \<or> (\<exists>j. swapped s j pid va \<and> pg = slot (swap_file s) j)"
proof -
  have va: "va \<noteq> 0" using assms(5) by (simp add: page_va_def)
  note f = pt_find_iff[OF assms(1,2,4,5)] and g = swap_search_iff[OF assms(3) va, of pid]
  show ?thesis
  proof (cases "pt_find pid va (page_table s)")
    case None
    then have "\<not> maps s i pid va" for i using f[of i] by simp
    then show ?thesis
      using None by (cases "swap_search pid va s") (auto simp: view_def g[symmetric])
  next
    case (Some i)
    then have m: "maps s i pid va" using f[of i] by simp
    then have "\<not> swapped s j pid va" for j using assms(3,6) by (auto simp: swap_inv_def)
    moreover have "maps s i' pid va \<Longrightarrow> i' = i" for i' using m assms(2) by (auto simp: table_inv_def)
    then have "(\<exists>i'. maps s i' pid va \<and> pg = pmem s (frame_addr s i')) \<longleftrightarrow> pg = pmem s (frame_addr s i)"
      using m by metis
    ultimately show ?thesis using Some by (auto simp: view_def)
  qed
qed

lemma view_None_iff:
  assumes "frames_inv s" and "table_inv s" and "swap_inv X slot s" and "pid \<noteq> 0" and "page_va va"
    and "(pid, va) \<notin> X"
  shows "view slot s pid va = None \<longleftrightarrow> (\<forall>i. \<not> maps s i pid va) \<and> (\<forall>j. \<not> swapped s j pid va)"
  using view_iff[OF assms] by (cases "view slot s pid va") auto

section \<open>Giving a frame to a page\<close>

text \<open>
  The common core of the two ways in which \<open>alloc_page\<close> finds a frame.  Frame \<open>i\<close> goes to page
  \<open>va\<close> of \<open>pid\<close>; if it held a page, that page is now in swap slot \<open>k\<close>.
\<close>

definition reassigned :: "('f \<Rightarrow> nat \<Rightarrow> page) \<Rightarrow> 'f vm_state \<Rightarrow> 'f vm_state \<Rightarrow> nat \<Rightarrow> nat \<Rightarrow> int \<Rightarrow> vaddr \<Rightarrow> bool" where
  "reassigned slot s s' i k pid va \<longleftrightarrow> i < length (page_table s)
     \<and> (\<exists>ce e. coremap s' = (coremap s)[i := ce] \<and> ce_user ce
          \<and> page_table s' = (page_table s)[i := e] \<and> pe_paddr e = frame_addr s i
          \<and> pe_pid e = pid \<and> pe_vaddr e = va)
     \<and> pmem s' = pmem s
     \<and> (\<forall>j p v. v \<noteq> 0 \<longrightarrow> swapped s' j p v \<longleftrightarrow> swapped s j p v \<or> j = k \<and> maps s i p v)
     \<and> (\<forall>j<length (swap_array s'). se_va (swap_array s' ! j) \<noteq> 0 \<longrightarrow>
          se_offset (swap_array s' ! j) = int j * 4096)
     \<and> (\<forall>j p v. v \<noteq> 0 \<longrightarrow> swapped s j p v \<longrightarrow> j \<noteq> k \<and> slot (swap_file s') j = slot (swap_file s) j)
     \<and> (\<forall>p v. maps s i p v \<longrightarrow> slot (swap_file s') k = pmem s (frame_addr s i))"

text \<open>The pages that are in a frame and in the swap file once \<open>va\<close> has got a frame.\<close>

definition hole :: "'f vm_state \<Rightarrow> int \<Rightarrow> vaddr \<Rightarrow> (int \<times> vaddr) set" where
  "hole s pid va = (if \<exists>j<length (swap_array s). swapped s j pid va then {(pid, va)} else {})"

lemma hole_iff: "q \<in> hole s pid va \<longleftrightarrow> q = (pid, va) \<and> (\<exists>j. swapped s j pid va)"
  by (auto simp: hole_def swapped_def)

lemma reassignedI:
  assumes "i < length (page_table s)" "coremap s' = (coremap s)[i := ce]" "ce_user ce"
    "page_table s' = (page_table s)[i := e]" "pe_paddr e = frame_addr s i" "pe_pid e = pid" "pe_vaddr e = va"
    "pmem s' = pmem s"
    "\<And>j p v. v \<noteq> 0 \<Longrightarrow> swapped s' j p v \<longleftrightarrow> swapped s j p v \<or> j = k \<and> maps s i p v"
    "\<And>j. j < length (swap_array s') \<Longrightarrow> se_va (swap_array s' ! j) \<noteq> 0 \<Longrightarrow>
       se_offset (swap_array s' ! j) = int j * 4096"
    "\<And>j p v. v \<noteq> 0 \<Longrightarrow> swapped s j p v \<Longrightarrow> j \<noteq> k \<and> slot (swap_file s') j = slot (swap_file s) j"
    "\<And>p v. maps s i p v \<Longrightarrow> slot (swap_file s') k = pmem s (frame_addr s i)"
  shows "reassigned slot s s' i k pid va"
  unfolding reassigned_def using assms by blast

lemma reassigned_frames:
  assumes "reassigned slot s s' i k pid va" and "frames_inv s"
  shows "frames_inv s'" "frame_addr s' j = frame_addr s j"
proof -
  have fa: "frame_addr s' j = frame_addr s j" for j
    using assms(1) by (cases "j = i") (auto simp: reassigned_def frame_addr_def)
  then show "frame_addr s' j = frame_addr s j" .
  have fa': "frame_addr s' = frame_addr s" using fa by blast
  obtain ce where c: "coremap s' = (coremap s)[i := ce]" "ce_user ce" "i < length (page_table s)"
      "length (page_table s') = length (page_table s)" "pmem s' = pmem s"
    using assms(1) by (auto simp: reassigned_def)
  have "ce_in_use (coremap s' ! j) = 0 \<or> ce_in_use (coremap s' ! j) = 1" if "j < length (page_table s)" for j
    using assms(2) c(1,2,3) that
    by (cases "j = i") (simp_all add: frames_inv_def ce_user_def)
  then show "frames_inv s'"
    using assms(2) c fa' by (simp add: frames_inv_def)
qed

lemma reassigned_maps:
  assumes "reassigned slot s s' i k pid va" and "frames_inv s"
  shows "maps s' j p v \<longleftrightarrow> (if j = i then p = pid \<and> v = va else maps s j p v)"
  using assms by (auto simp: reassigned_def maps_def frames_inv_def)

lemma reassigned_table:
  assumes r: "reassigned slot s s' i k pid va" and f: "frames_inv s" and t: "table_inv s"
    and "pid \<noteq> 0" and "page_va va" and absent: "\<And>j. \<not> maps s j pid va"
  shows "table_inv s'"
proof -
  have "if ce_user (coremap s' ! j) then pe_pid (page_table s' ! j) \<noteq> 0 \<and> page_va (pe_vaddr (page_table s' ! j))
        else pe_pid (page_table s' ! j) = 0" if "j < length (page_table s')" for j
    using r f t assms(4,5) that
    by (cases "j = i") (auto simp: reassigned_def table_inv_def frames_inv_def)
  moreover have "j = j'" if "maps s' j p v" "maps s' j' p v" for j j' p v
    using that t absent by (auto simp: reassigned_maps[OF r f] table_inv_def split: if_splits)
  ultimately show ?thesis by (auto simp: table_inv_def)
qed

lemma maps_page_va: "table_inv s \<Longrightarrow> maps s i p v \<Longrightarrow> p \<noteq> 0 \<and> page_va v \<and> v \<noteq> 0"
  by (auto simp: table_inv_def maps_def page_va_def)

lemma reassigned_swap:
  assumes r: "reassigned slot s s' i k pid va" and f: "frames_inv s" and t: "table_inv s"
    and w: "swap_inv {} slot s" and "page_va va"
    and absent: "\<And>j. \<not> maps s j pid va"
  shows "swap_inv (hole s pid va) slot s'"
proof -
  have sw: "swapped s' j p v \<longleftrightarrow> swapped s j p v \<or> j = k \<and> maps s i p v" if "v \<noteq> 0" for j p v
    using r that by (simp add: reassigned_def)
  have "length (slot (swap_file s') j) = 4096"
    if j: "j < length (swap_array s')" "se_va (swap_array s' ! j) \<noteq> 0" for j
  proof -
    let ?p = "se_pid (swap_array s' ! j)" and ?v = "se_va (swap_array s' ! j)"
    have "swapped s' j ?p ?v" using j by (simp add: swapped_def)
    then consider "swapped s j ?p ?v" | "j = k" "maps s i ?p ?v" using sw[OF j(2)] by blast
    then show ?thesis
    proof cases
      case 1
      then show ?thesis using r w j(2) by (auto simp: reassigned_def swap_inv_def swapped_def)
    next
      case 2
      then show ?thesis using r f by (auto simp: reassigned_def frames_inv_def maps_def)
    qed
  qed
  moreover have "j = j'" if "v \<noteq> 0" "swapped s' j p v" "swapped s' j' p v" for j j' p v
    using that w by (auto simp: sw swap_inv_def)
  moreover have "\<not> swapped s' j p v" if "maps s' m p v" "(p, v) \<notin> hole s pid va" for m j p v
  proof
    assume a: "swapped s' j p v"
    have v: "v \<noteq> 0" using that(1) maps_page_va[OF t] assms(5)
      by (auto simp: reassigned_maps[OF r f] page_va_def split: if_splits)
    show False
    proof (cases "m = i")
      case True
      then show False using that a v absent by (simp add: reassigned_maps[OF r f] sw hole_iff)
    next
      case False
      then have m: "maps s m p v" using that by (simp add: reassigned_maps[OF r f])
      then have "\<not> swapped s j p v" using w by (auto simp: swap_inv_def)
      then have "maps s i p v" using a v by (simp add: sw)
      then show False using m False t by (auto simp: table_inv_def)
    qed
  qed
  ultimately show ?thesis using r by (auto simp: swap_inv_def reassigned_def)
qed

lemma reassigned_view:
  assumes r: "reassigned slot s s' i k pid va" and f: "frames_inv s" and t: "table_inv s"
    and w: "swap_inv {} slot s" and pid: "pid \<noteq> 0" and va: "page_va va"
    and ab: "\<And>j. \<not> maps s j pid va"
  shows "view slot s' pid va = Some (pmem s (frame_addr s i))"
    and "p \<noteq> 0 \<Longrightarrow> page_va v \<Longrightarrow> (p, v) \<noteq> (pid, va) \<Longrightarrow> view slot s' p v = view slot s p v"
proof -
  have f': "frames_inv s'" and fa: "\<And>j. frame_addr s' j = frame_addr s j"
    using reassigned_frames[OF r f] by auto
  have t': "table_inv s'" using reassigned_table[OF r f t pid va ab] .
  have w': "swap_inv (hole s pid va) slot s'" using reassigned_swap[OF r f t w va ab] .
  have pm: "pmem s' = pmem s" using r by (simp add: reassigned_def)
  show "view slot s' pid va = Some (pmem s (frame_addr s i))"
    using pt_find_iff[OF f' t' pid va, of i] by (simp add: reassigned_maps[OF r f] fa pm view_def)
  assume p: "p \<noteq> 0" and v: "page_va v" and ne: "(p, v) \<noteq> (pid, va)"
  have v0: "v \<noteq> 0" using v by (simp add: page_va_def)
  have ne0: "(p, v) \<notin> {}" by simp
  have nh: "(p, v) \<notin> hole s pid va" using ne by (auto simp: hole_iff)
  have sw: "swapped s' j p v \<longleftrightarrow> swapped s j p v \<or> j = k \<and> maps s i p v" for j
    using r v0 by (simp add: reassigned_def)
  have s1: "swapped s j p v \<Longrightarrow> slot (swap_file s') j = slot (swap_file s) j" for j
    using r v0 by (auto simp: reassigned_def)
  have s2: "maps s i p v \<Longrightarrow> slot (swap_file s') k = pmem s (frame_addr s i)"
    using r by (auto simp: reassigned_def)
  have mp: "maps s' j p v \<longleftrightarrow> j \<noteq> i \<and> maps s j p v" for j
    using ne by (auto simp: reassigned_maps[OF r f])
  have "view slot s' p v = Some pg \<longleftrightarrow> view slot s p v = Some pg" for pg
    unfolding view_iff[OF f' t' w' p v nh] view_iff[OF f t w p v ne0] mp sw fa pm
    using s1 s2 by metis
  then show "view slot s' p v = view slot s p v" by (metis not_Some_eq)
qed

section \<open>Allocation\<close>

definition blank_tlb :: "(u32 \<times> u32) list" where
  "blank_tlb = map (\<lambda>i. (TLBHI_INVALID i, 0)) [0..<NUM_TLB]"

lemma vmstats_inc_ok:
  assumes "length (stats_counts s) = 10" and "Stats_Lock \<notin> held s" and "i < 10"
  shows "vmstats_inc i s = Some (s\<lparr>stats_counts := (stats_counts s)[i := stats_counts s ! i + 1]\<rparr>)"
proof -
  have "s\<lparr>held := held s\<rparr> = s" by simp
  with assms show ?thesis
    by (auto simp: vmstats_inc_def vmstats_inc_nolock_def vm_simps)
qed

lemma tlb_invalidate_ok:
  assumes "length (stats_counts s) = 10" and "Stats_Lock \<notin> held s"
  shows "tlb_invalidate s = Some (s\<lparr>tlb_entries := blank_tlb, m_next_victim := 0,
    stats_counts := (stats_counts s)[3 := stats_counts s ! 3 + 1]\<rparr>)"
  using vmstats_inc_ok[of "s\<lparr>tlb_entries := blank_tlb, m_next_victim := 0\<rparr>" 3] assms
  by (simp add: tlb_invalidate_def blank_tlb_def)

lemma swap_out_ok:
  assumes "page_store ops fok slot" and "fok (swap_file s)" and "length (pmem s (pa AND PAGE_FRAME)) = 4096"
    and "length (stats_counts s) = 10" and "Stats_Lock \<notin> held s" and "Swap_Mutex \<notin> held s"
    and "\<exists>j<length (swap_array s). se_va (swap_array s ! j) = 0"
  obtains k f c where "k < length (swap_array s)" "se_va (swap_array s ! k) = 0" "fok f" "length c = 10"
    "slot f = (slot (swap_file s))(k := pmem s (pa AND PAGE_FRAME))"
    "swap_out ops pid pa va s = Some (ESUCCESS, s\<lparr>stats_counts := c, swap_file := f,
       swap_array := (swap_array s)[k := \<lparr>se_va = va, se_pid = pid, se_offset = int k * 4096\<rparr>]\<rparr>)"
proof -
  obtain k where k: "swap_find_free s = Some k"
    using assms(7) first_index_exists[of _ "length (swap_array s)" "\<lambda>i. se_va (swap_array s ! i) = 0"]
    unfolding swap_find_free_def by blast
  then have k': "k < length (swap_array s)" "se_va (swap_array s ! k) = 0"
    by (auto simp: swap_find_free_def first_index_Some_iff)
  obtain f where f: "fop_write ops (swap_file s) (int k * 4096) (pmem s (pa AND PAGE_FRAME)) = (ESUCCESS, f)"
     "fok f" "slot f = (slot (swap_file s))(k := pmem s (pa AND PAGE_FRAME))"
    using assms(1-3) unfolding page_store_def by blast
  have "swap_find_free (s\<lparr>stats_counts := c, held := h\<rparr>) = swap_find_free s" for c h
    by (simp add: swap_find_free_def)
  then show thesis
    using that[OF k' f(2) _ f(3), of "(stats_counts s)[9 := stats_counts s ! 9 + 1]"] assms f(1) k
    by (simp add: swap_out_def vmstats_inc_ok vm_simps)
qed

text \<open>
  The frames keep their addresses, and either the TLB was not touched and no page lost its frame,
  or all entries are invalid.
\<close>

definition tlb_kept :: "'f vm_state \<Rightarrow> 'f vm_state \<Rightarrow> bool" where
  "tlb_kept s s' \<longleftrightarrow> (\<forall>j. frame_addr s' j = frame_addr s j) \<and> length (page_table s') = length (page_table s)
     \<and> (tlb_entries s' = tlb_entries s \<and> m_next_victim s' = m_next_victim s
          \<and> (\<forall>i p v. maps s i p v \<longrightarrow> maps s' i p v)
        \<or> tlb_entries s' = blank_tlb \<and> m_next_victim s' = 0)"

text \<open>What a successful allocation guarantees.\<close>

definition alloc_post :: "('f \<Rightarrow> bool) \<Rightarrow> ('f \<Rightarrow> nat \<Rightarrow> page) \<Rightarrow> int \<Rightarrow> vaddr \<Rightarrow> 'f vm_state \<Rightarrow> paddr
    \<Rightarrow> 'f vm_state \<Rightarrow> bool" where
  "alloc_post fok slot pid va s pa s' \<longleftrightarrow> vm_inv (hole s pid va) fok slot s' \<and> pa \<noteq> 0
     \<and> (\<exists>i. maps s' i pid va \<and> frame_addr s' i = pa)
     \<and> pmem s' = pmem s \<and> view slot s' pid va = Some (pmem s pa)
     \<and> (\<forall>p v. p \<noteq> 0 \<longrightarrow> page_va v \<longrightarrow> (p, v) \<noteq> (pid, va) \<longrightarrow> view slot s' p v = view slot s p v)
     \<and> held s' = held s \<and> spl_high s' = spl_high s \<and> k_in_data s' = k_in_data s
     \<and> (\<forall>j p v. v \<noteq> 0 \<longrightarrow> swapped s j p v \<longrightarrow> swapped s' j p v) \<and> tlb_kept s s'"

lemma reassigned_post:
  assumes r: "reassigned slot s s' i k pid va" and inv: "vm_inv {} fok slot s"
    and pid: "pid \<noteq> 0" and va: "page_va va" and absent: "\<And>j. \<not> maps s j pid va"
    and "clock_inv s'" "fok (swap_file s')" "length (stats_counts s') = 10" "k_in_data s' = k_in_data s"
    and "held s' = held s" "spl_high s' = spl_high s"
    and "tlb_entries s' = tlb_entries s \<and> m_next_victim s' = m_next_victim s \<and> \<not> ce_user (coremap s ! i)
       \<or> tlb_entries s' = blank_tlb \<and> m_next_victim s' = 0"
  shows "alloc_post fok slot pid va s (frame_addr s i) s'"
proof -
  note d = vm_invD[OF inv]
  have "vm_inv (hole s pid va) fok slot s'"
    unfolding vm_inv_def
    using reassigned_frames(1)[OF r d(1)] reassigned_table[OF r d(1,2) pid va absent]
      reassigned_swap[OF r d(1-3) va absent] assms d by simp
  moreover have "frame_addr s i \<noteq> 0" using d(1) r by (auto simp: frames_inv_def reassigned_def)
  moreover have "maps s' i pid va" "pmem s' = pmem s" "length (page_table s') = length (page_table s)"
    using reassigned_maps[OF r d(1)] r by (auto simp: reassigned_def)
  moreover have "\<not> ce_user (coremap s ! i) \<Longrightarrow> maps s j p v \<Longrightarrow> maps s' j p v" for j p v
    unfolding reassigned_maps[OF r d(1)] by (auto simp: maps_def)
  moreover have "v \<noteq> 0 \<Longrightarrow> swapped s j p v \<Longrightarrow> swapped s' j p v" for j p v
    using r by (simp add: reassigned_def)
  ultimately show ?thesis
    using reassigned_view[OF r d(1-3) pid va absent] reassigned_frames(2)[OF r d(1)] assms
    by (auto simp: alloc_post_def tlb_kept_def)
qed

lemma clock_inv_update:
  assumes "clock_inv s" and "clock s' = clock s" and "coremap s' = (coremap s)[i := ce]"
    and "ticks s \<le> ticks s'" and "a \<le> ticks s'" and "ce_time ce = clock s a"
  shows "clock_inv s'"
proof -
  have mono: "time_le (clock s b) (clock s c)" if "b \<le> c" for b c
    using assms(1) that by (simp add: clock_inv_def)
  have "time_le (ce_time e) (clock s t)" if "e \<in> set (coremap s')" "ce_user e" "ticks s' \<le> t" for e t
  proof (cases "e = ce")
    case True
    then show ?thesis using mono[of a t] that assms(5,6) by simp
  next
    case False
    then have "e \<in> set (coremap s)" using that(1) assms(3) set_update_subset_insert by fastforce
    then show ?thesis using assms(1,4) that by (auto simp: clock_inv_def)
  qed
  then show ?thesis using assms(1,2) by (auto simp: clock_inv_def)
qed

lemma alloc_page_free:
  assumes inv: "vm_inv {} fok slot s" and pid: "pid \<noteq> 0" and va: "page_va va"
    and absent: "\<And>j. \<not> maps s j pid va"
    and i: "i < length (coremap s)" "ce_in_use (coremap s ! i) = 0"
    and g: "get_free_page s = Some (Some i, s\<lparr>ticks := Suc (ticks s), coremap := (coremap s)[i :=
         (coremap s ! i)\<lparr>ce_in_use := 1, ce_is_kernel := 0, ce_secs := fst (clock s (ticks s)),
          ce_nsecs := snd (clock s (ticks s))\<rparr>]\<rparr>)"
  shows "\<exists>pa s'. alloc_page ops pid va w d s = Some (pa, s') \<and> alloc_post fok slot pid va s pa s'"
proof -
  note d = vm_invD[OF inv]
  let ?ce = "(coremap s ! i)\<lparr>ce_in_use := 1, ce_is_kernel := 0, ce_secs := fst (clock s (ticks s)),
          ce_nsecs := snd (clock s (ticks s))\<rparr>"
  let ?e = "(page_table s ! i)\<lparr>pe_vaddr := va, pe_pid := pid, pe_npages := 1, pe_writeable := w, pe_dirty := d\<rparr>"
  let ?s = "s\<lparr>ticks := Suc (ticks s), coremap := (coremap s)[i := ?ce], page_table := (page_table s)[i := ?e]\<rparr>"
  have len: "i < length (page_table s)" using i d(1) by (simp add: frames_inv_def)
  have nu: "\<not> ce_user (coremap s ! i)" using i by (simp add: ce_user_def)
  have al: "alloc_page ops pid va w d s = Some (frame_addr s i, ?s)"
    using g len by (simp add: alloc_page_def frame_addr_def)
  have sw: "swapped ?s j p v \<longleftrightarrow> swapped s j p v" for j p v by (simp add: swapped_def)
  have r: "reassigned slot s ?s i (length (swap_array s)) pid va"
    by (rule reassignedI[where ce = ?ce and e = ?e])
      (use len nu d(3) in \<open>auto simp: frame_addr_def ce_user_def sw swap_inv_def maps_def swapped_def\<close>)
  have cl: "clock_inv ?s"
    by (rule clock_inv_update[OF d(4), of _ i ?ce "ticks s"]) (simp_all add: ce_time_def)
  have "alloc_post fok slot pid va s (frame_addr s i) ?s"
    by (rule reassigned_post[OF r inv pid va absent cl]) (use d nu in simp_all)
  with al show ?thesis by blast
qed

lemma alloc_page_evict:
  assumes st: "page_store ops fok slot" and inv: "vm_inv {} fok slot s" and pid: "pid \<noteq> 0" and va: "page_va va"
    and absent: "\<And>j. \<not> maps s j pid va" and room: "vm_room s"
    and locks: "Stats_Lock \<notin> held s" "Swap_Mutex \<notin> held s"
    and full: "\<forall>j<length (coremap s). ce_in_use (coremap s ! j) \<noteq> 0"
    and g: "get_free_page s = Some (None, s)"
  shows "\<exists>pa s'. alloc_page ops pid va w d s = Some (pa, s') \<and> alloc_post fok slot pid va s pa s'"
proof -
  note d = vm_invD[OF inv]
  have "\<exists>e\<in>set (coremap s). ce_user e" using room full by (auto simp: vm_room_def)
  moreover have "\<And>e. e \<in> set (coremap s) \<Longrightarrow> ce_user e \<Longrightarrow> time_le (ce_time e) (clock s (ticks s))"
    using d(4) by (simp add: clock_inv_def)
  ultimately obtain i where i: "i < length (coremap s)" "ce_user (coremap s ! i)"
    and fifo: "get_fifo_page s = Some (i, s\<lparr>ticks := Suc (Suc (ticks s)), coremap := (coremap s)[i :=
       (coremap s ! i)\<lparr>ce_secs := fst (clock s (Suc (ticks s))), ce_nsecs := snd (clock s (Suc (ticks s)))\<rparr>]\<rparr>)"
    by (rule get_fifo_page_oldest) blast
  let ?ce = "(coremap s ! i)\<lparr>ce_secs := fst (clock s (Suc (ticks s))), ce_nsecs := snd (clock s (Suc (ticks s)))\<rparr>"
  let ?s1 = "s\<lparr>ticks := Suc (Suc (ticks s)), coremap := (coremap s)[i := ?ce]\<rparr>"
  let ?o = "page_table s ! i"
  let ?e = "?o\<lparr>pe_vaddr := va, pe_pid := pid, pe_npages := 1, pe_writeable := w, pe_dirty := d\<rparr>"
  have len: "i < length (page_table s)" using i d(1) by (simp add: frames_inv_def)
  have fr: "pe_paddr ?o AND PAGE_FRAME = pe_paddr ?o" "length (pmem s (pe_paddr ?o)) = 4096"
    using d(1) len by (auto simp: frames_inv_def frame_addr_def)
  obtain k f c where k: "k < length (swap_array s)" "se_va (swap_array s ! k) = 0" "fok f" "length c = 10"
      "slot f = (slot (swap_file s))(k := pmem s (pe_paddr ?o))"
    and out: "swap_out ops (pe_pid ?o) (pe_paddr ?o) (pe_vaddr ?o) ?s1 = Some (ESUCCESS, ?s1\<lparr>stats_counts := c,
       swap_file := f, swap_array := (swap_array s)[k := \<lparr>se_va = pe_vaddr ?o, se_pid = pe_pid ?o, se_offset = int k * 4096\<rparr>]\<rparr>)"
    using swap_out_ok[OF st, of ?s1 "pe_paddr ?o" "pe_pid ?o" "pe_vaddr ?o"] d fr locks room
    by (auto simp: vm_room_def)
  let ?s = "?s1\<lparr>stats_counts := c[3 := c ! 3 + 1], swap_file := f, tlb_entries := blank_tlb, m_next_victim := 0,
       swap_array := (swap_array s)[k := \<lparr>se_va = pe_vaddr ?o, se_pid = pe_pid ?o, se_offset = int k * 4096\<rparr>],
       page_table := (page_table s)[i := ?e]\<rparr>"
  have al: "alloc_page ops pid va w d s = Some (frame_addr s i, ?s)"
    using g fifo out len k(4) locks
    by (simp add: alloc_page_def evict_page_def frame_addr_def tlb_invalidate_ok)
  have r: "reassigned slot s ?s i k pid va"
    by (rule reassignedI[where ce = ?ce and e = ?e])
      (use len i(2) d(3) k in
        \<open>auto simp: frame_addr_def ce_user_def swap_inv_def maps_def swapped_def nth_list_update split: if_splits\<close>)
  have cl: "clock_inv ?s"
    by (rule clock_inv_update[OF d(4), of _ i ?ce "Suc (ticks s)"]) (simp_all add: ce_time_def)
  have "alloc_post fok slot pid va s (frame_addr s i) ?s"
    by (rule reassigned_post[OF r inv pid va absent cl]) (use d k in simp_all)
  with al show ?thesis by blast
qed

lemma alloc_page_ok:
  assumes "page_store ops fok slot" and inv: "vm_inv {} fok slot s" and "pid \<noteq> 0" and "page_va va"
    and "\<And>j. \<not> maps s j pid va" and "vm_room s"
    and "Stats_Lock \<notin> held s" "Swap_Mutex \<notin> held s" and lock: "Coremap_Mutex \<notin> held s"
  shows "\<exists>pa s'. alloc_page ops pid va w d s = Some (pa, s') \<and> alloc_post fok slot pid va s pa s'"
  using lock
proof (cases rule: get_free_page_cases)
  case (frame i)
  then show ?thesis using alloc_page_free assms by blast
next
  case full
  then show ?thesis using alloc_page_evict assms by blast
qed

lemma pt_alloc_page_ok:
  assumes "page_store ops fok slot" and "vm_inv {} fok slot s" and "pid \<noteq> 0" and "page_va va"
    and "\<And>j. \<not> maps s j pid va" and "vm_room s" and "held s = {}"
  shows "\<exists>pa s'. pt_alloc_page ops pid va w d s = Some (pa, s') \<and> alloc_post fok slot pid va s pa s'"
proof -
  let ?s = "s\<lparr>held := insert Pt_Mutex (held s)\<rparr>"
  have v: "view slot (t\<lparr>held := h\<rparr>) = view slot t" for t h
    by (intro ext) (simp add: view_def swap_search_def frame_addr_def cong: option.case_cong)
  have m: "maps (t\<lparr>held := h\<rparr>) = maps t" "swapped (t\<lparr>held := h\<rparr>) = swapped t"
      "frame_addr (t\<lparr>held := h\<rparr>) = frame_addr t" for t :: "'a vm_state" and h
    by (intro ext, simp add: maps_def swapped_def frame_addr_def)+
  have i: "vm_inv X fok slot (t\<lparr>held := h\<rparr>) = vm_inv X fok slot t" for X t h
    by (simp add: vm_inv_def frames_inv_def table_inv_def swap_inv_def clock_inv_def m)
  obtain pa s' where a: "alloc_page ops pid va w d ?s = Some (pa, s')" "alloc_post fok slot pid va ?s pa s'"
    using alloc_page_ok[of ops fok slot ?s pid va w d] assms by (auto simp: v i m vm_room_def)
  have h: "held s' = {Pt_Mutex}" using a(2) assms(7) by (simp add: alloc_post_def)
  have "alloc_post fok slot pid va s pa (s'\<lparr>held := {}\<rparr>)"
    using a(2) assms(7) by (auto simp: alloc_post_def tlb_kept_def v m i hole_def)
  then show ?thesis
    using a(1) assms(7) h by (auto simp: pt_alloc_page_def vm_simps)
qed

section \<open>Bringing a page back\<close>

lemma swap_in_finish:
  assumes inv: "vm_inv (hole s pid va) fok slot s2" and pid: "pid \<noteq> 0" and va: "page_va va"
    and m: "maps s2 i pid va" and w: "swapped s2 k pid va" and pg: "length pg = 4096"
    and s3: "s3 = s2\<lparr>pmem := (pmem s2)(frame_addr s2 i := pg),
               swap_array := (swap_array s2)[k := swap_entry_init 0 0 0]\<rparr>"
  shows "vm_inv {} fok slot s3" "view slot s3 pid va = Some pg"
    "p \<noteq> 0 \<Longrightarrow> page_va v \<Longrightarrow> (p, v) \<noteq> (pid, va) \<Longrightarrow> view slot s3 p v = view slot s2 p v"
proof -
  note d = vm_invD[OF inv]
  have va0: "va \<noteq> 0" using va by (simp add: page_va_def)
  have mp: "maps s3 = maps s2" and fa: "frame_addr s3 = frame_addr s2"
    by (intro ext, simp add: s3 maps_def frame_addr_def)+
  have sw: "v \<noteq> 0 \<Longrightarrow> swapped s3 j p v \<longleftrightarrow> swapped s2 j p v \<and> j \<noteq> k" for j p v
    by (cases "j = k") (auto simp: s3 swapped_def swap_entry_init_def)
  have uniq: "swapped s2 j p v \<Longrightarrow> swapped s2 j' p v \<Longrightarrow> v \<noteq> 0 \<Longrightarrow> j = j'" for j j' p v
    using d(3) by (auto simp: swap_inv_def)
  have f3: "frames_inv s3"
    using d(1) pg by (auto simp: frames_inv_def fa) (auto simp: s3)
  have t3: "table_inv s3" using d(2) by (simp add: table_inv_def mp) (simp add: s3)
  have "\<not> swapped s3 j p v" if "maps s3 i p v" for i j p v
  proof (cases "(p, v) = (pid, va)")
    case True
    then show ?thesis using uniq[of _ pid va k] w va0 sw by blast
  next
    case False
    then have "(p, v) \<notin> hole s pid va" by (auto simp: hole_iff)
    then have "\<not> swapped s2 j p v" using d(3) that by (auto simp: swap_inv_def mp)
    moreover have "v \<noteq> 0" using maps_page_va[OF d(2)] that by (auto simp: mp)
    ultimately show ?thesis by (simp add: sw)
  qed
  moreover have "se_offset (swap_array s3 ! j) = int j * 4096 \<and> length (slot (swap_file s3) j) = 4096"
    if "j < length (swap_array s3)" "se_va (swap_array s3 ! j) \<noteq> 0" for j
    using d(3) that by (cases "j = k") (simp_all add: swap_inv_def s3 swap_entry_init_def)
  ultimately have w3: "swap_inv {} slot s3" using uniq sw by (auto simp: swap_inv_def)
  show "vm_inv {} fok slot s3"
    using f3 t3 w3 d(4-7) by (auto simp: vm_inv_def clock_inv_def s3)
  show "view slot s3 pid va = Some pg"
  proof -
    have "pg = pmem s3 (frame_addr s3 i)" by (simp only: fa) (simp add: s3)
    moreover have "maps s3 i pid va" using m by (simp only: mp)
    ultimately show ?thesis using view_iff[OF f3 t3 w3 pid va, of pg] by blast
  qed
  assume p: "p \<noteq> 0" and v: "page_va v" and ne: "(p, v) \<noteq> (pid, va)"
  have nh: "(p, v) \<notin> hole s pid va" "(p, v) \<notin> {}" using ne by (auto simp: hole_iff)
  have v0: "v \<noteq> 0" using v by (simp add: page_va_def)
  have "j \<noteq> k" if "swapped s2 j p v" for j using that w ne by (auto simp: swapped_def)
  then have "swapped s3 j p v \<longleftrightarrow> swapped s2 j p v" for j using sw[OF v0] by auto
  moreover have "pmem s3 (frame_addr s2 j) = pmem s2 (frame_addr s2 j)" if "maps s2 j p v" for j
  proof -
    have "j \<noteq> i" using that m ne by (auto simp: maps_def)
    moreover have "j < length (page_table s2)" "i < length (page_table s2)" using that m by (auto simp: maps_def)
    ultimately have "frame_addr s2 j \<noteq> frame_addr s2 i" using d(1) by (auto simp: frames_inv_def inj_on_def)
    then show ?thesis by (simp add: s3)
  qed
  moreover have "swap_file s3 = swap_file s2" by (simp add: s3)
  ultimately have "view slot s3 p v = Some q \<longleftrightarrow> view slot s2 p v = Some q" for q
    unfolding view_iff[OF f3 t3 w3 p v nh(2)] view_iff[OF d(1-3) p v nh(1)] mp fa by auto
  then show "view slot s3 p v = view slot s2 p v" by (metis not_Some_eq)
qed

lemma vm_inv_file:
  assumes "vm_inv X fok slot s" and "slot f = slot (swap_file s)" and "fok f" and "length b = 4096"
  shows "vm_inv X fok slot (s\<lparr>swap_file := f, k_in_data := b\<rparr>)"
    and "view slot (s\<lparr>swap_file := f, k_in_data := b\<rparr>) = view slot s"
proof -
  let ?s = "s\<lparr>swap_file := f, k_in_data := b\<rparr>"
  have m: "maps ?s = maps s" "swapped ?s = swapped s" "frame_addr ?s = frame_addr s"
    by (intro ext, simp add: maps_def swapped_def frame_addr_def)+
  show "vm_inv X fok slot ?s"
    using assms by (simp add: vm_inv_def frames_inv_def table_inv_def swap_inv_def clock_inv_def m)
  show "view slot ?s = view slot s"
    using assms(2) by (intro ext) (simp add: view_def swap_search_def m cong: option.case_cong)
qed

lemma swap_in_ok:
  assumes st: "page_store ops fok slot" and inv: "vm_inv {} fok slot s" and pid: "pid \<noteq> 0" and va: "page_va va"
    and w: "swapped s k pid va" and room: "vm_room s" and locks: "held s = {}"
  shows "\<exists>pa s'. swap_in ops pid va s = Some (pa, s') \<and> pa \<noteq> 0 \<and> vm_inv {} fok slot s' \<and> held s' = {}
    \<and> tlb_kept s s' \<and> spl_high s' = spl_high s
    \<and> (\<exists>i. maps s' i pid va \<and> frame_addr s' i = pa)
    \<and> (\<forall>p v. p \<noteq> 0 \<longrightarrow> page_va v \<longrightarrow> view slot s' p v = view slot s p v)"
proof -
  note d = vm_invD[OF inv]
  have va0: "va \<noteq> 0" using va by (simp add: page_va_def)
  have nomap: "\<not> maps s j pid va" for j using w d(3) by (auto simp: swap_inv_def)
  have k: "k < length (swap_array s)" "se_va (swap_array s ! k) \<noteq> 0" using w va0 by (auto simp: swapped_def)
  let ?pg = "slot (swap_file s) k"
  have pg: "length ?pg = 4096" "se_offset (swap_array s ! k) = int k * 4096"
    using d(3) k by (auto simp: swap_inv_def)
  obtain f where f: "fop_read ops (swap_file s) (int k * 4096) 4096 = (Inr ?pg, f)" "fok f"
      "slot f = slot (swap_file s)"
    using st d(5) pg(1) unfolding page_store_def by blast
  let ?s1 = "s\<lparr>swap_file := f, k_in_data := ?pg\<rparr>"
  have s1: "vm_inv {} fok slot ?s1" "view slot ?s1 = view slot s"
    using vm_inv_file[OF inv f(3,2) pg(1)] by auto
  have m1: "maps ?s1 = maps s" "swapped ?s1 = swapped s" "frame_addr ?s1 = frame_addr s"
    by (intro ext, simp add: maps_def swapped_def frame_addr_def)+
  obtain pa s2 where al: "pt_alloc_page ops pid va 1 1 ?s1 = Some (pa, s2)" "alloc_post fok slot pid va ?s1 pa s2"
    using pt_alloc_page_ok[OF st s1(1) pid va, of 1 1] nomap room locks by (auto simp: m1 vm_room_def)
  have a2: "vm_inv (hole ?s1 pid va) fok slot s2" "pa \<noteq> 0" "held s2 = {}" "k_in_data s2 = ?pg"
      "swapped s2 k pid va"
      "\<And>p v. p \<noteq> 0 \<Longrightarrow> page_va v \<Longrightarrow> (p, v) \<noteq> (pid, va) \<Longrightarrow> view slot s2 p v = view slot s p v"
    using al(2) locks w va0 by (auto simp: alloc_post_def m1 s1(2))
  obtain i where i: "maps s2 i pid va" "frame_addr s2 i = pa" using al(2) by (auto simp: alloc_post_def)
  define s3 where "s3 = s2\<lparr>pmem := (pmem s2)(frame_addr s2 i := ?pg),
               swap_array := (swap_array s2)[k := swap_entry_init 0 0 0]\<rparr>"
  note fin = swap_in_finish[OF a2(1) pid va i(1) a2(5) pg(1) s3_def]
  have c3: "length (stats_counts s3) = 10" "held s3 = {}" using fin(1) a2(3) by (auto simp: vm_inv_def s3_def)
  define c where "c = (let d = (stats_counts s3)[6 := stats_counts s3 ! 6 + 1] in d[8 := d ! 8 + 1])"
  have run: "swap_in ops pid va s = Some (pa, s3\<lparr>stats_counts := c\<rparr>)"
  proof -
    have "swap_search pid va (s\<lparr>held := {Swap_Mutex}\<rparr>) = Some k"
      using swap_search_iff[OF d(3) va0, of pid k] w by (simp add: swap_search_def)
    moreover have "s\<lparr>swap_file := f, k_in_data := ?pg, held := {}\<rparr> = ?s1"
      using locks by (cases s) simp
    then have "pt_alloc_page ops pid va 1 1 (s\<lparr>swap_file := f, k_in_data := ?pg, held := {}\<rparr>) = Some (pa, s2)"
      using al(1) by (simp only:)
    ultimately show ?thesis
      using locks f(1) pg a2(4) i(2) c3 d(7)
      by (simp add: swap_in_def vm_simps s3_def vmstats_inc_ok c_def Let_def)
  qed
  have eq: "maps (s3\<lparr>stats_counts := c\<rparr>) = maps s2" "frame_addr (s3\<lparr>stats_counts := c\<rparr>) = frame_addr s2"
      "view slot (s3\<lparr>stats_counts := c\<rparr>) = view slot s3"
    by (intro ext, simp add: s3_def maps_def frame_addr_def view_def swap_search_def cong: option.case_cong)+
  have inv3: "vm_inv {} fok slot (s3\<lparr>stats_counts := c\<rparr>)"
  proof -
    have "maps (s3\<lparr>stats_counts := c\<rparr>) = maps s3" "frame_addr (s3\<lparr>stats_counts := c\<rparr>) = frame_addr s3"
        "swapped (s3\<lparr>stats_counts := c\<rparr>) = swapped s3"
      by (intro ext, simp add: maps_def swapped_def frame_addr_def)+
    then show ?thesis using fin(1) c3(1)
      by (simp add: vm_inv_def frames_inv_def table_inv_def swap_inv_def clock_inv_def c_def Let_def)
  qed
  have "view slot s pid va = Some ?pg"
    using view_iff[OF d(1-3) pid va, of ?pg] w by auto
  then have "view slot s3 p v = view slot s p v" if "p \<noteq> 0" "page_va v" for p v
    using fin(2,3) a2(6) that by (cases "(p, v) = (pid, va)") auto
  moreover have "tlb_kept s (s3\<lparr>stats_counts := c\<rparr>)" "spl_high s3 = spl_high s"
    using al(2) by (auto simp: alloc_post_def tlb_kept_def eq m1) (simp_all add: s3_def)
  ultimately show ?thesis using run inv3 a2(2) c3(2) i eq by auto
qed

section \<open>Changes that the view does not see\<close>

text \<open>Statistics, locks, the TLB, and the dirty and protection bits of the page table.\<close>

definition same_memory :: "'f vm_state \<Rightarrow> 'f vm_state \<Rightarrow> bool" where
  "same_memory s s' \<longleftrightarrow> coremap s' = coremap s \<and> length (page_table s') = length (page_table s)
     \<and> (\<forall>i. pe_pid (page_table s' ! i) = pe_pid (page_table s ! i)
           \<and> pe_vaddr (page_table s' ! i) = pe_vaddr (page_table s ! i)
           \<and> pe_paddr (page_table s' ! i) = pe_paddr (page_table s ! i))
     \<and> swap_array s' = swap_array s \<and> swap_file s' = swap_file s \<and> pmem s' = pmem s
     \<and> clock s' = clock s \<and> ticks s' = ticks s \<and> k_in_data s' = k_in_data s"

lemma same_memory_maps:
  assumes "same_memory s s'"
  shows "maps s' = maps s" "swapped s' = swapped s" "frame_addr s' = frame_addr s"
  using assms by (auto simp: same_memory_def maps_def swapped_def frame_addr_def intro!: ext)

lemma same_memory_view:
  assumes "same_memory s s'"
  shows "view slot s' = view slot s"
proof (intro ext)
  fix pid va
  have "pt_find pid va (page_table s') = pt_find pid va (page_table s)"
    using assms unfolding pt_find_def same_memory_def
    by (intro first_index_cong) (auto simp: pte_covers_def)
  moreover have "swap_search pid va s' = swap_search pid va s"
    using assms by (simp add: same_memory_def swap_search_def)
  moreover have "pmem s' = pmem s" "swap_file s' = swap_file s" using assms by (auto simp: same_memory_def)
  ultimately show "view slot s' pid va = view slot s pid va"
    by (simp only: view_def same_memory_maps[OF assms])
qed

lemma same_memory_inv:
  assumes "same_memory s s'" and "length (stats_counts s') = 10" and "vm_inv X fok slot s"
  shows "vm_inv X fok slot s'"
proof -
  note m = same_memory_maps[OF assms(1)]
  show ?thesis
    using assms unfolding vm_inv_def frames_inv_def table_inv_def swap_inv_def clock_inv_def m
    by (simp add: same_memory_def)
qed

lemma store_frame:
  assumes inv: "vm_inv {} fok slot s" and m: "maps s i pid va" and pg: "length pg = 4096"
    and s': "s' = s\<lparr>pmem := (pmem s)(frame_addr s i := pg)\<rparr>"
  shows "vm_inv {} fok slot s'" "view slot s' pid va = Some pg"
    "p \<noteq> 0 \<Longrightarrow> page_va v \<Longrightarrow> (p, v) \<noteq> (pid, va) \<Longrightarrow> view slot s' p v = view slot s p v"
proof -
  note d = vm_invD[OF inv]
  have mp: "maps s' = maps s" "swapped s' = swapped s" and fa: "frame_addr s' = frame_addr s"
    by (intro ext, simp add: s' maps_def swapped_def frame_addr_def)+
  show inv': "vm_inv {} fok slot s'"
    using inv pg unfolding vm_inv_def frames_inv_def table_inv_def swap_inv_def clock_inv_def mp fa
    by (simp add: s')
  note d' = vm_invD[OF inv']
  have pid: "pid \<noteq> 0" "page_va va" using maps_page_va[OF d(2) m] by auto
  have "pg = pmem s' (frame_addr s' i)" by (simp only: fa) (simp add: s')
  then show "view slot s' pid va = Some pg"
    using view_iff[OF d'(1-3) pid, of pg] m by (auto simp: mp)
  assume p: "p \<noteq> 0" and v: "page_va v" and ne: "(p, v) \<noteq> (pid, va)"
  have "pmem s' (frame_addr s j) = pmem s (frame_addr s j)" if "maps s j p v" for j
  proof -
    have "j \<noteq> i" "j < length (page_table s)" "i < length (page_table s)"
      using that m ne by (auto simp: maps_def)
    then have "frame_addr s j \<noteq> frame_addr s i" using d(1) by (auto simp: frames_inv_def inj_on_def)
    then show ?thesis by (simp add: s')
  qed
  moreover have "swap_file s' = swap_file s" by (simp add: s')
  ultimately have "view slot s' p v = Some q \<longleftrightarrow> view slot s p v = Some q" for q
    using view_iff[OF d'(1-3) p v, of q] view_iff[OF d(1-3) p v, of q] by (auto simp: mp fa)
  then show "view slot s' p v = view slot s p v" by (metis not_Some_eq)
qed

end
