(* ===== verification/Vm_Tlb.thy ===== *)
theory Vm_Tlb
  imports Vm_View
begin

text \<open>
  The translation buffer: \<open>src/kern/vm/vm_tlb.c\<close>.

  An entry is the pair of the words \<open>ehi\<close> and \<open>elo\<close> that \<open>TLB_Write\<close> stores.  The hardware
  is a parameter only in that entries are found by \<open>tlb_lookup\<close>: a valid entry whose \<open>ehi\<close> is
  the page.  \<open>tlb_inv\<close> says that every valid entry translates as the page table does for
  the running process and that no page has two entries, which the MIPS hardware forbids.
\<close>

section \<open>Model\<close>

definition TLBLO_DIRTY :: u32 where
  "TLBLO_DIRTY = 0x400"

definition TLBLO_VALID :: u32 where
  "TLBLO_VALID = 0x200"

definition tlb_get_rr_victim :: "'f vm_state \<Rightarrow> nat \<times> 'f vm_state" where
  "tlb_get_rr_victim s =
     (unat (m_next_victim s), s\<lparr>m_next_victim := (m_next_victim s + 1) mod of_nat NUM_TLB\<rparr>)"

definition TLB_Read :: "nat \<Rightarrow> 'f vm_state \<Rightarrow> (u32 \<times> u32) option" where
  "TLB_Read i s = rd (tlb_entries s) (int i)"

definition TLB_Write :: "u32 \<Rightarrow> u32 \<Rightarrow> nat \<Rightarrow> 'f vm_state \<Rightarrow> 'f vm_state option" where
  "TLB_Write ehi elo i s = do {
     t \<leftarrow> wr (tlb_entries s) (int i) (ehi, elo);
     Some (s\<lparr>tlb_entries := t\<rparr>) }"

text \<open>
  \<open>tlb_write\<close>; \<open>has_as\<close> says whether the running thread has an address space and \<open>t_pid\<close>
  is its process.  On success it hands back the index of the entry.
\<close>

definition tlb_write :: "bool \<Rightarrow> int \<Rightarrow> vaddr \<Rightarrow> u32 \<Rightarrow> 'f vm_state \<Rightarrow> ((errno + nat) \<times> 'f vm_state) option" where
  "tlb_write has_as t_pid faultaddress writeable s =
     (if \<not> has_as then Some (Inl EFAULT, s)
      else do {
        (paddr, s) \<leftarrow> pt_get_paddr t_pid faultaddress s;
        kassert (paddr AND PAGE_FRAME = paddr);
        (i, s) \<leftarrow> (case first_index (\<lambda>i. snd (tlb_entries s ! i) AND TLBLO_VALID = 0) (length (tlb_entries s)) of
            Some i \<Rightarrow> do { s \<leftarrow> vmstats_inc 1 s; Some (i, s) }
          | None \<Rightarrow> do {
              let (i, s) = tlb_get_rr_victim s;
              s \<leftarrow> vmstats_inc 2 s;
              Some (i, s) });
        s \<leftarrow> TLB_Write faultaddress (paddr OR writeable OR TLBLO_VALID) i s;
        s \<leftarrow> vmstats_inc 0 s;
        Some (Inr i, s) })"

definition tlb_update :: "int \<Rightarrow> vaddr \<Rightarrow> u32 \<Rightarrow> 'f vm_state \<Rightarrow> 'f vm_state option" where
  "tlb_update t_pid faultaddress writeable s = do {
     (paddr, s) \<leftarrow> pt_get_paddr t_pid faultaddress s;
     Some (s\<lparr>tlb_entries := map (\<lambda>(ehi, elo).
        if elo AND TLBLO_VALID \<noteq> 0 \<and> ehi = faultaddress
        then (faultaddress, paddr OR writeable OR TLBLO_VALID) else (ehi, elo)) (tlb_entries s)\<rparr>) }"

definition tlb_set_read_only :: "vaddr \<Rightarrow> u32 \<Rightarrow> nat \<Rightarrow> 'f vm_state \<Rightarrow> (errno \<times> 'f vm_state) option" where
  "tlb_set_read_only sd_vbase sd_segsz storeloc s = do {
     (ehi, elo) \<leftarrow> TLB_Read storeloc s;
     if elo AND TLBLO_VALID \<noteq> 0 \<and> ehi \<ge> sd_vbase \<and> ehi < sd_vbase + sd_segsz
     then do {
       s \<leftarrow> TLB_Write ehi (elo AND NOT TLBLO_DIRTY) storeloc s;
       Some (ESUCCESS, s) }
     else Some (EFAULT, s) }"

text \<open>Address translation by the hardware: the entry for a page, if one is valid.\<close>

definition tlb_valid :: "u32 \<times> u32 \<Rightarrow> bool" where
  "tlb_valid e \<longleftrightarrow> snd e AND TLBLO_VALID \<noteq> 0"

definition tlb_lookup :: "vaddr \<Rightarrow> 'f vm_state \<Rightarrow> (u32 \<times> u32) option" where
  "tlb_lookup va s = find (\<lambda>e. tlb_valid e \<and> fst e = va) (tlb_entries s)"

section \<open>Invariant\<close>

definition tlb_entry_ok :: "'f vm_state \<Rightarrow> int \<Rightarrow> u32 \<times> u32 \<Rightarrow> bool" where
  "tlb_entry_ok s pid e \<longleftrightarrow> (\<exists>i<length (page_table s). maps s i pid (fst e)
     \<and> snd e AND PAGE_FRAME = frame_addr s i)"

definition tlb_inv :: "int \<Rightarrow> 'f vm_state \<Rightarrow> bool" where
  "tlb_inv pid s \<longleftrightarrow> length (tlb_entries s) = NUM_TLB \<and> unat (m_next_victim s) < NUM_TLB
     \<and> (\<forall>e\<in>set (tlb_entries s). tlb_valid e \<longrightarrow> tlb_entry_ok s pid e)
     \<and> (\<forall>a<NUM_TLB. \<forall>b<NUM_TLB. tlb_valid (tlb_entries s ! a) \<longrightarrow> tlb_valid (tlb_entries s ! b)
          \<longrightarrow> fst (tlb_entries s ! a) = fst (tlb_entries s ! b) \<longrightarrow> a = b)"

section \<open>Words of an entry\<close>

lemma elo_frame:
  assumes "paddr AND PAGE_FRAME = paddr" and "w = 0 \<or> w = TLBLO_DIRTY"
  shows "(paddr OR w OR TLBLO_VALID) AND PAGE_FRAME = paddr"
    and "(paddr OR w OR TLBLO_VALID) AND TLBLO_VALID \<noteq> 0"
    and "(paddr OR w OR TLBLO_VALID) AND TLBLO_DIRTY \<noteq> 0 \<longleftrightarrow> w = TLBLO_DIRTY"
proof -
  have z: "TLBLO_VALID AND PAGE_FRAME = 0" "TLBLO_DIRTY AND PAGE_FRAME = 0"
      "TLBLO_VALID AND TLBLO_DIRTY = 0" "TLBLO_VALID AND TLBLO_VALID = TLBLO_VALID" "TLBLO_DIRTY AND TLBLO_DIRTY = TLBLO_DIRTY"
      "TLBLO_VALID \<noteq> 0" "TLBLO_DIRTY \<noteq> 0" "PAGE_FRAME AND TLBLO_VALID = 0" "PAGE_FRAME AND TLBLO_DIRTY = 0"
    by (simp_all add: TLBLO_VALID_def TLBLO_DIRTY_def PAGE_FRAME_def)
  have d: "(a OR b) AND c = (a AND c) OR (b AND c)" for a b c :: u32
    by (simp add: bit_eq_iff bit_simps) blast
  have p: "paddr AND TLBLO_DIRTY = 0" "paddr AND TLBLO_VALID = 0"
    using assms(1) z by (metis and.assoc and.right_neutral and_zero_eq)+
  show "(paddr OR w OR TLBLO_VALID) AND PAGE_FRAME = paddr"
    using assms z(1,2) by (auto simp only: d or.right_neutral zero_and_eq)
  show "(paddr OR w OR TLBLO_VALID) AND TLBLO_VALID \<noteq> 0"
    using assms(2) z p by (metis d or.left_neutral or_eq_0_iff)
  show "(paddr OR w OR TLBLO_VALID) AND TLBLO_DIRTY \<noteq> 0 \<longleftrightarrow> w = TLBLO_DIRTY"
    using assms(2) z p by (auto simp only: d or.right_neutral or.left_neutral zero_and_eq)
qed

section \<open>Correctness\<close>

lemma pt_get_paddr_mapped:
  assumes "frames_inv s" "table_inv s" "pid \<noteq> 0" "page_va va" "maps s i pid va" "Pt_Mutex \<notin> held s"
  shows "pt_get_paddr pid va s = Some (frame_addr s i, s)"
proof -
  have "pt_find pid va (page_table s) = Some i" using pt_find_iff[OF assms(1-4)] assms(5) by blast
  moreover have "s\<lparr>held := held s\<rparr> = s" by simp
  ultimately show ?thesis using assms(6) by (simp add: pt_get_paddr_def vm_simps frame_addr_def)
qed

lemma pt_get_paddr_unmapped:
  assumes "frames_inv s" "table_inv s" "pid \<noteq> 0" "page_va va" "\<And>i. \<not> maps s i pid va" "Pt_Mutex \<notin> held s"
  shows "pt_get_paddr pid va s = Some (0, s)"
proof -
  have "pt_find pid va (page_table s) = None"
    using pt_find_iff[OF assms(1-4)] assms(5) by (metis not_Some_eq)
  then show ?thesis using assms(6) by (simp add: pt_get_paddr_def vm_simps)
qed

lemma tlb_lookup_None_iff: "tlb_lookup va s = None \<longleftrightarrow> (\<forall>e\<in>set (tlb_entries s). tlb_valid e \<longrightarrow> fst e \<noteq> va)"
  by (auto simp: tlb_lookup_def find_None_iff)

text \<open>Storing an entry for a page that has none keeps the invariant.\<close>

lemma tlb_inv_store:
  assumes inv: "tlb_inv pid s" and k: "k < NUM_TLB" and none: "tlb_lookup va s = None"
    and m: "maps s i pid va" and lo: "elo AND PAGE_FRAME = frame_addr s i"
    and s': "tlb_entries s' = (tlb_entries s)[k := (va, elo)]" "unat (m_next_victim s') < NUM_TLB"
      "coremap s' = coremap s" "page_table s' = page_table s"
  shows "tlb_inv pid s'"
proof -
  have eq: "maps s' = maps s" "frame_addr s' = frame_addr s"
    by (intro ext, simp add: maps_def frame_addr_def s')+
  have len: "length (tlb_entries s) = NUM_TLB" using inv by (simp add: tlb_inv_def)
  have ok: "tlb_entry_ok s' pid e" if "e \<in> set (tlb_entries s')" "tlb_valid e" for e
  proof (cases "e = (va, elo)")
    case True
    then show ?thesis using m lo by (auto simp: tlb_entry_ok_def eq s' maps_def)
  next
    case False
    then have "e \<in> set (tlb_entries s)" using that(1) s'(1) set_update_subset_insert by fastforce
    then show ?thesis using inv that(2) by (auto simp: tlb_inv_def tlb_entry_ok_def eq s')
  qed
  have other: "fst (tlb_entries s ! a) \<noteq> va" if "a < NUM_TLB" "tlb_valid (tlb_entries s ! a)" for a
    using none that len by (auto simp: tlb_lookup_None_iff)
  have "a = b" if "a < NUM_TLB" "b < NUM_TLB" "tlb_valid (tlb_entries s' ! a)" "tlb_valid (tlb_entries s' ! b)"
      "fst (tlb_entries s' ! a) = fst (tlb_entries s' ! b)" for a b
    using that other[of a] other[of b] inv len k
    by (cases "a = k"; cases "b = k") (auto simp: s' tlb_inv_def)
  then show ?thesis using ok len s' by (auto simp: tlb_inv_def)
qed

lemma tlb_lookup_store:
  assumes "k < length (tlb_entries s)" and "tlb_lookup va s = None" and "tlb_entries s' = (tlb_entries s)[k := (va, elo)]"
    and "elo AND TLBLO_VALID \<noteq> 0"
  shows "tlb_lookup va s' = Some (va, elo)"
proof -
  have mem: "(va, elo) \<in> set (tlb_entries s')" using assms(1,3) by (simp add: set_update_memI)
  have uniq: "e = (va, elo)" if "e \<in> set (tlb_entries s')" "tlb_valid e" "fst e = va" for e
    using that assms(2,3) set_update_subset_insert[of "tlb_entries s" k "(va, elo)"]
    by (auto simp: tlb_lookup_None_iff)
  show ?thesis
  proof (cases "tlb_lookup va s'")
    case None
    then show ?thesis using mem assms(4) by (auto simp: tlb_lookup_None_iff tlb_valid_def)
  next
    case (Some e)
    then have "e \<in> set (tlb_entries s')" "tlb_valid e" "fst e = va"
      by (auto simp: tlb_lookup_def find_Some_iff)
    then show ?thesis using uniq Some by simp
  qed
qed

lemma tlb_write_ok:
  assumes inv: "vm_inv X fok slot s" and ti: "tlb_inv pid s" and pid: "pid \<noteq> 0" and va: "page_va va"
    and m: "maps s i pid va" and held: "held s = {}" and none: "tlb_lookup va s = None"
    and w: "w = 0 \<or> w = TLBLO_DIRTY"
  obtains k n c where "k < NUM_TLB" "length c = 10"
    "tlb_write True pid va w s = Some (Inr k, s\<lparr>m_next_victim := n, stats_counts := c,
       tlb_entries := (tlb_entries s)[k := (va, frame_addr s i OR w OR TLBLO_VALID)]\<rparr>)"
    "tlb_inv pid (s\<lparr>m_next_victim := n, stats_counts := c,
       tlb_entries := (tlb_entries s)[k := (va, frame_addr s i OR w OR TLBLO_VALID)]\<rparr>)"
proof -
  note d = vm_invD[OF inv]
  let ?lo = "frame_addr s i OR w OR TLBLO_VALID"
  have al: "frame_addr s i AND PAGE_FRAME = frame_addr s i"
    using d(1) m by (auto simp: frames_inv_def maps_def)
  have gp: "pt_get_paddr pid va s = Some (frame_addr s i, s)"
    by (rule pt_get_paddr_mapped[OF d(1,2) pid va m]) (use held in simp)
  have len: "length (tlb_entries s) = NUM_TLB" "unat (m_next_victim s) < NUM_TLB" using ti by (auto simp: tlb_inv_def)
  have keep: "tlb_inv pid (s\<lparr>m_next_victim := n, stats_counts := c, tlb_entries := (tlb_entries s)[k := (va, ?lo)]\<rparr>)"
    if "k < NUM_TLB" "unat n < NUM_TLB" for k n c
    by (rule tlb_inv_store[OF ti that(1) none m elo_frame(1)[OF al w]]) (use that in auto)
  show thesis
  proof (cases "first_index (\<lambda>i. snd (tlb_entries s ! i) AND TLBLO_VALID = 0) (length (tlb_entries s))")
    case (Some k)
    then have k: "k < NUM_TLB" using len by (auto simp: first_index_Some_iff)
    show thesis
      by (rule that[where c = "(stats_counts s)[1 := stats_counts s ! 1 + 1, 0 := stats_counts s ! 0 + 1]",
            OF k _ _ keep[OF k len(2)]])
        (use Some k gp al held d(6) len in \<open>auto simp: tlb_write_def vmstats_inc_ok TLB_Write_def\<close>)
  next
    case None
    let ?n = "(m_next_victim s + 1) mod of_nat NUM_TLB"
    have v: "wr (tlb_entries s) (uint (m_next_victim s)) e
        = Some ((tlb_entries s)[unat (m_next_victim s) := e])" for e
      using len by (simp add: wr_def)
    have n: "unat ?n < NUM_TLB" by (simp add: NUM_TLB_def unat_mod)
    show thesis
      by (rule that[where c = "(stats_counts s)[2 := stats_counts s ! 2 + 1, 0 := stats_counts s ! 0 + 1]",
            OF len(2) _ _ keep[OF len(2) n]])
        (use None gp al held d(6) len v in
          \<open>auto simp: tlb_write_def vmstats_inc_ok TLB_Write_def tlb_get_rr_victim_def\<close>)
  qed
qed

lemma blank_tlb_facts: "length blank_tlb = NUM_TLB" "e \<in> set blank_tlb \<Longrightarrow> \<not> tlb_valid e"
  by (auto simp: blank_tlb_def tlb_valid_def)

lemma tlb_inv_kept:
  assumes "tlb_inv pid s" and "tlb_kept s s'"
  shows "tlb_inv pid s'" and "tlb_lookup va s = None \<Longrightarrow> tlb_lookup va s' = None"
proof -
  have f: "frame_addr s' = frame_addr s" "length (page_table s') = length (page_table s)"
    using assms(2) by (auto simp: tlb_kept_def)
  consider "tlb_entries s' = tlb_entries s" "m_next_victim s' = m_next_victim s"
      "\<And>i p v. maps s i p v \<Longrightarrow> maps s' i p v"
    | "tlb_entries s' = blank_tlb" "m_next_victim s' = 0"
    using assms(2) unfolding tlb_kept_def by blast
  then show "tlb_inv pid s'"
  proof cases
    case 1
    then show ?thesis using assms(1) f by (fastforce simp: tlb_inv_def tlb_entry_ok_def)
  next
    case 2
    then show ?thesis
      using blank_tlb_facts nth_mem by (auto simp: tlb_inv_def NUM_TLB_def)
  qed
  show "tlb_lookup va s' = None" if "tlb_lookup va s = None"
    using assms(2) that blank_tlb_facts(2) by (auto simp: tlb_kept_def tlb_lookup_None_iff)
qed

lemma tlb_inv_same:
  assumes "tlb_inv pid s" and "same_memory s s'" and "tlb_entries s' = tlb_entries s"
    and "m_next_victim s' = m_next_victim s"
  shows "tlb_inv pid s'"
  using assms(1,3,4) same_memory_maps[OF assms(2)] assms(2)
  by (simp add: tlb_inv_def tlb_entry_ok_def same_memory_def)

lemma tlb_lookup_Some:
  assumes "tlb_lookup va s = Some e"
  shows "e \<in> set (tlb_entries s)" "tlb_valid e" "fst e = va"
  using assms by (auto simp: tlb_lookup_def find_Some_iff)

text \<open>\<open>tlb_update\<close> changes the entry of the page and no other.\<close>

lemma tlb_update_ok:
  assumes inv: "vm_inv X fok slot s" and ti: "tlb_inv pid s" and pid: "pid \<noteq> 0" and va: "page_va va"
    and m: "maps s i pid va" and held: "held s = {}" and hit: "tlb_lookup va s \<noteq> None"
    and w: "w = 0 \<or> w = TLBLO_DIRTY"
  obtains t where "tlb_update pid va w s = Some (s\<lparr>tlb_entries := t\<rparr>)"
    "tlb_inv pid (s\<lparr>tlb_entries := t\<rparr>)"
    "tlb_lookup va (s\<lparr>tlb_entries := t\<rparr>) = Some (va, frame_addr s i OR w OR TLBLO_VALID)"
proof -
  note d = vm_invD[OF inv]
  let ?lo = "frame_addr s i OR w OR TLBLO_VALID"
  define h where "h = (\<lambda>e. if tlb_valid e \<and> fst e = va then (va, ?lo) else e)"
  have al: "frame_addr s i AND PAGE_FRAME = frame_addr s i"
    using d(1) m by (auto simp: frames_inv_def maps_def)
  note lo = elo_frame[OF al w]
  have gp: "pt_get_paddr pid va s = Some (frame_addr s i, s)"
    by (rule pt_get_paddr_mapped[OF d(1,2) pid va m]) (use held in simp)
  have hv: "tlb_valid (h e) \<longleftrightarrow> tlb_valid e" "fst (h e) = fst e" for e
    using lo(2) by (auto simp: h_def tlb_valid_def)
  let ?s = "s\<lparr>tlb_entries := map h (tlb_entries s)\<rparr>"
  have run: "tlb_update pid va w s = Some ?s"
    using gp by (auto simp: tlb_update_def h_def tlb_valid_def split_def intro!: map_cong)
  have eq: "maps ?s = maps s" "frame_addr ?s = frame_addr s"
    by (intro ext, simp add: maps_def frame_addr_def)+
  have ok: "tlb_entry_ok ?s pid (h e)" if "e \<in> set (tlb_entries s)" "tlb_valid e" for e
  proof (cases "fst e = va")
    case True
    then have "h e = (va, ?lo)" using that(2) by (simp add: h_def)
    then show ?thesis unfolding tlb_entry_ok_def eq using m lo(1) by (auto simp: maps_def)
  next
    case False
    then have "h e = e" by (simp add: h_def)
    then show ?thesis using ti that unfolding tlb_entry_ok_def eq by (auto simp: tlb_inv_def tlb_entry_ok_def)
  qed
  have inv': "tlb_inv pid ?s"
    using ti ok hv by (auto simp: tlb_inv_def)
  have "tlb_lookup va ?s \<noteq> None" using hit hv by (auto simp: tlb_lookup_None_iff)
  then obtain e where e: "tlb_lookup va ?s = Some e" by blast
  from tlb_lookup_Some[OF e] have "e = (va, ?lo)" by (auto simp: h_def split: if_splits)
  then show thesis using that run inv' e by blast
qed

end
