(* ===== verification/Vm_Addrspace.thy ===== *)
theory Vm_Addrspace
  imports Vm_Tlb Kernel_Array
begin

text \<open>
  Address spaces and the page fault handler: \<open>src/kern/vm/segments.c\<close>,
  \<open>src/kern/vm/addrspace.c\<close> and \<open>load_segment\<close> of \<open>src/kern/userprog/loadelf.c\<close>.

  The executable behind an address space is a vnode of type \<open>'e\<close>; reading it is the argument
  \<open>elf_read\<close>.  The handler stores into the page it maps through the TLB, as the C code does:
  \<open>store_page\<close> finds the entry, takes the read-only fault if the entry is not dirty, and
  writes the frame.
\<close>

section \<open>Model\<close>

subsection \<open>Segments\<close>

record segdef =
  sd_vbase :: vaddr
  sd_segsz :: u32
  sd_npage :: int
  sd_flags :: u32
  sd_offset :: int

record 'e addrspace =
  stackt :: vaddr
  stackb :: vaddr
  as_segments :: "segdef karray option"
  as_elfbin :: "'e option"

text \<open>\<open>sd_create\<close> stores through the pointer without looking at it.\<close>

definition sd_create :: "bool \<Rightarrow> segdef option" where
  "sd_create ok = (if ok then Some \<lparr>sd_vbase = 0, sd_segsz = 0, sd_npage = 0, sd_flags = 0, sd_offset = 0\<rparr>
                   else None)"

definition sd_copy :: "bool \<Rightarrow> segdef \<Rightarrow> segdef option" where
  "sd_copy ok old = do {
     new \<leftarrow> sd_create ok;
     Some (new\<lparr>sd_vbase := sd_vbase old, sd_segsz := sd_segsz old, sd_npage := sd_npage old,
               sd_flags := sd_flags old, sd_offset := sd_offset old\<rparr>) }"

definition seg_covers :: "vaddr \<Rightarrow> segdef \<Rightarrow> bool" where
  "seg_covers va sd \<longleftrightarrow> (let segb = sd_vbase sd; segt = segb + sd_segsz sd in segb \<le> va \<and> va \<le> segt)"

definition sd_get_by_addr :: "'e addrspace \<Rightarrow> vaddr \<Rightarrow> segdef option option" where
  "sd_get_by_addr as va =
     (case as_segments as of
        None \<Rightarrow> Some None
      | Some segs \<Rightarrow> do {
          let narr = array_getnum segs;
          kassert (\<not> (narr < 0 \<or> narr > 5));
          r \<leftarrow> scan (array_getguy segs) narr (seg_covers va) 0;
          Some (map_option snd r) })"

subsection \<open>Kernel pages\<close>

definition alloc_kpages :: "int \<Rightarrow> 'f vm_state \<Rightarrow> (vaddr \<times> 'f vm_state) option" where
  "alloc_kpages npages s = do {
     let spl = spl_high s;
     (addr, s) \<leftarrow> pt_alloc_kpages 0 npages (s\<lparr>spl_high := True\<rparr>);
     Some (addr, s\<lparr>spl_high := spl\<rparr>) }"

definition free_kpages :: "vaddr \<Rightarrow> 'f vm_state \<Rightarrow> 'f vm_state option" where
  "free_kpages addr s = pt_free_kpage addr s"

subsection \<open>The fault handler\<close>

definition USERSTACK :: vaddr where
  "USERSTACK = MIPS_KSEG0"

definition VM_FAULT_READ :: int where "VM_FAULT_READ = 0"
definition VM_FAULT_WRITE :: int where "VM_FAULT_WRITE = 1"
definition VM_FAULT_READONLY :: int where "VM_FAULT_READONLY = 2"

text \<open>\<open>sys__exit\<close> does not return, so the handler has two ways to end.\<close>

datatype fault_outcome = Fault_Return errno | Fault_Exit errno

text \<open>The case \<open>VM_FAULT_READONLY\<close>; the boolean says whether the page may be written.\<close>

definition readonly_fault :: "int \<Rightarrow> vaddr \<Rightarrow> 'f vm_state \<Rightarrow> (bool \<times> 'f vm_state) option" where
  "readonly_fault t_pid faultaddress s = do {
     (writeable, s) \<leftarrow> pt_is_writeable t_pid faultaddress s;
     if writeable \<noteq> 0 then do {
       s \<leftarrow> pt_set_dirty t_pid faultaddress s;
       s \<leftarrow> tlb_update t_pid faultaddress TLBLO_DIRTY s;
       Some (True, s) }
     else Some (False, s) }"

text \<open>
  Storing into the page at \<open>va\<close> from kernel code.  \<open>False\<close> means that the read-only fault ended
  the process.  The page has a TLB entry wherever the handler does this.
\<close>

definition store_page :: "int \<Rightarrow> vaddr \<Rightarrow> (page \<Rightarrow> page) \<Rightarrow> 'f vm_state \<Rightarrow> (bool \<times> 'f vm_state) option" where
  "store_page t_pid va g s = do {
     (_, elo) \<leftarrow> tlb_lookup va s;
     (ok, s) \<leftarrow> (if elo AND TLBLO_DIRTY \<noteq> 0 then Some (True, s) else readonly_fault t_pid va s);
     if \<not> ok then Some (False, s)
     else do {
       (_, elo) \<leftarrow> tlb_lookup va s;
       let p = elo AND PAGE_FRAME;
       Some (True, s\<lparr>pmem := (pmem s)(p := g (pmem s p))\<rparr>) } }"

text \<open>
  \<open>load_segment\<close> with the memory size that the handler passes.  A read that comes up short is
  not an error; the zeros then follow the bytes that were read.
\<close>

definition load_segment :: "('e \<Rightarrow> int \<Rightarrow> nat \<Rightarrow> errno + u8 list) \<Rightarrow> int \<Rightarrow> 'e \<Rightarrow> int \<Rightarrow> vaddr \<Rightarrow> u32 \<Rightarrow> u32
    \<Rightarrow> 'f vm_state \<Rightarrow> (fault_outcome \<times> 'f vm_state) option" where
  "load_segment elf_read t_pid v offset va memsize filesize s = do {
     kassert (memsize = PAGE_SIZE);
     let filesize = (if filesize > memsize then memsize else filesize);
     case elf_read v offset (unat filesize) of
       Inl e \<Rightarrow> Some (Fault_Return e, s)
     | Inr bytes \<Rightarrow> do {
         let fillamt = unat (memsize - filesize);
         let new = bytes @ replicate fillamt 0;
         (ok, s) \<leftarrow> store_page t_pid va (\<lambda>old. new @ drop (length new) old) s;
         if \<not> ok then Some (Fault_Exit EFAULT, s)
         else do {
           s \<leftarrow> vmstats_inc 6 s;
           s \<leftarrow> vmstats_inc 7 s;
           Some (Fault_Return ESUCCESS, s) } } }"

text \<open>A fault on a page of a segment that is neither in memory nor in the swap file.\<close>

definition fault_segment :: "'f file_ops \<Rightarrow> ('e \<Rightarrow> int \<Rightarrow> nat \<Rightarrow> errno + u8 list) \<Rightarrow> int \<Rightarrow> 'e addrspace
    \<Rightarrow> segdef \<Rightarrow> vaddr \<Rightarrow> 'f vm_state \<Rightarrow> (fault_outcome \<times> 'f vm_state) option" where
  "fault_segment ops elf_read t_pid as sd va s = do {
     (paddr, s) \<leftarrow> pt_alloc_page ops t_pid va (uint (sd_flags sd AND TLBLO_DIRTY)) 0 s;
     if paddr = 0 then Some (Fault_Return ENOMEM, s)
     else do {
       let spl = spl_high s;
       (r, s) \<leftarrow> tlb_write True t_pid va TLBLO_DIRTY (s\<lparr>spl_high := True\<rparr>);
       case r of
         Inl e \<Rightarrow> Some (Fault_Return e, s\<lparr>spl_high := spl\<rparr>)
       | Inr storeloc \<Rightarrow> do {
           let segsize = sd_vbase sd + sd_segsz sd - va;
           let curpage = uint ((va - sd_vbase sd) div PAGE_SIZE);
           let offset = sd_offset sd + curpage * 4096;
           let segsize = (if segsize > PAGE_SIZE then PAGE_SIZE else segsize);
           v \<leftarrow> as_elfbin as;
           (result, s) \<leftarrow> load_segment elf_read t_pid v offset va PAGE_SIZE segsize s;
           if result \<noteq> Fault_Return ESUCCESS then Some (result, s\<lparr>spl_high := spl\<rparr>)
           else if sd_flags sd AND TLBLO_DIRTY = 0 then do {
             (e, s) \<leftarrow> tlb_set_read_only (sd_vbase sd) (sd_segsz sd) storeloc s;
             Some (Fault_Return e, s\<lparr>spl_high := spl\<rparr>) }
           else Some (Fault_Return ESUCCESS, s\<lparr>spl_high := spl\<rparr>) } } }"

text \<open>A fault on a page of the stack that is nowhere yet.\<close>

definition fault_stack :: "'f file_ops \<Rightarrow> int \<Rightarrow> 'e addrspace \<Rightarrow> vaddr \<Rightarrow> 'f vm_state
    \<Rightarrow> (fault_outcome \<times> 'f vm_state) option" where
  "fault_stack ops t_pid as va s =
     (if va < stackb as \<or> va > stackt as then Some (Fault_Return EFAULT, s)
      else do {
        (paddr, s) \<leftarrow> pt_alloc_page ops t_pid va 1 0 s;
        if paddr = 0 then Some (Fault_Return ENOMEM, s)
        else do {
          let spl = spl_high s;
          (r, s) \<leftarrow> tlb_write True t_pid va 0 (s\<lparr>spl_high := True\<rparr>);
          case r of
            Inl e \<Rightarrow> Some (Fault_Return e, s\<lparr>spl_high := spl\<rparr>)
          | Inr _ \<Rightarrow> do {
              (ok, s) \<leftarrow> store_page t_pid va (\<lambda>old. replicate 4096 0) s;
              if \<not> ok then Some (Fault_Exit EFAULT, s)
              else do {
                s \<leftarrow> vmstats_inc 5 (s\<lparr>spl_high := spl\<rparr>);
                Some (Fault_Return ESUCCESS, s) } } } })"

definition vm_fault :: "'f file_ops \<Rightarrow> ('e \<Rightarrow> int \<Rightarrow> nat \<Rightarrow> errno + u8 list) \<Rightarrow> int \<Rightarrow> 'e addrspace option
    \<Rightarrow> int \<Rightarrow> vaddr \<Rightarrow> 'f vm_state \<Rightarrow> (fault_outcome \<times> 'f vm_state) option" where
  "vm_fault ops elf_read t_pid t_vmspace faulttype addr s =
     (let va = addr AND PAGE_FRAME in
      if faulttype = VM_FAULT_READONLY then do {
        (ok, s) \<leftarrow> readonly_fault t_pid va s;
        Some (if ok then Fault_Return ESUCCESS else Fault_Exit EFAULT, s) }
      else if faulttype \<noteq> VM_FAULT_READ \<and> faulttype \<noteq> VM_FAULT_WRITE then Some (Fault_Return EINVAL, s)
      else (case t_vmspace of
        None \<Rightarrow> Some (Fault_Return EFAULT, s)
      | Some as \<Rightarrow> do {
          (paddr, s) \<leftarrow> pt_get_paddr t_pid va s;
          let reload = (paddr \<noteq> 0);
          (paddr, s) \<leftarrow> (if paddr = 0 then swap_in ops t_pid va s else Some (paddr, s));
          if paddr = 0 then do {
            kassert (\<not> va > USERSTACK);
            sd \<leftarrow> sd_get_by_addr as va;
            case sd of
              Some sd \<Rightarrow> fault_segment ops elf_read t_pid as sd va s
            | None \<Rightarrow> fault_stack ops t_pid as va s }
          else do {
            s \<leftarrow> (if reload then vmstats_inc 4 s else Some s);
            (r, s) \<leftarrow> tlb_write True t_pid va 0 s;
            Some (Fault_Return (case r of Inl e \<Rightarrow> e | Inr _ \<Rightarrow> ESUCCESS), s) } }))"

subsection \<open>Address spaces\<close>

text \<open>\<open>None\<close> is the null pointer.\<close>

definition as_create :: "bool \<Rightarrow> 'e addrspace option" where
  "as_create ok = (if ok then Some \<lparr>stackt = 0, stackb = 0, as_segments = None, as_elfbin = None\<rparr> else None)"

text \<open>
  \<open>as_destroy\<close> frees the segments and closes the executable; the count of open references to
  each vnode is the argument \<open>refs\<close>.
\<close>

definition as_destroy :: "'e addrspace \<Rightarrow> ('e \<Rightarrow> int) \<Rightarrow> ('e \<Rightarrow> int)" where
  "as_destroy as refs = (case as_elfbin as of None \<Rightarrow> refs | Some v \<Rightarrow> refs(v := refs v - 1))"

text \<open>The loop of \<open>as_copy\<close>; \<open>ok_seg i\<close> and \<open>ok_add i\<close> are the allocations for segment \<open>i\<close>.\<close>

fun copy_segs :: "(nat \<Rightarrow> bool) \<Rightarrow> (nat \<Rightarrow> bool) \<Rightarrow> segdef karray \<Rightarrow> nat list \<Rightarrow> segdef karray
    \<Rightarrow> (errno \<times> segdef karray) option" where
  "copy_segs ok_seg ok_add old [] new = Some (ESUCCESS, new)"
| "copy_segs ok_seg ok_add old (i # is) new = do {
     oldseg \<leftarrow> array_getguy old (int i);
     newseg \<leftarrow> sd_copy (ok_seg i) oldseg;
     (result, new) \<leftarrow> array_add (ok_add i) new newseg;
     if result \<noteq> ESUCCESS then Some (result, new)
     else copy_segs ok_seg ok_add old is new }"

record as_allocs =
  ok_as :: bool
  ok_arr :: bool
  ok_seg :: "nat \<Rightarrow> bool"
  ok_add :: "nat \<Rightarrow> bool"

definition as_copy :: "'f file_ops \<Rightarrow> as_allocs \<Rightarrow> int \<Rightarrow> int \<Rightarrow> 'e addrspace \<Rightarrow> ('e \<Rightarrow> int) \<Rightarrow> 'f vm_state
    \<Rightarrow> ((errno + 'e addrspace) \<times> ('e \<Rightarrow> int) \<times> 'f vm_state) option" where
  "as_copy ops al curpid pid old refs s =
     (case as_create (ok_as al) of
        None \<Rightarrow> Some (Inl ENOMEM, refs, s)
      | Some new \<Rightarrow> (case array_create (ok_arr al) of
          None \<Rightarrow> Some (Inl ENOMEM, refs, s)
        | Some arr \<Rightarrow> do {
            segs \<leftarrow> as_segments old;
            (result, arr) \<leftarrow> copy_segs (ok_seg al) (ok_add al) segs [0..<nat (array_getnum segs)] arr;
            let new = new\<lparr>as_segments := Some arr\<rparr>;
            if result \<noteq> ESUCCESS then Some (Inl result, as_destroy new refs, s)
            else do {
              (result, s) \<leftarrow> pt_copymem ops curpid pid s;
              if result \<noteq> ESUCCESS then Some (Inl result, as_destroy new refs, s)
              else do {
                v \<leftarrow> as_elfbin old;
                Some (Inr (new\<lparr>as_elfbin := Some v\<rparr>), refs(v := refs v + 1), s) } } }))"

text \<open>\<open>as_activate\<close> compares pointers; \<open>active_as\<close> is the one seen last.\<close>

definition as_activate :: "nat option \<Rightarrow> nat option \<Rightarrow> 'f vm_state \<Rightarrow> (nat option \<times> 'f vm_state) option" where
  "as_activate as active_as s =
     (if active_as = as then Some (active_as, s)
      else do { s \<leftarrow> tlb_invalidate s; Some (as, s) })"

text \<open>The pages of a region, as \<open>as_define_region\<close> computes them.\<close>

definition region_npages :: "vaddr \<Rightarrow> u32 \<Rightarrow> u32" where
  "region_npages vaddr sz = (let sz = sz + (vaddr AND NOT PAGE_FRAME) in
     ((sz + PAGE_SIZE - 1) AND PAGE_FRAME) div PAGE_SIZE)"

record region_allocs =
  ok_create :: bool
  ok_prealloc :: bool
  ok_segdef :: bool
  ok_append :: bool

definition as_define_region :: "region_allocs \<Rightarrow> 'e addrspace \<Rightarrow> vaddr \<Rightarrow> u32 \<Rightarrow> int \<Rightarrow> bool
    \<Rightarrow> (errno \<times> 'e addrspace) option" where
  "as_define_region al as vaddr sz offset writeable =
     (if vaddr > USERSTACK then Some (EINVAL, as)
      else do {
        (result, as) \<leftarrow> (case as_segments as of
            Some _ \<Rightarrow> Some (ESUCCESS, as)
          | None \<Rightarrow> (case array_create (ok_create al) of
              None \<Rightarrow> Some (ENOMEM, as)
            | Some arr \<Rightarrow> do {
                (r, arr) \<leftarrow> array_preallocate (ok_prealloc al) arr 2;
                Some (r, as\<lparr>as_segments := Some arr\<rparr>) }));
        if result \<noteq> ESUCCESS then Some (result, as)
        else do {
          sd \<leftarrow> sd_create (ok_segdef al);
          let sd = sd\<lparr>sd_vbase := vaddr AND PAGE_FRAME, sd_npage := uint (region_npages vaddr sz),
                      sd_segsz := sz, sd_flags := (if writeable then TLBLO_DIRTY else 0),
                      sd_offset := offset\<rparr>;
          arr \<leftarrow> as_segments as;
          (result, arr) \<leftarrow> array_add (ok_append al) arr sd;
          Some (result, as\<lparr>as_segments := Some arr\<rparr>) } })"

definition STACKPAGES :: u32 where
  "STACKPAGES = 12"

definition as_prepare_load :: "'e addrspace \<Rightarrow> errno \<times> 'e addrspace" where
  "as_prepare_load as = (ESUCCESS, as\<lparr>stackt := USERSTACK, stackb := USERSTACK - STACKPAGES * PAGE_SIZE\<rparr>)"

definition as_complete_load :: "'e addrspace \<Rightarrow> errno" where
  "as_complete_load as = ESUCCESS"

definition as_define_stack :: "'e addrspace \<Rightarrow> errno \<times> vaddr" where
  "as_define_stack as = (ESUCCESS, USERSTACK)"

section \<open>Correctness\<close>

text \<open>The state after the translation of page \<open>va\<close> has been installed.\<close>

definition translated :: "('f \<Rightarrow> bool) \<Rightarrow> ('f \<Rightarrow> nat \<Rightarrow> page) \<Rightarrow> int \<Rightarrow> vaddr \<Rightarrow> u32 \<Rightarrow> 'f vm_state \<Rightarrow> bool" where
  "translated fok slot pid va w s \<longleftrightarrow> vm_inv {} fok slot s \<and> tlb_inv pid s \<and> held s = {}
     \<and> (\<exists>i<length (page_table s). maps s i pid va
          \<and> tlb_lookup va s = Some (va, frame_addr s i OR w OR TLBLO_VALID))"

lemma tlb_write_translated:
  assumes inv: "vm_inv {} fok slot s" and ti: "tlb_inv pid s" and pid: "pid \<noteq> 0" and va: "page_va va"
    and m: "maps s i pid va" and held: "held s = {}" and none: "tlb_lookup va s = None"
    and w: "w = 0 \<or> w = TLBLO_DIRTY"
  obtains k s' where "tlb_write True pid va w s = Some (Inr k, s')" "translated fok slot pid va w s'"
    "same_memory s s'" "spl_high s' = spl_high s" "page_table s' = page_table s" "k < NUM_TLB"
    "tlb_entries s' ! k = (va, frame_addr s i OR w OR TLBLO_VALID)"
proof -
  obtain k n c where r: "k < NUM_TLB" "length c = 10"
    "tlb_write True pid va w s = Some (Inr k, s\<lparr>m_next_victim := n, stats_counts := c,
       tlb_entries := (tlb_entries s)[k := (va, frame_addr s i OR w OR TLBLO_VALID)]\<rparr>)"
    "tlb_inv pid (s\<lparr>m_next_victim := n, stats_counts := c,
       tlb_entries := (tlb_entries s)[k := (va, frame_addr s i OR w OR TLBLO_VALID)]\<rparr>)"
    using tlb_write_ok[OF assms] by blast
  let ?s = "s\<lparr>m_next_victim := n, stats_counts := c,
       tlb_entries := (tlb_entries s)[k := (va, frame_addr s i OR w OR TLBLO_VALID)]\<rparr>"
  have al: "frame_addr s i AND PAGE_FRAME = frame_addr s i"
    using vm_invD(1)[OF inv] m by (auto simp: frames_inv_def maps_def)
  have len: "k < length (tlb_entries s)" using ti r(1) by (simp add: tlb_inv_def)
  have sm: "same_memory s ?s" by (simp add: same_memory_def)
  have "vm_inv {} fok slot ?s" by (rule same_memory_inv[OF sm _ inv]) (use r(2) in simp)
  moreover have "tlb_lookup va ?s = Some (va, frame_addr s i OR w OR TLBLO_VALID)"
    by (rule tlb_lookup_store[OF len none _ elo_frame(2)[OF al w]]) simp
  ultimately have "translated fok slot pid va w ?s"
    using r(4) held m by (auto simp: translated_def same_memory_maps[OF sm] maps_def)
  then show thesis using that[OF r(3) _ sm _ _ r(1)] len by simp
qed

lemma pt_is_writeable_ok:
  assumes "frames_inv s" "table_inv s" "pid \<noteq> 0" "page_va va" "maps s i pid va" "held s = {}"
  shows "pt_is_writeable pid va s = Some (pe_writeable (page_table s ! i), s)"
proof -
  have "pt_find pid va (page_table s) = Some i" using pt_find_iff[OF assms(1-4)] assms(5) by blast
  moreover have "s\<lparr>held := {}\<rparr> = s" using assms(6) by (cases s) simp
  ultimately show ?thesis using assms(6) by (simp add: pt_is_writeable_def vm_simps)
qed

lemma pt_set_dirty_ok:
  assumes "frames_inv s" "table_inv s" "pid \<noteq> 0" "page_va va" "maps s i pid va" "held s = {}"
  shows "pt_set_dirty pid va s
    = Some (s\<lparr>page_table := (page_table s)[i := (page_table s ! i)\<lparr>pe_dirty := 1\<rparr>]\<rparr>)"
proof -
  have "pt_find pid va (page_table s) = Some i" using pt_find_iff[OF assms(1-4)] assms(5) by blast
  moreover have "s\<lparr>page_table := p, held := {}\<rparr> = s\<lparr>page_table := p\<rparr>" for p using assms(6) by (cases s) simp
  ultimately show ?thesis using assms(6) by (simp add: pt_set_dirty_def vm_simps)
qed

text \<open>A write to a page whose entry is clean is let through exactly when the page is writeable.\<close>

lemma readonly_fault_ok:
  assumes t: "translated fok slot pid va w s" and pid: "pid \<noteq> 0" and va: "page_va va" and m: "maps s i pid va"
  shows "pe_writeable (page_table s ! i) = 0 \<Longrightarrow> readonly_fault pid va s = Some (False, s)"
    and "pe_writeable (page_table s ! i) \<noteq> 0 \<Longrightarrow> \<exists>s'. readonly_fault pid va s = Some (True, s')
      \<and> translated fok slot pid va TLBLO_DIRTY s' \<and> same_memory s s' \<and> spl_high s' = spl_high s"
proof -
  have inv: "vm_inv {} fok slot s" and ti: "tlb_inv pid s" and held: "held s = {}"
    and hit: "tlb_lookup va s \<noteq> None"
    using t by (auto simp: translated_def)
  note d = vm_invD[OF inv]
  have w: "pt_is_writeable pid va s = Some (pe_writeable (page_table s ! i), s)"
    by (rule pt_is_writeable_ok[OF d(1,2) pid va m held])
  then show "pe_writeable (page_table s ! i) = 0 \<Longrightarrow> readonly_fault pid va s = Some (False, s)"
    by (simp add: readonly_fault_def)
  let ?s1 = "s\<lparr>page_table := (page_table s)[i := (page_table s ! i)\<lparr>pe_dirty := 1\<rparr>]\<rparr>"
  have sm: "same_memory s ?s1"
    using m by (auto simp: same_memory_def maps_def nth_list_update)
  have inv1: "vm_inv {} fok slot ?s1" by (rule same_memory_inv[OF sm _ inv]) (use d(6) in simp)
  have ti1: "tlb_inv pid ?s1" by (rule tlb_inv_same[OF ti sm]) simp_all
  have m1: "maps ?s1 i pid va" using m same_memory_maps[OF sm] by simp
  obtain u where u: "tlb_update pid va TLBLO_DIRTY ?s1 = Some (?s1\<lparr>tlb_entries := u\<rparr>)"
      "tlb_inv pid (?s1\<lparr>tlb_entries := u\<rparr>)"
      "tlb_lookup va (?s1\<lparr>tlb_entries := u\<rparr>) = Some (va, frame_addr ?s1 i OR TLBLO_DIRTY OR TLBLO_VALID)"
    using tlb_update_ok[OF inv1 ti1 pid va m1, of TLBLO_DIRTY] held hit
    by (auto simp: tlb_lookup_def)
  let ?s2 = "?s1\<lparr>tlb_entries := u\<rparr>"
  have sm2: "same_memory s ?s2" using sm by (simp add: same_memory_def)
  have "vm_inv {} fok slot ?s2" by (rule same_memory_inv[OF sm2 _ inv]) (use d(6) in simp)
  then have "translated fok slot pid va TLBLO_DIRTY ?s2"
    using u m held
    by (auto simp: translated_def same_memory_maps[OF sm2] same_memory_maps[OF sm] maps_def)
  then show "\<exists>s'. readonly_fault pid va s = Some (True, s') \<and> translated fok slot pid va TLBLO_DIRTY s'
      \<and> same_memory s s' \<and> spl_high s' = spl_high s" if "pe_writeable (page_table s ! i) \<noteq> 0"
    using that w pt_set_dirty_ok[OF d(1,2) pid va m held] u(1) sm2
    by (auto simp: readonly_fault_def)
qed

lemma translated_pmem:
  assumes t: "translated fok slot pid va w s" and m: "maps s i pid va" and pg: "length pg = 4096"
    and s': "s' = s\<lparr>pmem := (pmem s)(frame_addr s i := pg)\<rparr>"
  shows "translated fok slot pid va w s'"
proof -
  have inv: "vm_inv {} fok slot s" using t by (simp add: translated_def)
  have eq: "maps s' = maps s" "frame_addr s' = frame_addr s" "tlb_lookup va s' = tlb_lookup va s"
    by (intro ext, simp add: s' maps_def frame_addr_def)+ (simp add: s' tlb_lookup_def)
  have ti: "tlb_inv pid s'" using t unfolding translated_def tlb_inv_def tlb_entry_ok_def eq by (simp add: s')
  have "held s' = held s" "length (page_table s') = length (page_table s)" by (simp_all add: s')
  then show ?thesis
    using t ti store_frame(1)[OF inv m pg s'] unfolding translated_def eq by simp
qed

lemma store_page_ok:
  assumes t: "translated fok slot pid va w s" and pid: "pid \<noteq> 0" and va: "page_va va" and m: "maps s i pid va"
    and w: "w = TLBLO_DIRTY \<or> w = 0 \<and> pe_writeable (page_table s ! i) \<noteq> 0"
    and g: "\<And>old. length old = 4096 \<Longrightarrow> length (g old) = 4096"
  shows "\<exists>s'. store_page pid va g s = Some (True, s') \<and> translated fok slot pid va TLBLO_DIRTY s'
    \<and> view slot s' pid va = Some (g (pmem s (frame_addr s i))) \<and> spl_high s' = spl_high s
    \<and> (\<forall>p v. p \<noteq> 0 \<longrightarrow> page_va v \<longrightarrow> (p, v) \<noteq> (pid, va) \<longrightarrow> view slot s' p v = view slot s p v)
    \<and> (w = TLBLO_DIRTY \<longrightarrow> tlb_entries s' = tlb_entries s)
    \<and> maps s' = maps s \<and> frame_addr s' = frame_addr s"
proof -
  have "\<exists>s1. (if w = TLBLO_DIRTY then s1 = s else readonly_fault pid va s = Some (True, s1))
      \<and> translated fok slot pid va TLBLO_DIRTY s1 \<and> same_memory s s1 \<and> spl_high s1 = spl_high s"
    using w t readonly_fault_ok(2)[OF t pid va m]
    by (cases "w = TLBLO_DIRTY") (auto simp: same_memory_def)
  then obtain s1 where s1: "if w = TLBLO_DIRTY then s1 = s else readonly_fault pid va s = Some (True, s1)"
      "translated fok slot pid va TLBLO_DIRTY s1" "same_memory s s1" "spl_high s1 = spl_high s" by blast
  note sm = same_memory_maps[OF s1(3)]
  have inv1: "vm_inv {} fok slot s1" and inv: "vm_inv {} fok slot s"
    using s1(2) t by (auto simp: translated_def)
  have m1: "maps s1 i pid va" using m sm by simp
  obtain j where j: "maps s j pid va" "tlb_lookup va s = Some (va, frame_addr s j OR w OR TLBLO_VALID)"
    using t by (auto simp: translated_def)
  obtain j1 where j1: "maps s1 j1 pid va" "tlb_lookup va s1 = Some (va, frame_addr s1 j1 OR TLBLO_DIRTY OR TLBLO_VALID)"
    using s1(2) by (auto simp: translated_def)
  have ji: "j = i" "j1 = i" using m j(1) j1(1) vm_invD(2)[OF inv] sm by (auto simp: table_inv_def)
  have al: "frame_addr s i AND PAGE_FRAME = frame_addr s i" "length (pmem s (frame_addr s i)) = 4096"
    using vm_invD(1)[OF inv] m by (auto simp: frames_inv_def maps_def)
  have w2: "w = 0 \<or> w = TLBLO_DIRTY" using w by blast
  let ?pg = "g (pmem s (frame_addr s i))"
  define s2 where "s2 = s1\<lparr>pmem := (pmem s1)(frame_addr s1 i := ?pg)\<rparr>"
  have pm: "pmem s1 = pmem s" using s1(3) by (simp add: same_memory_def)
  have "(frame_addr s i OR TLBLO_DIRTY OR TLBLO_VALID) AND PAGE_FRAME = frame_addr s i"
    by (rule elo_frame(1)[OF al(1)]) simp
  then have run: "store_page pid va g s = Some (True, s2)"
    using j j1 ji s1(1) elo_frame(3)[OF al(1) w2]
    by (auto simp: store_page_def s2_def sm pm Let_def split: if_splits)
  have "translated fok slot pid va TLBLO_DIRTY s2"
    by (rule translated_pmem[OF s1(2) m1 g[OF al(2)] s2_def])
  moreover have "maps s2 = maps s" "frame_addr s2 = frame_addr s"
    unfolding sm[symmetric] by (intro ext, simp add: s2_def maps_def frame_addr_def)+
  ultimately show ?thesis
    using run store_frame(2,3)[OF inv1 m1 g[OF al(2)] s2_def] same_memory_view[OF s1(3)] s1(1,4)
    by (auto simp: s2_def split: if_splits)
qed

lemma pt_alloc_page_entry:
  assumes "pt_alloc_page ops pid va w d s = Some (pa, s')"
  shows "\<exists>j<length (page_table s'). frame_addr s' j = pa \<and> pe_writeable (page_table s' ! j) = w"
  using assms
  by (auto simp: pt_alloc_page_def alloc_page_def vunlock_iff frame_addr_def rd_Some_iff Let_def
      split: bind_splits prod.splits)

text \<open>A frame is found for a page that was nowhere, and its translation is installed.\<close>

lemma alloc_translate:
  assumes st: "page_store ops fok slot" and inv: "vm_inv {} fok slot s" and ti: "tlb_inv pid s"
    and pid: "pid \<noteq> 0" and va: "page_va va" and absent: "view slot s pid va = None"
    and room: "vm_room s" and held: "held s = {}" and none: "tlb_lookup va s = None"
    and w: "w = 0 \<or> w = TLBLO_DIRTY"
  obtains pa s1 k s2 i where "pt_alloc_page ops pid va x d s = Some (pa, s1)" "pa \<noteq> 0"
    "spl_high s1 = spl_high s"
    "tlb_write True pid va w (s1\<lparr>spl_high := True\<rparr>) = Some (Inr k, s2)" "translated fok slot pid va w s2"
    "spl_high s2" "maps s2 i pid va" "pe_writeable (page_table s2 ! i) = x" "k < NUM_TLB"
    "tlb_entries s2 ! k = (va, frame_addr s2 i OR w OR TLBLO_VALID)"
    "\<And>p v. p \<noteq> 0 \<Longrightarrow> page_va v \<Longrightarrow> (p, v) \<noteq> (pid, va) \<Longrightarrow> view slot s2 p v = view slot s p v"
proof -
  note d = vm_invD[OF inv]
  have ab: "\<And>j. \<not> maps s j pid va" "\<And>j. \<not> swapped s j pid va"
    using absent view_None_iff[OF d(1-3) pid va] by auto
  obtain pa s1 where al: "pt_alloc_page ops pid va x d s = Some (pa, s1)" "alloc_post fok slot pid va s pa s1"
    using pt_alloc_page_ok[OF st inv pid va ab(1) room held, of x d] by blast
  have hole: "hole s pid va = {}" using ab(2) by (auto simp: hole_iff)
  then have a: "vm_inv {} fok slot s1" "pa \<noteq> 0" "held s1 = {}" "spl_high s1 = spl_high s" "tlb_kept s s1"
      "\<And>p v. p \<noteq> 0 \<Longrightarrow> page_va v \<Longrightarrow> (p, v) \<noteq> (pid, va) \<Longrightarrow> view slot s1 p v = view slot s p v"
    using al(2) held by (auto simp: alloc_post_def)
  obtain i where i: "maps s1 i pid va" "frame_addr s1 i = pa" using al(2) by (auto simp: alloc_post_def)
  have wr: "pe_writeable (page_table s1 ! i) = x"
  proof -
    obtain j where j: "j < length (page_table s1)" "frame_addr s1 j = pa" "pe_writeable (page_table s1 ! j) = x"
      using pt_alloc_page_entry[OF al(1)] by blast
    then have "j = i" using vm_invD(1)[OF a(1)] i by (auto simp: frames_inv_def inj_on_def maps_def)
    then show ?thesis using j(3) by simp
  qed
  let ?s = "s1\<lparr>spl_high := True\<rparr>"
  have sm: "same_memory s1 ?s" by (simp add: same_memory_def)
  have inv': "vm_inv {} fok slot ?s" by (rule same_memory_inv[OF sm _ a(1)]) (use vm_invD(6)[OF a(1)] in simp)
  have ti': "tlb_inv pid ?s" by (rule tlb_inv_same[OF tlb_inv_kept(1)[OF ti a(5)] sm]) simp_all
  have n': "tlb_lookup va ?s = None" using tlb_inv_kept(2)[OF ti a(5) none] by (simp add: tlb_lookup_def)
  have m': "maps ?s i pid va" using i(1) same_memory_maps[OF sm] by simp
  have h': "held ?s = {}" using a(3) by simp
  obtain k s2 where r: "tlb_write True pid va w ?s = Some (Inr k, s2)" "translated fok slot pid va w s2"
      "same_memory ?s s2" "spl_high s2 = spl_high ?s" "page_table s2 = page_table ?s" "k < NUM_TLB"
      "tlb_entries s2 ! k = (va, frame_addr ?s i OR w OR TLBLO_VALID)"
    using tlb_write_translated[OF inv' ti' pid va m' h' n' w] by metis
  show thesis
    by (rule that[OF al(1) a(2,4) r(1,2)])
      (use r m' wr a(6) same_memory_maps[OF r(3)] same_memory_view[OF r(3)] same_memory_view[OF sm]
        in \<open>auto simp: same_memory_maps[OF sm]\<close>)
qed

lemma vmstats_inc_same:
  assumes "length (stats_counts s) = 10" and "held s = {}" and "n < 10"
  obtains c where "vmstats_inc n s = Some (s\<lparr>stats_counts := c\<rparr>)" "length c = 10"
  using vmstats_inc_ok[of s n] assms by auto

text \<open>Statistics and the interrupt level do not matter.\<close>

lemma translated_stats:
  assumes "translated fok slot pid va w s" and "same_memory s s'" and "length (stats_counts s') = 10"
    and "tlb_entries s' = tlb_entries s" and "m_next_victim s' = m_next_victim s" and "held s' = {}"
  shows "translated fok slot pid va w s'" "view slot s' = view slot s"
proof -
  have "tlb_inv pid s'" using tlb_inv_same assms by (auto simp: translated_def)
  moreover have "vm_inv {} fok slot s'" using same_memory_inv[OF assms(2,3)] assms(1) by (auto simp: translated_def)
  moreover have "tlb_lookup va s' = tlb_lookup va s" using assms(4) by (simp add: tlb_lookup_def)
  ultimately show "translated fok slot pid va w s'"
    using assms(1,2,6) same_memory_maps[OF assms(2)] by (auto simp: translated_def same_memory_def)
qed (rule same_memory_view[OF assms(2)])

lemma swap_in_absent:
  assumes "swap_inv X slot s" and "va \<noteq> 0" and "\<And>j. \<not> swapped s j pid va" and "held s = {}"
  shows "swap_in ops pid va s = Some (0, s)"
proof -
  have "swap_search pid va s = None"
    using swap_search_iff[OF assms(1,2), of pid] assms(3) by (metis not_Some_eq)
  then have "swap_search pid va (s\<lparr>held := {Swap_Mutex}\<rparr>) = None" by (simp add: swap_search_def)
  moreover have "s\<lparr>held := {}\<rparr> = s" using assms(4) by (cases s) simp
  ultimately show ?thesis using assms(4) by (simp add: swap_in_def vm_simps)
qed

lemma elo_clean:
  assumes "paddr AND PAGE_FRAME = paddr"
  shows "(paddr OR TLBLO_DIRTY OR TLBLO_VALID) AND NOT TLBLO_DIRTY = paddr OR 0 OR TLBLO_VALID"
proof -
  have d: "(a OR b) AND c = (a AND c) OR (b AND c)" for a b c :: u32
    by (simp add: bit_eq_iff bit_simps) blast
  have f: "PAGE_FRAME AND NOT TLBLO_DIRTY = PAGE_FRAME" "TLBLO_DIRTY AND NOT TLBLO_DIRTY = 0"
      "TLBLO_VALID AND NOT TLBLO_DIRTY = TLBLO_VALID"
    by (simp_all add: TLBLO_VALID_def TLBLO_DIRTY_def PAGE_FRAME_def)
  have "paddr AND NOT TLBLO_DIRTY = paddr" using assms f(1) by (metis and.assoc)
  then show ?thesis by (simp only: d f or.left_neutral)
qed

lemma tlb_set_read_only_ok:
  assumes t: "translated fok slot pid va TLBLO_DIRTY s" and m: "maps s i pid va" and k: "k < NUM_TLB"
    and e: "tlb_entries s ! k = (va, frame_addr s i OR TLBLO_DIRTY OR TLBLO_VALID)"
    and r: "base \<le> va" "va < base + sz"
  obtains s' where "tlb_set_read_only base sz k s = Some (ESUCCESS, s')" "translated fok slot pid va 0 s'"
    "same_memory s s'" "spl_high s' = spl_high s" "stats_counts s' = stats_counts s" "held s' = held s"
proof -
  have inv: "vm_inv {} fok slot s" and ti: "tlb_inv pid s" and held: "held s = {}"
    using t by (auto simp: translated_def)
  note d = vm_invD[OF inv]
  have al: "frame_addr s i AND PAGE_FRAME = frame_addr s i" using d(1) m by (auto simp: frames_inv_def maps_def)
  have len: "k < length (tlb_entries s)" using ti k by (simp add: tlb_inv_def)
  have v: "tlb_valid (tlb_entries s ! k)" using elo_frame(2)[OF al, of TLBLO_DIRTY] e by (simp add: tlb_valid_def)
  let ?e = "(va, frame_addr s i OR 0 OR TLBLO_VALID)"
  define s' where "s' = s\<lparr>tlb_entries := (tlb_entries s)[k := ?e]\<rparr>"
  have run: "tlb_set_read_only base sz k s = Some (ESUCCESS, s')"
    using len e v r elo_clean[OF al] by (simp add: tlb_set_read_only_def TLB_Read_def TLB_Write_def tlb_valid_def s'_def)
  have sm: "same_memory s s'" by (simp add: same_memory_def s'_def)
  have only: "a = k" if "a < NUM_TLB" "tlb_valid (tlb_entries s ! a)" "fst (tlb_entries s ! a) = va" for a
    using ti that k v e by (auto simp: tlb_inv_def)
  define s0 where "s0 = s\<lparr>tlb_entries := (tlb_entries s)[k := (va, 0)]\<rparr>"
  have sm0: "same_memory s s0" by (simp add: same_memory_def s0_def)
  have none: "tlb_lookup va s0 = None"
    unfolding tlb_lookup_None_iff
  proof (intro ballI impI)
    fix x assume x: "x \<in> set (tlb_entries s0)" "tlb_valid x"
    then obtain a where a: "a < length (tlb_entries s)" "x = tlb_entries s0 ! a"
      by (auto simp: s0_def in_set_conv_nth)
    have "a \<noteq> k" using x(2) a len by (auto simp: s0_def tlb_valid_def)
    then show "fst x \<noteq> va" using only[of a] a x(2) ti by (auto simp: s0_def tlb_inv_def)
  qed
  have ti0: "tlb_inv pid s0"
  proof -
    have "tlb_entry_ok s0 pid x" if "x \<in> set (tlb_entries s0)" "tlb_valid x" for x
    proof -
      have "x \<noteq> (va, 0)" using that(2) by (auto simp: tlb_valid_def)
      then have "x \<in> set (tlb_entries s)" using that(1) set_update_subset_insert by (fastforce simp: s0_def)
      then show ?thesis using ti that(2)
        by (auto simp: tlb_inv_def tlb_entry_ok_def same_memory_maps[OF sm0]) (simp add: s0_def)
    qed
    moreover have "tlb_entries s0 ! a = tlb_entries s ! a" if "tlb_valid (tlb_entries s0 ! a)" for a
      using that len by (cases "a = k") (auto simp: s0_def tlb_valid_def)
    ultimately show ?thesis using ti by (auto simp: tlb_inv_def) (simp_all add: s0_def)
  qed
  have m0: "maps s0 i pid va" and lo0: "(frame_addr s i OR 0 OR TLBLO_VALID) AND PAGE_FRAME = frame_addr s0 i"
    using m elo_frame(1)[OF al, of 0] by (simp_all add: same_memory_maps[OF sm0])
  have "tlb_inv pid s'"
    by (rule tlb_inv_store[OF ti0 k none m0 lo0]) (use ti in \<open>simp_all add: s'_def s0_def tlb_inv_def\<close>)
  moreover have "tlb_lookup va s' = Some ?e"
    by (rule tlb_lookup_store[OF _ none]) (use len elo_frame(2)[OF al, of 0] in \<open>auto simp: s'_def s0_def\<close>)
  moreover have "vm_inv {} fok slot s'" by (rule same_memory_inv[OF sm _ inv]) (use d(6) in \<open>simp add: s'_def\<close>)
  moreover have "held s' = {}" "i < length (page_table s')" using held m by (simp_all add: s'_def maps_def)
  ultimately have "translated fok slot pid va 0 s'"
    unfolding translated_def same_memory_maps[OF sm] using m by blast
  then show thesis using that run sm by (simp add: s'_def)
qed

section \<open>The handler\<close>

lemma fault_known:
  assumes st: "page_store ops fok slot" and inv: "vm_inv {} fok slot s" and ti: "tlb_inv pid s"
    and pid: "pid \<noteq> 0" and va: "va = addr AND PAGE_FRAME" "page_va va"
    and ft: "faulttype = VM_FAULT_READ \<or> faulttype = VM_FAULT_WRITE"
    and known: "view slot s pid va \<noteq> None" and room: "vm_room s" and held: "held s = {}"
    and none: "tlb_lookup va s = None"
  shows "\<exists>s'. vm_fault ops elf_read pid (Some as) faulttype addr s = Some (Fault_Return ESUCCESS, s')
    \<and> translated fok slot pid va 0 s'
    \<and> (\<forall>p v. p \<noteq> 0 \<longrightarrow> page_va v \<longrightarrow> view slot s' p v = view slot s p v)"
proof -
  note d = vm_invD[OF inv]
  have fts: "faulttype \<noteq> VM_FAULT_READONLY" "faulttype = VM_FAULT_READ \<or> faulttype = VM_FAULT_WRITE"
    using ft by (auto simp: VM_FAULT_READ_def VM_FAULT_WRITE_def VM_FAULT_READONLY_def)
  show ?thesis
  proof (cases "\<exists>i. maps s i pid va")
    case True
    then obtain i where m: "maps s i pid va" by blast
    have fa: "frame_addr s i \<noteq> 0" using d(1) m by (auto simp: frames_inv_def maps_def)
    have gp: "pt_get_paddr pid va s = Some (frame_addr s i, s)"
      by (rule pt_get_paddr_mapped[OF d(1,2) pid va(2) m]) (use held in simp)
    obtain c where c: "vmstats_inc 4 s = Some (s\<lparr>stats_counts := c\<rparr>)" "length c = 10"
      using vmstats_inc_same[OF d(6) held, of 4] by auto
    let ?s = "s\<lparr>stats_counts := c\<rparr>"
    have sm: "same_memory s ?s" by (simp add: same_memory_def)
    have inv': "vm_inv {} fok slot ?s" by (rule same_memory_inv[OF sm _ inv]) (use c in simp)
    have ti': "tlb_inv pid ?s" by (rule tlb_inv_same[OF ti sm]) simp_all
    have m': "maps ?s i pid va" "held ?s = {}" "tlb_lookup va ?s = None"
      using m held none same_memory_maps[OF sm] by (auto simp: tlb_lookup_def)
    obtain k s2 where r: "tlb_write True pid va 0 ?s = Some (Inr k, s2)" "translated fok slot pid va 0 s2"
        "same_memory ?s s2"
      using tlb_write_translated[OF inv' ti' pid va(2) m', of 0] by blast
    have "vm_fault ops elf_read pid (Some as) faulttype addr s = Some (Fault_Return ESUCCESS, s2)"
      using fts gp fa c(1) r(1) by (auto simp: vm_fault_def va(1)[symmetric])
    then show ?thesis using r(2) same_memory_view[OF r(3)] same_memory_view[OF sm] by auto
  next
    case False
    then obtain j where w: "swapped s j pid va"
      using known view_None_iff[OF d(1-3) pid va(2)] by auto
    have gp: "pt_get_paddr pid va s = Some (0, s)"
      by (rule pt_get_paddr_unmapped[OF d(1,2) pid va(2)]) (use False held in auto)
    obtain pa s1 i where r: "swap_in ops pid va s = Some (pa, s1)" "pa \<noteq> 0" "vm_inv {} fok slot s1" "held s1 = {}"
        "tlb_kept s s1" "maps s1 i pid va"
        "\<And>p v. p \<noteq> 0 \<Longrightarrow> page_va v \<Longrightarrow> view slot s1 p v = view slot s p v"
      using swap_in_ok[OF st inv pid va(2) w room held] by metis
    obtain k s2 where t: "tlb_write True pid va 0 s1 = Some (Inr k, s2)" "translated fok slot pid va 0 s2"
        "same_memory s1 s2"
      using tlb_write_translated[OF r(3) tlb_inv_kept(1)[OF ti r(5)] pid va(2) r(6) r(4)
          tlb_inv_kept(2)[OF ti r(5) none], of 0] by blast
    have "vm_fault ops elf_read pid (Some as) faulttype addr s = Some (Fault_Return ESUCCESS, s2)"
      using fts gp r(1,2) t(1) by (auto simp: vm_fault_def va(1)[symmetric])
    then show ?thesis using t(2) same_memory_view[OF t(3)] r(7) by auto
  qed
qed

text \<open>A page that is nowhere is looked up in the segments.\<close>

lemma fault_absent:
  assumes inv: "vm_inv {} fok slot s" and pid: "pid \<noteq> 0" and va: "va = addr AND PAGE_FRAME" "page_va va"
    and ft: "faulttype = VM_FAULT_READ \<or> faulttype = VM_FAULT_WRITE"
    and absent: "view slot s pid va = None" and held: "held s = {}"
  shows "vm_fault ops elf_read pid (Some as) faulttype addr s =
    (sd_get_by_addr as va \<bind> (\<lambda>sd. case sd of
        Some sd \<Rightarrow> fault_segment ops elf_read pid as sd va s
      | None \<Rightarrow> fault_stack ops pid as va s))"
proof -
  note d = vm_invD[OF inv]
  have fts: "faulttype \<noteq> VM_FAULT_READONLY" "faulttype = VM_FAULT_READ \<or> faulttype = VM_FAULT_WRITE"
    using ft by (auto simp: VM_FAULT_READ_def VM_FAULT_WRITE_def VM_FAULT_READONLY_def)
  have ab: "\<And>j. \<not> maps s j pid va" "\<And>j. \<not> swapped s j pid va"
    using absent view_None_iff[OF d(1-3) pid va(2)] by auto
  have gp: "pt_get_paddr pid va s = Some (0, s)"
    by (rule pt_get_paddr_unmapped[OF d(1,2) pid va(2) ab(1)]) (use held in simp)
  have sw: "swap_in ops pid va s = Some (0, s)"
    using swap_in_absent[OF d(3) _ ab(2) held] va(2) by (simp add: page_va_def)
  have "\<not> va > USERSTACK" using va(2) by (auto simp: page_va_def USERSTACK_def)
  then show ?thesis using fts gp sw by (auto simp: vm_fault_def va(1)[symmetric])
qed

lemma fault_stack_ok:
  assumes st: "page_store ops fok slot" and inv: "vm_inv {} fok slot s" and ti: "tlb_inv pid s"
    and pid: "pid \<noteq> 0" and va: "page_va va" and absent: "view slot s pid va = None"
    and room: "vm_room s" and held: "held s = {}" and none: "tlb_lookup va s = None"
    and stk: "stackb as \<le> va" "va \<le> stackt as"
  shows "\<exists>s'. fault_stack ops pid as va s = Some (Fault_Return ESUCCESS, s')
    \<and> translated fok slot pid va TLBLO_DIRTY s' \<and> view slot s' pid va = Some (replicate 4096 0)
    \<and> (\<forall>p v. p \<noteq> 0 \<longrightarrow> page_va v \<longrightarrow> (p, v) \<noteq> (pid, va) \<longrightarrow> view slot s' p v = view slot s p v)"
proof -
  obtain pa s1 k s2 i where a: "pt_alloc_page ops pid va 1 0 s = Some (pa, s1)" "pa \<noteq> 0"
    "tlb_write True pid va 0 (s1\<lparr>spl_high := True\<rparr>) = Some (Inr k, s2)" "translated fok slot pid va 0 s2"
    "maps s2 i pid va" "pe_writeable (page_table s2 ! i) = 1"
    "\<And>p v. p \<noteq> 0 \<Longrightarrow> page_va v \<Longrightarrow> (p, v) \<noteq> (pid, va) \<Longrightarrow> view slot s2 p v = view slot s p v"
    using alloc_translate[OF st inv ti pid va absent room held none, of 0 1 0] by metis
  obtain s3 where b: "store_page pid va (\<lambda>old. replicate 4096 0) s2 = Some (True, s3)"
    "translated fok slot pid va TLBLO_DIRTY s3" "view slot s3 pid va = Some (replicate 4096 0)"
    "\<And>p v. p \<noteq> 0 \<Longrightarrow> page_va v \<Longrightarrow> (p, v) \<noteq> (pid, va) \<Longrightarrow> view slot s3 p v = view slot s2 p v"
    using store_page_ok[OF a(4) pid va a(5), of "\<lambda>old. replicate 4096 0"] a(6) by auto
  let ?s = "s3\<lparr>spl_high := spl_high s1\<rparr>"
  have l: "length (stats_counts ?s) = 10" "held ?s = {}" using b(2) by (auto simp: translated_def vm_inv_def)
  obtain c where c: "vmstats_inc 5 ?s = Some (?s\<lparr>stats_counts := c\<rparr>)" "length c = 10"
    using vmstats_inc_same[OF l, of 5] by auto
  have sm: "same_memory s3 (?s\<lparr>stats_counts := c\<rparr>)" by (simp add: same_memory_def)
  have run: "fault_stack ops pid as va s = Some (Fault_Return ESUCCESS, ?s\<lparr>stats_counts := c\<rparr>)"
    using stk a(1-3) b(1) c(1) by (auto simp: fault_stack_def not_less)
  have "translated fok slot pid va TLBLO_DIRTY (?s\<lparr>stats_counts := c\<rparr>)"
      "view slot (?s\<lparr>stats_counts := c\<rparr>) = view slot s3"
    using translated_stats[OF b(2) sm] c(2) l(2) by auto
  then show ?thesis using run b(3,4) a(7) by auto
qed

text \<open>What the page of a segment holds: bytes of the executable, then zeros.\<close>

definition seg_bytes :: "vaddr \<Rightarrow> segdef \<Rightarrow> nat" where
  "seg_bytes va sd = min 4096 (unat (sd_vbase sd + sd_segsz sd - va))"

definition seg_offset :: "vaddr \<Rightarrow> segdef \<Rightarrow> int" where
  "seg_offset va sd = sd_offset sd + uint ((va - sd_vbase sd) div PAGE_SIZE) * 4096"

lemma load_segment_ok:
  assumes t: "translated fok slot pid va TLBLO_DIRTY s" and pid: "pid \<noteq> 0" and va: "page_va va"
    and m: "maps s i pid va" and n: "unat n \<le> 4096"
    and rd: "elf_read v offset (unat n) = Inr bytes" "length bytes = unat n"
  obtains s' where "load_segment elf_read pid v offset va PAGE_SIZE n s = Some (Fault_Return ESUCCESS, s')"
    "translated fok slot pid va TLBLO_DIRTY s'" "tlb_entries s' = tlb_entries s" "maps s' = maps s"
    "frame_addr s' = frame_addr s" "spl_high s' = spl_high s"
    "view slot s' pid va = Some (bytes @ replicate (4096 - unat n) 0)"
    "\<And>p v. p \<noteq> 0 \<Longrightarrow> page_va v \<Longrightarrow> (p, v) \<noteq> (pid, va) \<Longrightarrow> view slot s' p v = view slot s p v"
proof -
  have ps: "unat PAGE_SIZE = 4096" by (simp add: PAGE_SIZE_def)
  have ns: "\<not> n > PAGE_SIZE" using n ps by (simp add: word_less_nat_alt)
  have fill: "unat (PAGE_SIZE - n) = 4096 - unat n"
    using n ps by (metis unat_sub word_le_nat_alt)
  let ?new = "bytes @ replicate (4096 - unat n) 0"
  have len: "length ?new = 4096" using rd(2) n by simp
  let ?g = "\<lambda>old. ?new @ drop (length ?new) old"
  have g: "length old = 4096 \<Longrightarrow> ?g old = ?new" for old using len by simp
  have al: "length (pmem s (frame_addr s i)) = 4096"
    using t m by (auto simp: translated_def vm_inv_def frames_inv_def maps_def)
  obtain s1 where b: "store_page pid va ?g s = Some (True, s1)" "translated fok slot pid va TLBLO_DIRTY s1"
    "view slot s1 pid va = Some (?g (pmem s (frame_addr s i)))" "tlb_entries s1 = tlb_entries s"
    "spl_high s1 = spl_high s" "maps s1 = maps s" "frame_addr s1 = frame_addr s"
    "\<And>p v. p \<noteq> 0 \<Longrightarrow> page_va v \<Longrightarrow> (p, v) \<noteq> (pid, va) \<Longrightarrow> view slot s1 p v = view slot s p v"
    using store_page_ok[OF t pid va m, of ?g] len by auto
  have l: "length (stats_counts s1) = 10" "held s1 = {}" using b(2) by (auto simp: translated_def vm_inv_def)
  obtain c where c: "vmstats_inc 6 s1 = Some (s1\<lparr>stats_counts := c\<rparr>)" "length c = 10"
    using vmstats_inc_same[OF l, of 6] by auto
  obtain c' where c': "vmstats_inc 7 (s1\<lparr>stats_counts := c\<rparr>) = Some (s1\<lparr>stats_counts := c'\<rparr>)" "length c' = 10"
    using vmstats_inc_same[of "s1\<lparr>stats_counts := c\<rparr>" 7] c(2) l(2) by auto
  define s2 where "s2 = s1\<lparr>stats_counts := c'\<rparr>"
  have sm: "same_memory s1 s2" by (simp add: same_memory_def s2_def)
  have "translated fok slot pid va TLBLO_DIRTY s2" "view slot s2 = view slot s1"
    using translated_stats[OF b(2) sm] c'(2) l(2) by (auto simp: s2_def)
  moreover have "load_segment elf_read pid v offset va PAGE_SIZE n s = Some (Fault_Return ESUCCESS, s2)"
    using ns fill rd(1) b(1) c(1) c'(1) by (simp add: load_segment_def s2_def Let_def)
  moreover have "tlb_entries s2 = tlb_entries s" "spl_high s2 = spl_high s" using b(4,5) by (simp_all add: s2_def)
  ultimately show thesis
    using that[of s2] b(3,6,7,8) g[OF al] same_memory_maps[OF sm] by auto
qed

lemma and_exp_cases: "x AND 2 ^ n = 0 \<or> x AND 2 ^ n = 2 ^ n" for x :: u32
proof (cases "bit x n")
  case True
  then have "x AND 2 ^ n = 2 ^ n" by (intro bit_word_eqI) (auto simp: bit_simps)
  then show ?thesis by simp
qed (simp add: and_exp_eq_0_iff_not_bit)

lemma and_dirty: "x AND TLBLO_DIRTY = 0 \<or> x AND TLBLO_DIRTY = TLBLO_DIRTY"
proof -
  have e: "TLBLO_DIRTY = 2 ^ 10" by (simp add: TLBLO_DIRTY_def)
  show ?thesis unfolding e by (rule and_exp_cases)
qed

lemma fault_segment_ok:
  assumes st: "page_store ops fok slot" and inv: "vm_inv {} fok slot s" and ti: "tlb_inv pid s"
    and pid: "pid \<noteq> 0" and va: "page_va va" and absent: "view slot s pid va = None"
    and room: "vm_room s" and held: "held s = {}" and none: "tlb_lookup va s = None"
    and seg: "sd_vbase sd \<le> va" "va < sd_vbase sd + sd_segsz sd" and elf: "as_elfbin as = Some v"
    and rd: "elf_read v (seg_offset va sd) (seg_bytes va sd) = Inr bytes" "length bytes = seg_bytes va sd"
  shows "\<exists>s'. fault_segment ops elf_read pid as sd va s = Some (Fault_Return ESUCCESS, s')
    \<and> translated fok slot pid va (sd_flags sd AND TLBLO_DIRTY) s'
    \<and> view slot s' pid va = Some (bytes @ replicate (4096 - seg_bytes va sd) 0)
    \<and> (\<forall>p v. p \<noteq> 0 \<longrightarrow> page_va v \<longrightarrow> (p, v) \<noteq> (pid, va) \<longrightarrow> view slot s' p v = view slot s p v)"
proof -
  let ?x = "uint (sd_flags sd AND TLBLO_DIRTY)"
  obtain pa s1 k s2 i where a: "pt_alloc_page ops pid va ?x 0 s = Some (pa, s1)" "pa \<noteq> 0"
    "tlb_write True pid va TLBLO_DIRTY (s1\<lparr>spl_high := True\<rparr>) = Some (Inr k, s2)"
    "translated fok slot pid va TLBLO_DIRTY s2" "maps s2 i pid va" "k < NUM_TLB"
    "tlb_entries s2 ! k = (va, frame_addr s2 i OR TLBLO_DIRTY OR TLBLO_VALID)"
    "\<And>p v. p \<noteq> 0 \<Longrightarrow> page_va v \<Longrightarrow> (p, v) \<noteq> (pid, va) \<Longrightarrow> view slot s2 p v = view slot s p v"
    using alloc_translate[OF st inv ti pid va absent room held none, of TLBLO_DIRTY ?x 0] by metis
  define n where "n = (let z = sd_vbase sd + sd_segsz sd - va in if z > PAGE_SIZE then PAGE_SIZE else z)"
  have un: "unat n = seg_bytes va sd"
    by (simp add: n_def seg_bytes_def PAGE_SIZE_def word_less_nat_alt Let_def min_def)
  have n4: "unat n \<le> 4096" by (simp add: un seg_bytes_def)
  obtain s3 where b: "load_segment elf_read pid v (seg_offset va sd) va PAGE_SIZE n s2 = Some (Fault_Return ESUCCESS, s3)"
    "translated fok slot pid va TLBLO_DIRTY s3" "tlb_entries s3 = tlb_entries s2" "maps s3 = maps s2"
    "frame_addr s3 = frame_addr s2" "view slot s3 pid va = Some (bytes @ replicate (4096 - unat n) 0)"
    "\<And>p v. p \<noteq> 0 \<Longrightarrow> page_va v \<Longrightarrow> (p, v) \<noteq> (pid, va) \<Longrightarrow> view slot s3 p v = view slot s2 p v"
    using load_segment_ok[OF a(4) pid va a(5) n4, of elf_read v "seg_offset va sd" bytes] rd un by metis
  have head: "fault_segment ops elf_read pid as sd va s =
      (if sd_flags sd AND TLBLO_DIRTY = 0 then do {
         (e, s) \<leftarrow> tlb_set_read_only (sd_vbase sd) (sd_segsz sd) k s3;
         Some (Fault_Return e, s\<lparr>spl_high := spl_high s1\<rparr>) }
       else Some (Fault_Return ESUCCESS, s3\<lparr>spl_high := spl_high s1\<rparr>))"
    using a(1-3) b(1) elf by (simp add: fault_segment_def Let_def n_def seg_offset_def)
  have spl: "translated fok slot pid va w (t\<lparr>spl_high := h\<rparr>) \<and> view slot (t\<lparr>spl_high := h\<rparr>) = view slot t"
    if "translated fok slot pid va w t" for w t h
    using translated_stats[OF that, of "t\<lparr>spl_high := h\<rparr>"] that
    by (auto simp: same_memory_def translated_def vm_inv_def)
  show ?thesis
  proof (cases "sd_flags sd AND TLBLO_DIRTY = 0")
    case True
    obtain s4 where c: "tlb_set_read_only (sd_vbase sd) (sd_segsz sd) k s3 = Some (ESUCCESS, s4)"
        "translated fok slot pid va 0 s4" "same_memory s3 s4"
      using tlb_set_read_only_ok[OF b(2), of i k "sd_vbase sd" "sd_segsz sd"] a(5-7) b(3-5) seg by metis
    have "fault_segment ops elf_read pid as sd va s = Some (Fault_Return ESUCCESS, s4\<lparr>spl_high := spl_high s1\<rparr>)"
      using head c(1) True by simp
    then show ?thesis using spl[OF c(2)] same_memory_view[OF c(3)] b(6,7) a(8) True un by auto
  next
    case False
    then have f: "sd_flags sd AND TLBLO_DIRTY = TLBLO_DIRTY" using and_dirty[of "sd_flags sd"] by blast
    have "fault_segment ops elf_read pid as sd va s = Some (Fault_Return ESUCCESS, s3\<lparr>spl_high := spl_high s1\<rparr>)"
      using head False by simp
    then show ?thesis using spl[OF b(2)] b(6,7) a(8) f un by auto
  qed
qed

section \<open>Copies and regions\<close>

lemma copy_segs_rep:
  assumes o: "array_rep old xs" and n: "array_rep new (take k xs)" and k: "k \<le> length xs"
    and len: "length xs < 2 ^ 29 - 1"
  shows "\<exists>new'. copy_segs (\<lambda>_. True) (\<lambda>_. True) old [k..<length xs] new = Some (ESUCCESS, new') \<and> array_rep new' xs"
  using n k
proof (induction "length xs - k" arbitrary: k new)
  case 0
  then show ?case by simp
next
  case (Suc m)
  then have kl: "k < length xs" by simp
  have len_k: "length (take k xs) < 2 ^ 29 - 1" using len by simp
  obtain r where r: "array_add True new (xs ! k) = Some r"
    using arr.add_returns[OF Suc.prems(1) len_k, of True "xs ! k"] by blast
  have r': "fst r = ESUCCESS" "array_rep (snd r) (take (Suc k) xs)"
    using arr.add_law[OF Suc.prems(1) len_k r] kl by (auto simp: take_Suc_conv_app_nth)
  have cp: "sd_copy True (xs ! k) = Some (xs ! k)" by (simp add: sd_copy_def sd_create_def)
  have "m = length xs - Suc k" using Suc.hyps(2) by simp
  from Suc.hyps(1)[OF this r'(2)] kl show ?case
    using arr.getguy_law[OF o kl] r r'(1) cp by (cases r) (auto simp: upt_conv_Cons)
qed

text \<open>The segment that contains an address, when no two segments touch.\<close>

lemma sd_get_by_addr_rep:
  assumes "as_segments as = Some segs" and "array_rep segs xs" and "length xs \<le> 5"
  shows "sd_get_by_addr as va = Some (map_option snd (find_elem (seg_covers va) xs))"
  using assms arr.getnum_law[OF assms(2)] arr.scan_all[OF assms(2), of "seg_covers va"]
  by (simp add: sd_get_by_addr_def)

end
