(* ===== verification/Vm_Props.thy ===== *)
theory Vm_Props
  imports Vm_Addrspace
begin

text \<open>
  The properties of the virtual memory system, with the small machine on which their
  hypotheses are checked: one or two frames, a swap table of two entries, a swap file that is a
  function from page numbers to pages, and a clock that ticks once a reading.
\<close>

section \<open>A small machine\<close>

definition ex_ops :: "(nat \<Rightarrow> page) file_ops" where
  "ex_ops = \<lparr>fop_read = \<lambda>f off n. (Inr (f (nat off div 4096)), f),
             fop_write = \<lambda>f off pg. (ESUCCESS, f(nat off div 4096 := pg))\<rparr>"

definition ex_entry :: "int \<Rightarrow> vaddr \<Rightarrow> paddr \<Rightarrow> int \<Rightarrow> page_table_entry" where
  "ex_entry pid va pa w = \<lparr>pe_vaddr = va, pe_paddr = pa, pe_pid = pid, pe_npages = 1, pe_writeable = w, pe_dirty = 0\<rparr>"

definition ex_vm :: "page_table_entry list \<Rightarrow> coremap_entry list \<Rightarrow> swap_entry list \<Rightarrow> (nat \<Rightarrow> page) vm_state" where
  "ex_vm pt cm sw = \<lparr>firstpaddr = 0, lastpaddr = 0, coremap = cm, coremap_init = True, page_table = pt,
     swap_array = sw, swap_file = (\<lambda>_. replicate 4096 9), k_in_data = replicate 4096 0,
     tlb_entries = blank_tlb, m_next_victim = 0, pmem = (\<lambda>_. replicate 4096 7),
     stats_counts = replicate 10 0, spl_high = False, held = {}, clock = (\<lambda>t. (int t, 0)), ticks = 1\<rparr>"

abbreviation ex_user :: coremap_entry where
  "ex_user \<equiv> \<lparr>ce_in_use = 1, ce_is_kernel = 0, ce_secs = 0, ce_nsecs = 0\<rparr>"

abbreviation no_swap :: swap_entry where
  "no_swap \<equiv> \<lparr>se_va = 0, se_pid = 0, se_offset = 0\<rparr>"

text \<open>Process 1 has its page \<open>0x1000\<close> in the only frame; its page \<open>0x2000\<close> is in swap slot 0.\<close>

definition ex_resident :: "int \<Rightarrow> (nat \<Rightarrow> page) vm_state" where
  "ex_resident w = ex_vm [ex_entry 1 0x1000 0x5000 w] [ex_user]
     [\<lparr>se_va = 0x2000, se_pid = 1, se_offset = 0\<rparr>, no_swap]"

lemma ex_store: "page_store ex_ops (\<lambda>_. True) (\<lambda>f. f)"
  by (auto simp: page_store_def ex_ops_def nat_mult_distrib)

lemma ex_page_va: "page_va 0x1000" "page_va 0x2000" "page_va 0x3000"
  by (simp_all add: page_va_def PAGE_FRAME_def MIPS_KSEG0_def)

lemma ex_maps: "maps (ex_resident w) i p v \<longleftrightarrow> i = 0 \<and> p = 1 \<and> v = 0x1000"
  by (auto simp: maps_def ex_resident_def ex_vm_def ex_entry_def ce_user_def)

lemma ex_swapped: "v \<noteq> 0 \<Longrightarrow> swapped (ex_resident w) j p v \<longleftrightarrow> j = 0 \<and> p = 1 \<and> v = 0x2000"
  by (auto simp: swapped_def ex_resident_def ex_vm_def less_Suc_eq)

lemma ex_inv: "vm_inv {} (\<lambda>_. True) (\<lambda>f. f) (ex_resident w)"
proof -
  have "frames_inv (ex_resident w)"
    by (simp add: frames_inv_def frame_addr_def inj_on_def ex_resident_def ex_vm_def ex_entry_def PAGE_FRAME_def)
  moreover have "table_inv (ex_resident w)"
    unfolding table_inv_def ex_maps
    by (simp add: ex_resident_def ex_vm_def ex_entry_def ce_user_def ex_page_va)
  moreover have "swap_inv {} (\<lambda>f. f) (ex_resident w)"
  proof -
    have "se_offset (swap_array (ex_resident w) ! j) = int j * 4096"
      if "j < length (swap_array (ex_resident w))" "se_va (swap_array (ex_resident w) ! j) \<noteq> 0" for j
      using that by (auto simp: ex_resident_def ex_vm_def less_Suc_eq)
    moreover have "\<not> swapped (ex_resident w) j p v" if "maps (ex_resident w) i p v" for i j p v
      using that by (simp add: ex_maps ex_swapped)
    ultimately show ?thesis
      unfolding swap_inv_def by (auto simp: ex_swapped) (simp_all add: ex_resident_def ex_vm_def)
  qed
  moreover have "clock_inv (ex_resident w)"
    by (auto simp: clock_inv_def ex_resident_def ex_vm_def time_le_def ce_time_def)
  ultimately show ?thesis by (simp add: vm_inv_def) (simp add: ex_resident_def ex_vm_def)
qed

lemma ex_view_absent: "view (\<lambda>f. f) (ex_resident w) 1 0x3000 = None"
  using view_None_iff[OF vm_invD(1-3)[OF ex_inv], of 1 "0x3000"] ex_page_va
  by (simp add: ex_maps ex_swapped)

lemma ex_room: "vm_room (ex_resident w)" and ex_held: "held (ex_resident w) = {}"
  by (auto simp: vm_room_def ex_resident_def ex_vm_def ce_user_def intro!: exI[of _ 1])

lemma ex_tlb: "tlb_inv 1 (ex_resident w)" "tlb_lookup va (ex_resident w) = None"
proof -
  have "tlb_entries (ex_resident w) = blank_tlb" "m_next_victim (ex_resident w) = 0"
    by (simp_all add: ex_resident_def ex_vm_def)
  then show "tlb_inv 1 (ex_resident w)" "tlb_lookup va (ex_resident w) = None"
    using blank_tlb_facts nth_mem by (auto simp: tlb_inv_def tlb_lookup_None_iff NUM_TLB_def)
qed

section \<open>Properties\<close>










definition ex_seg :: segdef where
  "ex_seg = \<lparr>sd_vbase = 0x3000, sd_segsz = 0x10, sd_npage = 1, sd_flags = 0, sd_offset = 64\<rparr>"

definition ex_as :: "unit addrspace" where
  "ex_as = \<lparr>stackt = 0, stackb = 0, as_segments = Some \<lparr>a_num = 1, a_max = 1, a_v = Some [Some ex_seg]\<rparr>,
            as_elfbin = Some ()\<rparr>"

lemma ex_seg_found: "sd_get_by_addr ex_as 0x3000 = Some (Some ex_seg)"
proof -
  have "array_rep \<lparr>a_num = 1, a_max = 1, a_v = Some [Some ex_seg]\<rparr> [ex_seg]"
    by (simp add: array_rep_def array_inv_def array_cells_def cells_of_def)
  then have "sd_get_by_addr ex_as 0x3000 = Some (map_option snd (find_elem (seg_covers 0x3000) [ex_seg]))"
    by (intro sd_get_by_addr_rep) (auto simp: ex_as_def)
  then show ?thesis
    by (simp add: find_elem_def first_index_def seg_covers_def ex_seg_def)
qed




section \<open>Process exit\<close>

lemma clear_entry_ok:
  assumes "i < length (page_table s)" and "length (coremap s) = length (page_table s)"
  shows "clear_entry i s = Some (s\<lparr>
     page_table := (page_table s)[i := (page_table s ! i)\<lparr>pe_vaddr := 0, pe_pid := 0, pe_npages := 0\<rparr>],
     coremap := (coremap s)[i := (coremap s ! i)\<lparr>ce_in_use := 0, ce_is_kernel := 0\<rparr>]\<rparr>)"
  using assms by (simp add: clear_entry_def free_page_def set_coremap_flags_def)

text \<open>The entries and frames that the loop clears.\<close>

lemma free_pages_from_ok:
  assumes "distinct is" and "set is \<subseteq> {..<length (page_table s)}" and "length (coremap s) = length (page_table s)"
  shows "\<exists>pt cm. free_pages_from pid is s = Some (s\<lparr>page_table := pt, coremap := cm\<rparr>)
    \<and> length pt = length (page_table s) \<and> length cm = length (page_table s)
    \<and> (\<forall>j. if j \<in> set is \<and> pe_pid (page_table s ! j) = pid
         then pt ! j = (page_table s ! j)\<lparr>pe_vaddr := 0, pe_pid := 0, pe_npages := 0\<rparr>
            \<and> cm ! j = (coremap s ! j)\<lparr>ce_in_use := 0, ce_is_kernel := 0\<rparr>
         else pt ! j = page_table s ! j \<and> cm ! j = coremap s ! j)"
  using assms
proof (induction "is" arbitrary: s)
  case Nil
  then show ?case by (intro exI[of _ "page_table s"] exI[of _ "coremap s"]) simp
next
  case (Cons i "is")
  show ?case
  proof (cases "pe_pid (page_table s ! i) = pid")
    case False
    from Cons.IH[of s] Cons.prems obtain pt cm where
      r: "free_pages_from pid is s = Some (s\<lparr>page_table := pt, coremap := cm\<rparr>)"
      "length pt = length (page_table s)" "length cm = length (page_table s)"
      "\<forall>j. if j \<in> set is \<and> pe_pid (page_table s ! j) = pid
         then pt ! j = (page_table s ! j)\<lparr>pe_vaddr := 0, pe_pid := 0, pe_npages := 0\<rparr>
            \<and> cm ! j = (coremap s ! j)\<lparr>ce_in_use := 0, ce_is_kernel := 0\<rparr>
         else pt ! j = page_table s ! j \<and> cm ! j = coremap s ! j" by auto
    then show ?thesis using False by (intro exI[of _ pt] exI[of _ cm]) auto
  next
    case True
    let ?s = "s\<lparr>page_table := (page_table s)[i := (page_table s ! i)\<lparr>pe_vaddr := 0, pe_pid := 0, pe_npages := 0\<rparr>],
       coremap := (coremap s)[i := (coremap s ! i)\<lparr>ce_in_use := 0, ce_is_kernel := 0\<rparr>]\<rparr>"
    have i: "i < length (page_table s)" "i \<notin> set is" using Cons.prems by auto
    from Cons.IH[of ?s] Cons.prems obtain pt cm where
      r: "free_pages_from pid is ?s = Some (s\<lparr>page_table := pt, coremap := cm\<rparr>)"
      "length pt = length (page_table s)" "length cm = length (page_table s)"
      "\<forall>j. if j \<in> set is \<and> pe_pid (page_table ?s ! j) = pid
         then pt ! j = (page_table ?s ! j)\<lparr>pe_vaddr := 0, pe_pid := 0, pe_npages := 0\<rparr>
            \<and> cm ! j = (coremap ?s ! j)\<lparr>ce_in_use := 0, ce_is_kernel := 0\<rparr>
         else pt ! j = page_table ?s ! j \<and> cm ! j = coremap ?s ! j" by auto
    have "pt ! j = (page_table s ! j)\<lparr>pe_vaddr := 0, pe_pid := 0, pe_npages := 0\<rparr>
            \<and> cm ! j = (coremap s ! j)\<lparr>ce_in_use := 0, ce_is_kernel := 0\<rparr>"
      if "j \<in> set (i # is)" "pe_pid (page_table s ! j) = pid" for j
      using r(4)[rule_format, of j] that i Cons.prems(3) by (cases "j = i") auto
    moreover have "pt ! j = page_table s ! j \<and> cm ! j = coremap s ! j"
      if "\<not> (j \<in> set (i # is) \<and> pe_pid (page_table s ! j) = pid)" for j
      using r(4)[rule_format, of j] that i True Cons.prems(3) by (cases "j = i") auto
    ultimately show ?thesis
      using r(1-3) True clear_entry_ok[OF i(1) Cons.prems(3)] by (intro exI[of _ pt] exI[of _ cm]) auto
  qed
qed

lemma pt_free_pages_ok:
  assumes inv: "vm_inv {} fok slot s" and pid: "pid \<noteq> 0"
  obtains s' where "pt_free_pages pid s = Some s'" "vm_inv {} fok slot s'" "swap_array s' = swap_array s"
    "swap_file s' = swap_file s" "pmem s' = pmem s" "frame_addr s' = frame_addr s"
    "\<And>i p v. maps s' i p v \<longleftrightarrow> maps s i p v \<and> p \<noteq> pid" "swapped s' = swapped s"
    "\<And>i. i < length (page_table s) \<Longrightarrow> pe_pid (page_table s ! i) = pid \<Longrightarrow> ce_in_use (coremap s' ! i) = 0"
proof -
  note d = vm_invD[OF inv]
  have len: "length (coremap s) = length (page_table s)" using d(1) by (simp add: frames_inv_def)
  have dst: "distinct [0..<length (page_table s)]" "set [0..<length (page_table s)] \<subseteq> {..<length (page_table s)}" by auto
  obtain pt cm where r: "pt_free_pages pid s = Some (s\<lparr>page_table := pt, coremap := cm\<rparr>)"
    "length pt = length (page_table s)" "length cm = length (page_table s)"
    and e: "\<forall>j. if j < length (page_table s) \<and> pe_pid (page_table s ! j) = pid
         then pt ! j = (page_table s ! j)\<lparr>pe_vaddr := 0, pe_pid := 0, pe_npages := 0\<rparr>
            \<and> cm ! j = (coremap s ! j)\<lparr>ce_in_use := 0, ce_is_kernel := 0\<rparr>
         else pt ! j = page_table s ! j \<and> cm ! j = coremap s ! j"
    using free_pages_from_ok[OF dst len, of pid] by (auto simp: pt_free_pages_def)
  define s' where "s' = s\<lparr>page_table := pt, coremap := cm\<rparr>"
  have gone: "pe_pid (pt ! j) = 0 \<and> ce_in_use (cm ! j) = 0 \<and> pe_paddr (pt ! j) = pe_paddr (page_table s ! j)"
    if "j < length (page_table s)" "pe_pid (page_table s ! j) = pid" for j
    using e[rule_format, of j] that by simp
  have kept: "pt ! j = page_table s ! j \<and> cm ! j = coremap s ! j"
    if "j < length (page_table s)" "pe_pid (page_table s ! j) \<noteq> pid" for j
    using e[rule_format, of j] that by simp
  have fa: "frame_addr s' = frame_addr s"
  proof
    fix i
    show "frame_addr s' i = frame_addr s i"
      using e[rule_format, of i] by (auto simp: frame_addr_def s'_def split: if_splits)
  qed
  have mp: "maps s' i p v \<longleftrightarrow> maps s i p v \<and> p \<noteq> pid" for i p v
    using gone[of i] kept[of i] r(2)
    by (cases "pe_pid (page_table s ! i) = pid") (auto simp: maps_def s'_def ce_user_def)
  have sw: "swapped s' = swapped s" by (intro ext) (simp add: swapped_def s'_def)
  have f': "frames_inv s'"
  proof -
    have "ce_in_use (cm ! i) = 0 \<or> ce_in_use (cm ! i) = 1" if "i < length (page_table s)" for i
      using gone[of i] kept[of i] that d(1) by (cases "pe_pid (page_table s ! i) = pid") (auto simp: frames_inv_def)
    then show ?thesis
      using d(1) r(2,3) unfolding frames_inv_def fa by (simp add: s'_def)
  qed
  have t': "table_inv s'"
  proof -
    have "if ce_user (coremap s' ! i) then pe_pid (page_table s' ! i) \<noteq> 0 \<and> page_va (pe_vaddr (page_table s' ! i))
        else pe_pid (page_table s' ! i) = 0" if "i < length (page_table s)" for i
      using gone[of i] kept[of i] that d(2)
      by (cases "pe_pid (page_table s ! i) = pid") (simp_all add: s'_def table_inv_def ce_user_def)
    moreover have "length (page_table s') = length (page_table s)" using r(2) by (simp add: s'_def)
    moreover have "i = i'" if "maps s' i p v" "maps s' i' p v" for i i' p v
      using that d(2) by (auto simp: table_inv_def mp)
    ultimately show ?thesis unfolding table_inv_def by metis
  qed
  have w': "swap_inv {} slot s'" using d(3) unfolding swap_inv_def mp sw by (auto simp: s'_def)
  have c': "clock_inv s'"
  proof -
    have "e \<in> set (coremap s)" if "e \<in> set cm" "ce_user e" for e
      using that gone kept r(3) len by (metis ce_user_def in_set_conv_nth zero_neq_one)
    then show ?thesis using d(4) by (auto simp: clock_inv_def s'_def)
  qed
  have "vm_inv {} fok slot s'" using f' t' w' c' d(5-7) by (simp add: vm_inv_def) (simp add: s'_def)
  then show thesis
    using that[of s'] r(1) fa mp sw gone by (simp add: s'_def)
qed

text \<open>C34. When a process ends, every frame that belonged to it is free, the invariant holds, and the
  memory of the other processes is untouched.\<close>

theorem pt_free_pages_frees:
  assumes "vm_inv {} fok slot s" and "pid \<noteq> 0"
  shows "\<exists>s'. pt_free_pages pid s = Some s' \<and> vm_inv {} fok slot s'
    \<and> (\<forall>i<length (page_table s). pe_pid (page_table s ! i) = pid \<longrightarrow> ce_in_use (coremap s' ! i) = 0)
    \<and> (\<forall>p v. p \<noteq> 0 \<longrightarrow> p \<noteq> pid \<longrightarrow> page_va v \<longrightarrow> view slot s' p v = view slot s p v)"
proof -
  obtain s' where r: "pt_free_pages pid s = Some s'" "vm_inv {} fok slot s'" "swap_file s' = swap_file s"
    "pmem s' = pmem s" "frame_addr s' = frame_addr s" "\<And>i p v. maps s' i p v \<longleftrightarrow> maps s i p v \<and> p \<noteq> pid"
    "swapped s' = swapped s"
    "\<And>i. i < length (page_table s) \<Longrightarrow> pe_pid (page_table s ! i) = pid \<Longrightarrow> ce_in_use (coremap s' ! i) = 0"
    using pt_free_pages_ok[OF assms] by metis
  note d = vm_invD[OF assms(1)] and d' = vm_invD[OF r(2)]
  have "view slot s' p v = view slot s p v" if p: "p \<noteq> 0" "p \<noteq> pid" "page_va v" for p v
  proof -
    have "view slot s' p v = Some q \<longleftrightarrow> view slot s p v = Some q" for q
      using view_iff[OF d(1-3) p(1,3), of q] view_iff[OF d'(1-3) p(1,3), of q] p(2) r(3-7) by simp
    then show ?thesis by (metis not_Some_eq)
  qed
  then show ?thesis using r(1,2,8) by blast
qed

theorem pt_free_pages_frees_witness:
  "\<exists>s'. pt_free_pages 1 (ex_resident 1) = Some s' \<and> ce_in_use (coremap s' ! 0) = 0"
proof -
  have p: "(1 :: int) \<noteq> 0" by simp
  have "0 < length (page_table (ex_resident 1))" "pe_pid (page_table (ex_resident 1) ! 0) = 1"
    by (simp_all add: ex_resident_def ex_vm_def ex_entry_def)
  then show ?thesis using pt_free_pages_frees[OF ex_inv p] by blast
qed

text \<open>C40. The swap entries of a process are not released when it ends: a page of it that was in the
  swap file is still there afterwards, under the same process number and address, for whatever
  process gets that number next.\<close>

theorem exit_leaves_swap:
  assumes "vm_inv {} fok slot s" and "pid \<noteq> 0" and "page_va va" and "swapped s j pid va"
  shows "\<exists>s'. pt_free_pages pid s = Some s' \<and> view slot s' pid va = Some (slot (swap_file s) j)"
proof -
  obtain s' where r: "pt_free_pages pid s = Some s'" "vm_inv {} fok slot s'" "swap_file s' = swap_file s"
    "swapped s' = swapped s"
    using pt_free_pages_ok[OF assms(1,2)] by metis
  then show ?thesis
    using view_iff[OF vm_invD(1-3)[OF r(2)] assms(2,3), of "slot (swap_file s) j"] assms(4) by auto
qed

theorem exit_leaves_swap_witness:
  "\<exists>s'. pt_free_pages 1 (ex_resident 1) = Some s' \<and> view (\<lambda>f. f) s' 1 0x2000 = Some (replicate 4096 9)"
proof -
  have p: "(1 :: int) \<noteq> 0" and w: "swapped (ex_resident 1) 0 1 0x2000" by (simp_all add: ex_swapped)
  have "swap_file (ex_resident 1) 0 = replicate 4096 9" by (simp add: ex_resident_def ex_vm_def)
  then show ?thesis using exit_leaves_swap[OF ex_inv p ex_page_va(2) w] by simp
qed

end
