(* ===== verification/Sfs_Disk.thy ===== *)
theory Sfs_Disk
  imports Kernel_Uio
begin

text \<open>
  The disk driver \<open>src/kern/dev/lamebus/lhd.c\<close> and the block I/O of the file system,
  \<open>src/kern/fs/sfs/sfs_io.c\<close>.

  The device is the contents of its sectors, its one-sector buffer and the sequence of status
  codes with which its operations end: \<open>lh_status k\<close> is the code of the \<open>k\<close>th operation.  An
  operation that ends with \<open>LHD_OK\<close> has moved the sector, any other has moved nothing.  The
  wait for the interrupt is the interrupt handler running; semaphores are their counts, and
  waiting for a count that never comes is \<open>None\<close>.
\<close>

unbundle bit_operations_syntax

section \<open>Model\<close>

subsection \<open>The disk driver\<close>

definition LHD_WORKING :: u32 where "LHD_WORKING = 1"
definition LHD_OK :: u32 where "LHD_OK = 4"
definition LHD_INVSECT :: u32 where "LHD_INVSECT = 12"
definition LHD_MEDIA :: u32 where "LHD_MEDIA = 20"
definition LHD_STATEMASK :: u32 where "LHD_STATEMASK = 0x1d"
definition LHD_SECTSIZE :: nat where "LHD_SECTSIZE = 512"

record lhd_softc =
  d_blocks :: u32
  lh_clear :: nat
  lh_done :: nat
  lh_result :: errno
  lh_buf :: "u8 list"
  lh_sectors :: "u32 \<Rightarrow> u8 list"
  lh_status :: "nat \<Rightarrow> u32"
  lh_ops :: nat

definition lhd_code_to_errno :: "u32 \<Rightarrow> errno" where
  "lhd_code_to_errno code =
     (let st = code AND LHD_STATEMASK in
      if st = LHD_OK then ESUCCESS
      else if st = LHD_INVSECT then EINVAL
      else if st = LHD_MEDIA then EIO
      else EAGAIN)"

definition lhd_iodone :: "errno \<Rightarrow> lhd_softc \<Rightarrow> lhd_softc" where
  "lhd_iodone err lh = lh\<lparr>lh_result := err, lh_done := lh_done lh + 1\<rparr>"

text \<open>The handler; \<open>val\<close> is the status register as it reads it.\<close>

definition lhd_irq :: "u32 \<Rightarrow> lhd_softc \<Rightarrow> lhd_softc" where
  "lhd_irq val lh =
     (let st = val AND LHD_STATEMASK in
      if st = LHD_OK \<or> st = LHD_INVSECT \<or> st = LHD_MEDIA
      then lhd_iodone (lhd_code_to_errno val) lh
      else lh)"

text \<open>The operation that writing the status register starts, up to its interrupt.\<close>

definition lhd_start :: "uio_rw \<Rightarrow> u32 \<Rightarrow> lhd_softc \<Rightarrow> lhd_softc" where
  "lhd_start rw sector lh =
     (let st = lh_status lh (lh_ops lh); lh = lh\<lparr>lh_ops := lh_ops lh + 1\<rparr> in
      lhd_irq st
        (if st AND LHD_STATEMASK \<noteq> LHD_OK then lh
         else case rw of
           UIO_READ \<Rightarrow> lh\<lparr>lh_buf := lh_sectors lh sector\<rparr>
         | UIO_WRITE \<Rightarrow> lh\<lparr>lh_sectors := (lh_sectors lh)(sector := lh_buf lh)\<rparr>))"

definition sem_P :: "nat \<Rightarrow> nat option" where
  "sem_P n = (case n of 0 \<Rightarrow> None | Suc m \<Rightarrow> Some m)"

text \<open>One turn of the loop of \<open>lhd_io\<close>.\<close>

definition lhd_sector :: "u32 \<Rightarrow> lhd_softc \<Rightarrow> uio \<Rightarrow> (errno \<times> lhd_softc \<times> uio) option" where
  "lhd_sector sector lh uio = do {
     c \<leftarrow> sem_P (lh_clear lh);
     let lh = lh\<lparr>lh_clear := c\<rparr>;
     (result, lh, uio) \<leftarrow>
       (if uio_rw uio = UIO_WRITE then do {
          (r, buf, uio) \<leftarrow> uiomove (lh_buf lh) uio;
          Some (r, lh\<lparr>lh_buf := buf\<rparr>, uio) }
        else Some (ESUCCESS, lh, uio));
     if result \<noteq> ESUCCESS then Some (result, lh\<lparr>lh_clear := lh_clear lh + 1\<rparr>, uio)
     else do {
       let lh = lhd_start (uio_rw uio) sector lh;
       d \<leftarrow> sem_P (lh_done lh);
       let lh = lh\<lparr>lh_done := d\<rparr>;
       let result = lh_result lh;
       (result, uio) \<leftarrow>
         (if result = ESUCCESS \<and> uio_rw uio = UIO_READ then do {
            (r, buf, uio) \<leftarrow> uiomove (lh_buf lh) uio;
            Some (r, uio) }
          else Some (result, uio));
       Some (result, lh\<lparr>lh_clear := lh_clear lh + 1\<rparr>, uio) } }"

fun lhd_loop :: "u32 \<Rightarrow> nat list \<Rightarrow> lhd_softc \<Rightarrow> uio \<Rightarrow> (errno \<times> lhd_softc \<times> uio) option" where
  "lhd_loop sector [] lh uio = Some (ESUCCESS, lh, uio)"
| "lhd_loop sector (i # is) lh uio = do {
     (result, lh, uio) \<leftarrow> lhd_sector (sector + of_nat i) lh uio;
     if result \<noteq> ESUCCESS then Some (result, lh, uio)
     else lhd_loop sector is lh uio }"

definition lhd_io :: "lhd_softc \<Rightarrow> uio \<Rightarrow> (errno \<times> lhd_softc \<times> uio) option" where
  "lhd_io lh uio =
     (let sector = word_of_int (sgn (uio_offset uio) * (\<bar>uio_offset uio\<bar> div 512));
          sectoff = c_rem (uio_offset uio) 512;
          len = uio_resid uio div 512;
          lenoff = uio_resid uio mod 512
      in if sectoff \<noteq> 0 \<or> lenoff \<noteq> 0 then Some (EINVAL, lh, uio)
         else if sector + len > d_blocks lh then Some (EINVAL, lh, uio)
         else lhd_loop sector [0..<unat len] lh uio)"

subsection \<open>Block I/O of the file system\<close>

definition SFS_BLOCKSIZE :: nat where
  "SFS_BLOCKSIZE = 512"

text \<open>The attempts that are left are \<open>10 - tries\<close>.\<close>

fun sfs_rw_tries :: "nat \<Rightarrow> lhd_softc \<Rightarrow> uio \<Rightarrow> (errno \<times> lhd_softc \<times> uio) option" where
  "sfs_rw_tries n lh uio = do {
     (result, lh, uio) \<leftarrow> lhd_io lh uio;
     kassert (result \<noteq> EINVAL);
     if result = EIO
     then (case n of 0 \<Rightarrow> Some (result, lh, uio) | Suc m \<Rightarrow> sfs_rw_tries m lh uio)
     else Some (result, lh, uio) }"

declare sfs_rw_tries.simps [simp del]

definition sfs_rwblock :: "lhd_softc \<Rightarrow> uio \<Rightarrow> (errno \<times> lhd_softc \<times> uio) option" where
  "sfs_rwblock lh uio = sfs_rw_tries 10 lh uio"

definition SFSUIO :: "u8 list \<Rightarrow> u32 \<Rightarrow> uio_rw \<Rightarrow> uio" where
  "SFSUIO ptr block rw = mk_kuio ptr 512 (c_int (c_int (uint block) * 512)) rw"

text \<open>The contents of the kernel object that a uio points into.\<close>

definition kobj :: "uio \<Rightarrow> u8 list" where
  "kobj uio = (case iov_un uio of Kbase obj pos \<Rightarrow> obj | Ubase m a \<Rightarrow> [])"

definition sfs_rblock :: "lhd_softc \<Rightarrow> u8 list \<Rightarrow> u32 \<Rightarrow> (errno \<times> u8 list \<times> lhd_softc) option" where
  "sfs_rblock lh data block = do {
     (result, lh, ku) \<leftarrow> sfs_rwblock lh (SFSUIO data block UIO_READ);
     Some (result, kobj ku, lh) }"

definition sfs_wblock :: "lhd_softc \<Rightarrow> u8 list \<Rightarrow> u32 \<Rightarrow> (errno \<times> lhd_softc) option" where
  "sfs_wblock lh data block = do {
     (result, lh, ku) \<leftarrow> sfs_rwblock lh (SFSUIO data block UIO_WRITE);
     Some (result, lh) }"

section \<open>One block\<close>

text \<open>The device between two operations, and its condition after \<open>k\<close> more of them.\<close>

definition lhd_ready :: "lhd_softc \<Rightarrow> bool" where
  "lhd_ready lh \<longleftrightarrow> lh_clear lh = 1 \<and> lh_done lh = 0 \<and> length (lh_buf lh) = 512
     \<and> (\<forall>b. b < d_blocks lh \<longrightarrow> length (lh_sectors lh b) = 512)"

definition lhd_after :: "nat \<Rightarrow> lhd_softc \<Rightarrow> lhd_softc \<Rightarrow> bool" where
  "lhd_after k lh lh' \<longleftrightarrow> lhd_ready lh' \<and> d_blocks lh' = d_blocks lh \<and> lh_status lh' = lh_status lh
     \<and> lh_ops lh' = lh_ops lh + k"

definition op_state :: "lhd_softc \<Rightarrow> nat \<Rightarrow> u32" where
  "op_state lh k = lh_status lh (lh_ops lh + k) AND LHD_STATEMASK"

text \<open>No operation from now on ends with an error.\<close>

definition lhd_good :: "lhd_softc \<Rightarrow> bool" where
  "lhd_good lh \<longleftrightarrow> (\<forall>k. op_state lh k = LHD_OK)"

text \<open>A description of the transfer of block \<open>b\<close>.\<close>

definition block_uio :: "lhd_softc \<Rightarrow> u32 \<Rightarrow> uio \<Rightarrow> bool" where
  "block_uio lh b u \<longleftrightarrow> uio_ok u \<and> uio_resid u = 512 \<and> uio_offset u = 512 * uint b \<and> b < d_blocks lh"

lemma lhd_good_after: "lhd_good lh \<Longrightarrow> lhd_after k lh lh' \<Longrightarrow> lhd_good lh'"
  by (auto simp: lhd_good_def lhd_after_def op_state_def add.assoc)

lemma lhd_after_trans: "lhd_after j lh lh' \<Longrightarrow> lhd_after k lh' lh'' \<Longrightarrow> lhd_after (j + k) lh lh''"
  by (simp add: lhd_after_def)

lemma lhd_after_0: "lhd_ready lh \<Longrightarrow> lhd_after 0 lh lh"
  by (simp add: lhd_after_def)

lemma c_rem_512: "c_rem (512 * uint b) 512 = 0"
  by (simp add: c_rem_def)

lemma block_quot: "0 \<le> x \<Longrightarrow> sgn (512 * x) * (\<bar>512 * x\<bar> div 512) = x" for x :: int
  by (cases "x = 0") (auto simp: sgn_if)

lemma lhd_io_block:
  assumes "block_uio lh b u"
  shows "lhd_io lh u = lhd_sector b lh u"
proof -
  have "sgn (512 * uint b) * (\<bar>512 * uint b\<bar> div 512) = uint b" by (rule block_quot) simp
  then have s: "word_of_int (sgn (512 * uint b) * (\<bar>512 * uint b\<bar> div 512)) = b"
    by (simp only: word_of_int_uint)
  have "\<not> d_blocks lh < b + 1" using assms inc_le[of b "d_blocks lh"] by (simp add: block_uio_def not_less)
  then show ?thesis
    using assms s unfolding lhd_io_def block_uio_def
    by (simp add: c_rem_512 Let_def) (simp split: bind_splits)
qed

lemma lhd_start_ok_read:
  "op_state lh 0 = LHD_OK \<Longrightarrow> lhd_start UIO_READ b lh
     = lh\<lparr>lh_ops := lh_ops lh + 1, lh_buf := lh_sectors lh b, lh_result := ESUCCESS, lh_done := lh_done lh + 1\<rparr>"
  by (simp add: lhd_start_def op_state_def Let_def lhd_irq_def lhd_iodone_def lhd_code_to_errno_def)

lemma lhd_start_ok_write:
  "op_state lh 0 = LHD_OK \<Longrightarrow> lhd_start UIO_WRITE b lh
     = lh\<lparr>lh_ops := lh_ops lh + 1, lh_sectors := (lh_sectors lh)(b := lh_buf lh),
          lh_result := ESUCCESS, lh_done := lh_done lh + 1\<rparr>"
  by (simp add: lhd_start_def op_state_def Let_def lhd_irq_def lhd_iodone_def lhd_code_to_errno_def)

lemma lhd_start_media:
  "op_state lh 0 = LHD_MEDIA \<Longrightarrow> lhd_start rw b lh
     = lh\<lparr>lh_ops := lh_ops lh + 1, lh_result := EIO, lh_done := lh_done lh + 1\<rparr>"
  by (simp add: lhd_start_def op_state_def Let_def lhd_irq_def lhd_iodone_def lhd_code_to_errno_def
      LHD_OK_def LHD_MEDIA_def LHD_INVSECT_def)

lemma sem_P_Suc [simp]: "sem_P (Suc n) = Some n"
  by (simp add: sem_P_def)

lemma op_state_upd [simp]:
  "op_state (lh\<lparr>lh_clear := c\<rparr>) k = op_state lh k" "op_state (lh\<lparr>lh_buf := b\<rparr>) k = op_state lh k"
  by (simp_all add: op_state_def)

lemma sector_read_ok:
  assumes "lhd_ready lh" and "block_uio lh b u" and "uio_rw u = UIO_READ" and "op_state lh 0 = LHD_OK"
  obtains (ok) lh' where "lhd_io lh u = Some (ESUCCESS, lh', uio_adv u (iov_store (iov_un u) (lh_sectors lh b)) 512)"
      "lhd_after 1 lh lh'" "lh_sectors lh' = lh_sectors lh"
  | (fault) lh' k where "lhd_io lh u = Some (EFAULT, lh', u\<lparr>iov_un := iov_spill (iov_un u) (take k (lh_sectors lh b))\<rparr>)"
      "lhd_after 1 lh lh'" "lh_sectors lh' = lh_sectors lh" "k < 512" "\<not> iov_room (iov_un u) 512"
proof -
  define sec where "sec = lh_sectors lh b"
  have sec: "length sec = 512" "sec \<noteq> []"
    using assms(1,2) by (auto simp: lhd_ready_def block_uio_def sec_def)
  define lh' where "lh' = lh\<lparr>lh_ops := lh_ops lh + 1, lh_buf := sec, lh_result := ESUCCESS,
      lh_done := 0, lh_clear := Suc 0\<rparr>"
  have lh': "lhd_after 1 lh lh'" "lh_sectors lh' = lh_sectors lh"
    using assms(1) sec by (auto simp: lhd_after_def lhd_ready_def lh'_def)
  have cl: "lh_clear lh = Suc 0" "lh_done lh = 0" using assms(1) by (auto simp: lhd_ready_def)
  have io: "lhd_io lh u = do { (r, buf, u) \<leftarrow> uiomove sec u; Some (r, lh', u) }"
    using assms cl lhd_start_ok_read[of "lh\<lparr>lh_clear := 0\<rparr>" b]
    by (simp add: lhd_io_block lhd_sector_def lh'_def sec_def split_def)
  have u: "uio_ok u" "length sec \<le> unat (uio_resid u)" using assms(2) sec by (auto simp: block_uio_def)
  show thesis
    using u(1) assms(3) sec(2) u(2)
  proof (cases rule: uiomove_read)
    case ok
    then show thesis using that(1)[of lh'] io lh' sec by (simp add: sec_def)
  next
    case (fault k)
    then show thesis using that(2)[of lh' k] io lh' sec by (simp add: sec_def)
  qed
qed

lemma sector_write_ok:
  assumes "lhd_ready lh" and "block_uio lh b u" and "uio_rw u = UIO_WRITE" and "op_state lh 0 = LHD_OK"
  obtains (ok) lh' where "lhd_io lh u = Some (ESUCCESS, lh', uio_adv u (iov_skip (iov_un u) 512) 512)"
      "lhd_after 1 lh lh'" "lh_sectors lh' = (lh_sectors lh)(b := iov_bytes (iov_un u) 512)"
      "length (iov_bytes (iov_un u) 512) = 512"
  | (fault) lh' where "lhd_io lh u = Some (EFAULT, lh', u)" "lhd_after 0 lh lh'"
      "lh_sectors lh' = lh_sectors lh" "\<not> iov_room (iov_un u) 512"
proof -
  have buf: "length (lh_buf lh) = 512" "lh_buf lh \<noteq> []" and cl: "lh_clear lh = Suc 0" "lh_done lh = 0"
    using assms(1) by (auto simp: lhd_ready_def)
  have u: "uio_ok u" "length (lh_buf lh) \<le> unat (uio_resid u)" using assms(2) buf by (auto simp: block_uio_def)
  show thesis
    using u(1) assms(3) buf(2) u(2)
  proof (cases rule: uiomove_write)
    case ok
    define d where "d = iov_bytes (iov_un u) 512"
    define lh' where "lh' = lh\<lparr>lh_ops := lh_ops lh + 1, lh_buf := d,
        lh_sectors := (lh_sectors lh)(b := d), lh_result := ESUCCESS, lh_done := 0, lh_clear := Suc 0\<rparr>"
    have d: "length d = 512" using ok buf by (simp add: d_def)
    have "lhd_after 1 lh lh'"
      using assms(1) d by (auto simp: lhd_after_def lhd_ready_def lh'_def)
    moreover have "lhd_io lh u = Some (ESUCCESS, lh', uio_adv u (iov_skip (iov_un u) 512) 512)"
      using ok buf assms cl lhd_start_ok_write[of "lh\<lparr>lh_clear := 0, lh_buf := d\<rparr>" b]
      by (simp add: lhd_io_block lhd_sector_def lh'_def d_def)
    ultimately show thesis using that(1)[of lh'] d by (simp add: lh'_def d_def)
  next
    case (fault buf')
    define lh' where "lh' = lh\<lparr>lh_buf := buf', lh_clear := Suc 0\<rparr>"
    have "lhd_io lh u = Some (EFAULT, lh', u)"
      using fault assms cl by (simp add: lhd_io_block lhd_sector_def lh'_def)
    then show thesis using that(2)[of lh'] fault assms(1) buf
      by (simp add: lh'_def lhd_after_def lhd_ready_def)
  qed
qed

text \<open>A failed operation consumes nothing of a read, but the buffer of a write is already empty.\<close>

lemma sector_read_media:
  assumes "lhd_ready lh" and "block_uio lh b u" and "uio_rw u = UIO_READ" and "op_state lh 0 = LHD_MEDIA"
  shows "\<exists>lh'. lhd_io lh u = Some (EIO, lh', u) \<and> lhd_after 1 lh lh' \<and> lh_sectors lh' = lh_sectors lh"
proof -
  have cl: "lh_clear lh = Suc 0" "lh_done lh = 0" using assms(1) by (auto simp: lhd_ready_def)
  define lh' where "lh' = lh\<lparr>lh_ops := lh_ops lh + 1, lh_result := EIO, lh_done := 0, lh_clear := Suc 0\<rparr>"
  have "lhd_io lh u = Some (EIO, lh', u)"
    using assms cl lhd_start_media[of "lh\<lparr>lh_clear := 0\<rparr>" UIO_READ b]
    by (simp add: lhd_io_block lhd_sector_def lh'_def)
  then show ?thesis using assms(1)
    by (intro exI[of _ lh']) (simp add: lh'_def lhd_after_def lhd_ready_def)
qed

lemma sector_write_media:
  assumes "lhd_ready lh" and "block_uio lh b u" and "uio_rw u = UIO_WRITE" and "op_state lh 0 = LHD_MEDIA"
    and "iov_room (iov_un u) 512"
  shows "\<exists>lh'. lhd_io lh u = Some (EIO, lh', uio_adv u (iov_skip (iov_un u) 512) 512)
    \<and> lhd_after 1 lh lh' \<and> lh_sectors lh' = lh_sectors lh"
proof -
  have buf: "length (lh_buf lh) = 512" "lh_buf lh \<noteq> []" and cl: "lh_clear lh = Suc 0" "lh_done lh = 0"
    using assms(1) by (auto simp: lhd_ready_def)
  have u: "uio_ok u" "length (lh_buf lh) \<le> unat (uio_resid u)" using assms(2) buf by (auto simp: block_uio_def)
  define d where "d = iov_bytes (iov_un u) 512"
  define lh' where "lh' = lh\<lparr>lh_ops := lh_ops lh + 1, lh_buf := d, lh_result := EIO, lh_done := 0,
      lh_clear := Suc 0\<rparr>"
  have mv: "uiomove (lh_buf lh) u = Some (ESUCCESS, d, uio_adv u (iov_skip (iov_un u) 512) 512)"
    "length d = 512"
    using uiomove_write[OF u(1) assms(3) buf(2) u(2)] buf assms(5) by (auto simp: d_def)
  have "lhd_io lh u = Some (EIO, lh', uio_adv u (iov_skip (iov_un u) 512) 512)"
    using assms cl mv lhd_start_media[of "lh\<lparr>lh_clear := 0, lh_buf := d\<rparr>" UIO_WRITE b]
    by (simp add: lhd_io_block lhd_sector_def lh'_def)
  then show ?thesis using assms(1) mv
    by (intro exI[of _ lh']) (simp add: lh'_def lhd_after_def lhd_ready_def)
qed

section \<open>Blocks of the file system\<close>

lemma sfs_rwblock_ok: "lhd_io lh u = Some (r, lh', u') \<Longrightarrow> r \<noteq> EINVAL \<Longrightarrow> r \<noteq> EIO \<Longrightarrow>
    sfs_rwblock lh u = Some (r, lh', u')"
  unfolding sfs_rwblock_def by (subst sfs_rw_tries.simps) simp

text \<open>A block number whose byte offset is an \<open>off_t\<close>.\<close>

definition blk_ok :: "lhd_softc \<Rightarrow> u32 \<Rightarrow> bool" where
  "blk_ok lh b \<longleftrightarrow> b < d_blocks lh \<and> uint b * 512 < 2 ^ 31"

lemma SFSUIO_block:
  assumes "blk_ok lh b" and "length data = 512"
  shows "block_uio lh b (SFSUIO data b rw)" "uio_rw (SFSUIO data b rw) = rw"
    "iov_un (SFSUIO data b rw) = Kbase data 0"
proof -
  have "0 \<le> uint b" "uint b < 2 ^ 31" "uint b * 512 < 2 ^ 31" using assms(1) by (auto simp: blk_ok_def)
  then have "c_int (uint b) = uint b" "c_int (uint b * 512) = uint b * 512"
    by (intro c_int_id; linarith)+
  then have "c_int (c_int (uint b) * 512) = 512 * uint b" by simp
  then show "block_uio lh b (SFSUIO data b rw)" "uio_rw (SFSUIO data b rw) = rw"
    "iov_un (SFSUIO data b rw) = Kbase data 0"
    using assms by (simp_all add: SFSUIO_def block_uio_def blk_ok_def mk_kuio_ok) (simp_all add: mk_kuio_def)
qed

lemma sfs_rblock_ok:
  assumes "lhd_ready lh" "lhd_good lh" "blk_ok lh b" "length data = 512"
  obtains lh' where "sfs_rblock lh data b = Some (ESUCCESS, lh_sectors lh b, lh')"
    "lhd_after 1 lh lh'" "lh_sectors lh' = lh_sectors lh"
proof -
  note su = SFSUIO_block[OF assms(3,4), of UIO_READ]
  have st: "op_state lh 0 = LHD_OK" using assms(2) by (simp add: lhd_good_def)
  have len: "length (lh_sectors lh b) = 512" using assms(1,3) by (simp add: lhd_ready_def blk_ok_def)
  show thesis
    using assms(1) su(1,2) st
  proof (cases rule: sector_read_ok)
    case (ok lh')
    then show thesis using that[of lh'] su len assms(4)
      by (simp add: sfs_rblock_def sfs_rwblock_ok kobj_def iov_store_def)
  next
    case (fault lh' k)
    then show thesis using su assms(4) by (simp add: iov_room_def)
  qed
qed

lemma sfs_wblock_ok:
  assumes "lhd_ready lh" "lhd_good lh" "blk_ok lh b" "length data = 512"
  obtains lh' where "sfs_wblock lh data b = Some (ESUCCESS, lh')"
    "lhd_after 1 lh lh'" "lh_sectors lh' = (lh_sectors lh)(b := data)"
proof -
  note su = SFSUIO_block[OF assms(3,4), of UIO_WRITE]
  have st: "op_state lh 0 = LHD_OK" using assms(2) by (simp add: lhd_good_def)
  show thesis
    using assms(1) su(1,2) st
  proof (cases rule: sector_write_ok)
    case (ok lh')
    then show thesis using that[of lh'] su assms(4)
      by (simp add: sfs_wblock_def sfs_rwblock_ok iov_bytes_def)
  next
    case (fault lh')
    then show thesis using su assms(4) by (simp add: iov_room_def)
  qed
qed

text \<open>Reading retries: the result is the outcome of the first attempt that is not a media error.\<close>

lemma rw_tries_media:
  assumes "lhd_ready lh" and "block_uio lh b u" and "uio_rw u = UIO_READ" and "op_state lh 0 = LHD_MEDIA"
  obtains lh' where "lhd_after 1 lh lh'" "lh_sectors lh' = lh_sectors lh"
    "sfs_rw_tries 0 lh u = Some (EIO, lh', u)" "\<And>n. sfs_rw_tries (Suc n) lh u = sfs_rw_tries n lh' u"
proof -
  obtain lh' where lh': "lhd_io lh u = Some (EIO, lh', u)" "lhd_after 1 lh lh'" "lh_sectors lh' = lh_sectors lh"
    using sector_read_media[OF assms] by blast
  show thesis
    by (rule that[of lh'])
      (use lh' in \<open>simp_all add: sfs_rw_tries.simps[of _ lh u]\<close>)
qed

lemma read_retries:
  assumes "lhd_ready lh" and "block_uio lh b u" and "uio_rw u = UIO_READ"
    and "\<And>j. j < n \<Longrightarrow> op_state lh j = LHD_MEDIA" and "n \<le> t"
  obtains lh' where "lhd_after n lh lh'" "lh_sectors lh' = lh_sectors lh"
    "sfs_rw_tries t lh u = sfs_rw_tries (t - n) lh' u"
  using assms
proof (induction n arbitrary: lh t thesis)
  case 0
  then show ?case using lhd_after_0[of lh] by simp
next
  case (Suc n)
  obtain t' where t: "t = Suc t'" using Suc.prems(6) by (cases t) auto
  have "op_state lh 0 = LHD_MEDIA" using Suc.prems(5) by simp
  with Suc.prems(2-4) obtain lh1 where lh1: "lhd_after 1 lh lh1" "lh_sectors lh1 = lh_sectors lh"
    "\<And>n. sfs_rw_tries (Suc n) lh u = sfs_rw_tries n lh1 u"
    using rw_tries_media by blast
  have op: "op_state lh1 j = op_state lh (Suc j)" for j
    using lh1(1) by (simp add: lhd_after_def op_state_def)
  have "lhd_ready lh1" "block_uio lh1 b u"
    using lh1(1) Suc.prems(3) by (simp_all add: lhd_after_def block_uio_def)
  then obtain lh' where "lhd_after n lh1 lh'" "lh_sectors lh' = lh_sectors lh1"
    "sfs_rw_tries t' lh1 u = sfs_rw_tries (t' - n) lh' u"
    using Suc.IH[of lh1 t'] Suc.prems(4-6) t op by auto
  then show ?case
    using Suc.prems(1)[of lh'] lhd_after_trans[OF lh1(1), of n lh'] lh1 t by simp
qed

section \<open>Properties\<close>

text \<open>C23. Reading a block survives media errors.  When the first \<open>n\<close> operations end in a media
  error and the next one succeeds, \<open>sfs_rblock\<close> returns success with the contents of the block as
  long as \<open>n\<close> is at most 10; at 11 errors it gives up with \<open>EIO\<close> and leaves the caller's buffer
  as it was.  The disk and the driver are as before in both cases.\<close>

theorem sfs_rblock_retries:
  assumes "lhd_ready lh" "blk_ok lh b" "length data = 512" "n \<le> 11"
    and "\<forall>j<n. op_state lh j = LHD_MEDIA" and "n \<le> 10 \<longrightarrow> op_state lh n = LHD_OK"
  shows "\<exists>lh'. sfs_rblock lh data b
        = Some (if n \<le> 10 then (ESUCCESS, lh_sectors lh b, lh') else (EIO, data, lh'))
      \<and> lhd_ready lh' \<and> lh_sectors lh' = lh_sectors lh"
proof -
  note su = SFSUIO_block[OF assms(2,3), of UIO_READ]
  let ?u = "SFSUIO data b UIO_READ"
  have "min n 10 \<le> 10" "\<And>j. j < min n 10 \<Longrightarrow> op_state lh j = LHD_MEDIA" using assms(5) by auto
  then obtain lh1 where lh1: "lhd_after (min n 10) lh lh1" "lh_sectors lh1 = lh_sectors lh"
    "sfs_rwblock lh ?u = sfs_rw_tries (10 - min n 10) lh1 ?u"
    using read_retries[OF assms(1) su(1,2), of "min n 10" 10] unfolding sfs_rwblock_def by blast
  have op: "op_state lh1 0 = op_state lh (min n 10)" and b1: "lhd_ready lh1" "block_uio lh1 b ?u"
    using lh1(1) su(1) by (auto simp: lhd_after_def op_state_def block_uio_def)
  show ?thesis
  proof (cases "n \<le> 10")
    case True
    then have "op_state lh1 0 = LHD_OK" using assms(6) op by simp
    with b1 su(2) show ?thesis
    proof (cases rule: sector_read_ok)
      case (ok lh')
      then have "sfs_rwblock lh ?u = Some (ESUCCESS, lh', uio_adv ?u (iov_store (iov_un ?u) (lh_sectors lh b)) 512)"
        unfolding lh1(3) by (subst sfs_rw_tries.simps) (simp add: lh1(2))
      moreover have "length (lh_sectors lh b) = 512" using assms(1,2) by (simp add: lhd_ready_def blk_ok_def)
      ultimately show ?thesis using ok lh1 True su assms(3)
        by (simp add: sfs_rblock_def kobj_def iov_store_def lhd_after_def)
    next
      case (fault lh' k)
      then show ?thesis using su assms(3) by (simp add: iov_room_def)
    qed
  next
    case False
    then have n: "n = 11" using assms(4) by simp
    have "op_state lh1 0 = LHD_MEDIA" using assms(5) op n by simp
    then obtain lh' where lh': "lhd_after 1 lh1 lh'" "lh_sectors lh' = lh_sectors lh1"
      "sfs_rw_tries 0 lh1 ?u = Some (EIO, lh', ?u)"
      using rw_tries_media[OF b1 su(2)] by metis
    then show ?thesis using lh1 n su(3) by (simp add: sfs_rblock_def kobj_def lhd_after_def)
  qed
qed

definition ex_disk :: "(nat \<Rightarrow> u32) \<Rightarrow> lhd_softc" where
  "ex_disk st = \<lparr>d_blocks = 8, lh_clear = 1, lh_done = 0, lh_result = ESUCCESS, lh_buf = replicate 512 0,
     lh_sectors = (\<lambda>b. replicate 512 (ucast b)), lh_status = st, lh_ops = 0\<rparr>"

lemma ex_disk_ready: "lhd_ready (ex_disk st)"
  by (simp add: ex_disk_def lhd_ready_def)

theorem sfs_rblock_retries_witness:
  "\<exists>lh'. sfs_rblock (ex_disk (\<lambda>k. if k = 0 then LHD_MEDIA else LHD_OK)) (replicate 512 9) 3
     = Some (ESUCCESS, replicate 512 3, lh')"
proof -
  let ?lh = "ex_disk (\<lambda>k. if k = 0 then LHD_MEDIA else LHD_OK)"
  have "\<exists>lh'. sfs_rblock ?lh (replicate 512 9) 3
        = Some (if (1 :: nat) \<le> 10 then (ESUCCESS, lh_sectors ?lh 3, lh') else (EIO, replicate 512 9, lh'))
      \<and> lhd_ready lh' \<and> lh_sectors lh' = lh_sectors ?lh"
    by (rule sfs_rblock_retries)
      (auto simp: ex_disk_ready, auto simp: ex_disk_def blk_ok_def op_state_def LHD_MEDIA_def LHD_OK_def LHD_STATEMASK_def)
  then show ?thesis by (auto simp: ex_disk_def)
qed

text \<open>C24. Writing a block does not survive a media error, although the code retries: the first
  attempt has taken the data out of the uio before the operation fails, so the retry is an I/O of
  length 0, which succeeds.  \<open>sfs_wblock\<close> reports success and the disk is unchanged.\<close>

theorem sfs_wblock_media_lost:
  assumes "lhd_ready lh" "b < d_blocks lh" "uint b * 512 + 512 < 2 ^ 31" "length data = 512"
    and "op_state lh 0 = LHD_MEDIA"
  shows "\<exists>lh'. sfs_wblock lh data b = Some (ESUCCESS, lh') \<and> lh_sectors lh' = lh_sectors lh"
proof -
  let ?u = "SFSUIO data b UIO_WRITE"
  have blk: "blk_ok lh b" using assms(2,3) by (simp add: blk_ok_def)
  note su = SFSUIO_block[OF blk assms(4), of UIO_WRITE]
  have room: "iov_room (iov_un ?u) 512" using su(3) assms(4) by (simp add: iov_room_def)
  obtain lh1 where lh1: "lhd_io lh ?u = Some (EIO, lh1, uio_adv ?u (iov_skip (iov_un ?u) 512) 512)"
    "lhd_after 1 lh lh1" "lh_sectors lh1 = lh_sectors lh"
    using sector_write_media[OF assms(1) su(1,2) assms(5) room] by blast
  define u1 where "u1 = uio_adv ?u (iov_skip (iov_un ?u) 512) 512"
  have off: "uio_offset u1 = 512 * (uint b + 1)" "uio_resid u1 = 0"
    using su(1) assms(3) by (auto simp: u1_def block_uio_def c_int_id)
  have "sgn (512 * (uint b + 1)) * (\<bar>512 * (uint b + 1)\<bar> div 512) = uint b + 1"
    by (rule block_quot) simp
  then have sec: "word_of_int (sgn (512 * (uint b + 1)) * (\<bar>512 * (uint b + 1)\<bar> div 512)) = (b + 1 :: u32)"
    by (simp only:) simp
  have "\<not> d_blocks lh1 < b + 1"
    using lh1(2) assms(2) inc_le[of b "d_blocks lh"] by (simp add: lhd_after_def not_less)
  moreover have rem: "c_rem (512 * (uint b + 1)) 512 = 0" by (simp add: c_rem_def)
  ultimately have "lhd_io lh1 u1 = Some (ESUCCESS, lh1, u1)"
    unfolding lhd_io_def Let_def off sec rem by simp
  then have "sfs_rw_tries 9 lh1 u1 = Some (ESUCCESS, lh1, u1)" by (subst sfs_rw_tries.simps) simp
  then have "sfs_rwblock lh ?u = Some (ESUCCESS, lh1, u1)"
    unfolding sfs_rwblock_def by (subst sfs_rw_tries.simps) (simp add: lh1(1) u1_def[symmetric] split: nat.split)
  then show ?thesis using lh1(3) by (simp add: sfs_wblock_def)
qed

theorem sfs_wblock_media_lost_witness:
  "\<exists>lh'. sfs_wblock (ex_disk (\<lambda>k. if k = 0 then LHD_MEDIA else LHD_OK)) (replicate 512 9) 3 = Some (ESUCCESS, lh')
     \<and> lh_sectors lh' 3 = replicate 512 3"
proof -
  let ?lh = "ex_disk (\<lambda>k. if k = 0 then LHD_MEDIA else LHD_OK)"
  have "\<exists>lh'. sfs_wblock ?lh (replicate 512 9) 3 = Some (ESUCCESS, lh') \<and> lh_sectors lh' = lh_sectors ?lh"
    by (rule sfs_wblock_media_lost)
      (auto simp: ex_disk_ready, auto simp: ex_disk_def op_state_def LHD_MEDIA_def LHD_STATEMASK_def)
  then show ?thesis by (auto simp: ex_disk_def)
qed

end
