(* ===== verification/Sfs_File.thy ===== *)
theory Sfs_File
  imports Sfs_Disk Sfs_Format Kernel_Bitmap Kernel_Array
begin

text \<open>
  Files of the file system: block allocation, the block map of an inode and reading and writing
  a range of bytes, the first part of \<open>src/kern/fs/sfs/sfs_vnode.c\<close>.

  A vnode in memory is an object that the functions get a pointer to; here they get its value and
  return the new one.  The static I/O buffers of the C functions are always filled before they are
  used, so they are local here.
\<close>

section \<open>Model\<close>

record vnode =
  vn_refcount :: int
  vn_opencount :: int
  vn_isdir :: bool

record sfs_vnode = vnode +
  sv_i :: sfs_inode
  sv_ino :: u32
  sv_dirty :: bool

record sfs_fs =
  sfs_sb :: sfs_super
  sfs_superdirty :: bool
  sfs_device :: lhd_softc
  sfs_vnodes :: "nat karray"
  sfs_freemap :: kbitmap
  sfs_freemapdirty :: bool
  sv_heap :: "nat \<rightharpoonup> sfs_vnode"

subsection \<open>Blocks\<close>

definition sfs_clearblock :: "sfs_fs \<Rightarrow> u32 \<Rightarrow> (errno \<times> sfs_fs) option" where
  "sfs_clearblock sfs block = do {
     (result, dev) \<leftarrow> sfs_wblock (sfs_device sfs) (replicate 512 0) block;
     Some (result, sfs\<lparr>sfs_device := dev\<rparr>) }"

definition sfs_sync_inode :: "sfs_fs \<Rightarrow> sfs_vnode \<Rightarrow> (errno \<times> sfs_fs \<times> sfs_vnode) option" where
  "sfs_sync_inode sfs sv =
     (if sv_dirty sv then do {
        (result, dev) \<leftarrow> sfs_wblock (sfs_device sfs) (put_inode (sv_i sv)) (sv_ino sv);
        let sfs = sfs\<lparr>sfs_device := dev\<rparr>;
        if result \<noteq> ESUCCESS then Some (result, sfs, sv)
        else Some (ESUCCESS, sfs, sv\<lparr>sv_dirty := False\<rparr>) }
      else Some (ESUCCESS, sfs, sv))"

definition sfs_balloc :: "sfs_fs \<Rightarrow> ((errno + u32) \<times> sfs_fs) option" where
  "sfs_balloc sfs = do {
     (res, fm) \<leftarrow> bitmap_alloc (sfs_freemap sfs);
     case res of
       Inl e \<Rightarrow> Some (Inl e, sfs\<lparr>sfs_freemap := fm\<rparr>)
     | Inr diskblock \<Rightarrow> do {
         let sfs = sfs\<lparr>sfs_freemap := fm, sfs_freemapdirty := True\<rparr>;
         kassert (diskblock < sp_nblocks (sfs_sb sfs));
         (result, sfs) \<leftarrow> sfs_clearblock sfs diskblock;
         Some (if result = ESUCCESS then Inr diskblock else Inl result, sfs) } }"

definition sfs_bfree :: "sfs_fs \<Rightarrow> u32 \<Rightarrow> sfs_fs option" where
  "sfs_bfree sfs diskblock = do {
     fm \<leftarrow> bitmap_unmark (sfs_freemap sfs) diskblock;
     Some (sfs\<lparr>sfs_freemap := fm, sfs_freemapdirty := True\<rparr>) }"

definition sfs_bused :: "sfs_fs \<Rightarrow> u32 \<Rightarrow> bool option" where
  "sfs_bused sfs diskblock = do {
     kassert (diskblock < sp_nblocks (sfs_sb sfs));
     w \<leftarrow> bitmap_isset (sfs_freemap sfs) diskblock;
     Some (w \<noteq> 0) }"

subsection \<open>The block map of an inode\<close>

text \<open>The last check before a block is handed back.\<close>

definition sfs_hand_back :: "sfs_fs \<Rightarrow> sfs_vnode \<Rightarrow> u32 \<Rightarrow> ((errno + u32) \<times> sfs_fs \<times> sfs_vnode) option" where
  "sfs_hand_back sfs sv block = do {
     used \<leftarrow> (if block = 0 then Some True else sfs_bused sfs block);
     kassert used;
     Some (Inr block, sfs, sv) }"

definition sfs_bmap_direct :: "sfs_fs \<Rightarrow> sfs_vnode \<Rightarrow> u32 \<Rightarrow> bool
    \<Rightarrow> ((errno + u32) \<times> sfs_fs \<times> sfs_vnode) option" where
  "sfs_bmap_direct sfs sv fileblock doalloc = do {
     block \<leftarrow> rd (sfi_direct (sv_i sv)) (uint fileblock);
     if block = 0 \<and> doalloc then do {
       (res, sfs) \<leftarrow> sfs_balloc sfs;
       case res of
         Inl e \<Rightarrow> Some (Inl e, sfs, sv)
       | Inr block \<Rightarrow> do {
           direct \<leftarrow> wr (sfi_direct (sv_i sv)) (uint fileblock) block;
           sfs_hand_back sfs (sv\<lparr>sv_i := (sv_i sv)\<lparr>sfi_direct := direct\<rparr>, sv_dirty := True\<rparr>) block } }
     else sfs_hand_back sfs sv block }"

text \<open>The end of \<open>sfs_bmap\<close>, once the indirect block \<open>idblock\<close> is in \<open>idbuf\<close>.\<close>

definition sfs_bmap_entry :: "sfs_fs \<Rightarrow> sfs_vnode \<Rightarrow> u32 \<Rightarrow> u32 list \<Rightarrow> u32 \<Rightarrow> bool
    \<Rightarrow> ((errno + u32) \<times> sfs_fs \<times> sfs_vnode) option" where
  "sfs_bmap_entry sfs sv idblock idbuf idoff doalloc = do {
     block \<leftarrow> rd idbuf (uint idoff);
     if block = 0 \<and> doalloc then do {
       (res, sfs) \<leftarrow> sfs_balloc sfs;
       case res of
         Inl e \<Rightarrow> Some (Inl e, sfs, sv)
       | Inr block \<Rightarrow> do {
           idbuf \<leftarrow> wr idbuf (uint idoff) block;
           (result, dev) \<leftarrow> sfs_wblock (sfs_device sfs) (put_words idbuf) idblock;
           let sfs = sfs\<lparr>sfs_device := dev\<rparr>;
           if result \<noteq> ESUCCESS then Some (Inl result, sfs, sv)
           else sfs_hand_back sfs sv block } }
     else sfs_hand_back sfs sv block }"

definition sfs_bmap :: "sfs_fs \<Rightarrow> sfs_vnode \<Rightarrow> u32 \<Rightarrow> bool
    \<Rightarrow> ((errno + u32) \<times> sfs_fs \<times> sfs_vnode) option" where
  "sfs_bmap sfs sv fileblock doalloc =
     (if fileblock < 15 then sfs_bmap_direct sfs sv fileblock doalloc
      else
        let fileblock = fileblock - 15; idnum = fileblock div 128; idoff = fileblock mod 128;
            idblock = sfi_indirect (sv_i sv)
        in if idnum > 0 then Some (Inl EINVAL, sfs, sv)
           else if idblock = 0 \<and> \<not> doalloc then Some (Inr 0, sfs, sv)
           else if idblock = 0 then do {
             (res, sfs) \<leftarrow> sfs_balloc sfs;
             case res of
               Inl e \<Rightarrow> Some (Inl e, sfs, sv)
             | Inr idblock \<Rightarrow>
                 sfs_bmap_entry sfs (sv\<lparr>sv_i := (sv_i sv)\<lparr>sfi_indirect := idblock\<rparr>, sv_dirty := True\<rparr>)
                   idblock (replicate 128 0) idoff doalloc }
           else do {
             (result, buf, dev) \<leftarrow> sfs_rblock (sfs_device sfs) (replicate 512 0) idblock;
             let sfs = sfs\<lparr>sfs_device := dev\<rparr>;
             if result \<noteq> ESUCCESS then Some (Inl result, sfs, sv)
             else sfs_bmap_entry sfs sv idblock (get_words 128 buf) idoff doalloc })"

subsection \<open>Reading and writing\<close>

text \<open>C's quotient of an \<open>off_t\<close> by the block size.\<close>

definition file_block :: "int \<Rightarrow> u32" where
  "file_block off = word_of_int (sgn off * (\<bar>off\<bar> div 512))"

definition sfs_partialio :: "sfs_fs \<Rightarrow> sfs_vnode \<Rightarrow> uio \<Rightarrow> u32 \<Rightarrow> u32
    \<Rightarrow> (errno \<times> sfs_fs \<times> sfs_vnode \<times> uio) option" where
  "sfs_partialio sfs sv uio skipstart len = do {
     kassert (skipstart + len \<le> 512);
     (res, sfs, sv) \<leftarrow> sfs_bmap sfs sv (file_block (uio_offset uio)) (uio_rw uio = UIO_WRITE);
     case res of
       Inl e \<Rightarrow> Some (e, sfs, sv, uio)
     | Inr diskblock \<Rightarrow> do {
         (result, iobuf, sfs) \<leftarrow>
           (if diskblock = 0 then do {
              kassert (uio_rw uio = UIO_READ);
              Some (ESUCCESS, replicate 512 0, sfs) }
            else do {
              (result, buf, dev) \<leftarrow> sfs_rblock (sfs_device sfs) (replicate 512 0) diskblock;
              Some (result, buf, sfs\<lparr>sfs_device := dev\<rparr>) });
         if result \<noteq> ESUCCESS then Some (result, sfs, sv, uio)
         else do {
           (result, got, uio) \<leftarrow> uiomove (take (unat len) (drop (unat skipstart) iobuf)) uio;
           let iobuf = take (unat skipstart) iobuf @ got @ drop (unat skipstart + unat len) iobuf;
           if result \<noteq> ESUCCESS then Some (result, sfs, sv, uio)
           else if uio_rw uio = UIO_WRITE then do {
             (result, dev) \<leftarrow> sfs_wblock (sfs_device sfs) iobuf diskblock;
             Some (result, sfs\<lparr>sfs_device := dev\<rparr>, sv, uio) }
           else Some (ESUCCESS, sfs, sv, uio) } } }"

definition sfs_blockio :: "sfs_fs \<Rightarrow> sfs_vnode \<Rightarrow> uio \<Rightarrow> (errno \<times> sfs_fs \<times> sfs_vnode \<times> uio) option" where
  "sfs_blockio sfs sv uio = do {
     (res, sfs, sv) \<leftarrow> sfs_bmap sfs sv (file_block (uio_offset uio)) (uio_rw uio = UIO_WRITE);
     case res of
       Inl e \<Rightarrow> Some (e, sfs, sv, uio)
     | Inr diskblock \<Rightarrow>
         if diskblock = 0 then do {
           kassert (uio_rw uio = UIO_READ);
           (result, uio) \<leftarrow> uiomovezeros 512 uio;
           Some (result, sfs, sv, uio) }
         else do {
           let saveoff = uio_offset uio;
           let diskoff = c_int (uint (diskblock * 512));
           kassert (uio_resid uio \<ge> 512);
           let saveres = c_int (uint (uio_resid uio));
           (result, dev, uio) \<leftarrow> sfs_rwblock (sfs_device sfs) (uio\<lparr>uio_offset := diskoff, uio_resid := 512\<rparr>);
           Some (result, sfs\<lparr>sfs_device := dev\<rparr>, sv,
             uio\<lparr>uio_offset := c_int (c_int (uio_offset uio - diskoff) + saveoff),
                 uio_resid := uio_resid uio - 512 + word_of_int saveres\<rparr>) } }"

fun sfs_blocks :: "nat \<Rightarrow> sfs_fs \<Rightarrow> sfs_vnode \<Rightarrow> uio \<Rightarrow> (errno \<times> sfs_fs \<times> sfs_vnode \<times> uio) option" where
  "sfs_blocks 0 sfs sv uio = Some (ESUCCESS, sfs, sv, uio)"
| "sfs_blocks (Suc n) sfs sv uio = do {
     (result, sfs, sv, uio) \<leftarrow> sfs_blockio sfs sv uio;
     if result \<noteq> ESUCCESS then Some (result, sfs, sv, uio)
     else sfs_blocks n sfs sv uio }"

text \<open>The body of \<open>sfs_io\<close> from the leading partial block up to the label \<open>out\<close>.\<close>

definition sfs_io_body :: "sfs_fs \<Rightarrow> sfs_vnode \<Rightarrow> uio \<Rightarrow> (errno \<times> sfs_fs \<times> sfs_vnode \<times> uio) option" where
  "sfs_io_body sfs sv uio = do {
     let blkoff = (word_of_int (c_rem (uio_offset uio) 512) :: u32);
     (result, sfs, sv, uio) \<leftarrow>
       (if blkoff \<noteq> 0
        then sfs_partialio sfs sv uio blkoff (min (512 - blkoff) (uio_resid uio))
        else Some (ESUCCESS, sfs, sv, uio));
     if result \<noteq> ESUCCESS then Some (result, sfs, sv, uio)
     else if uio_resid uio = 0 then Some (ESUCCESS, sfs, sv, uio)
     else do {
       kassert (c_rem (uio_offset uio) 512 = 0);
       (result, sfs, sv, uio) \<leftarrow> sfs_blocks (unat (uio_resid uio div 512)) sfs sv uio;
       if result \<noteq> ESUCCESS then Some (result, sfs, sv, uio)
       else do {
         kassert (uio_resid uio < 512);
         if uio_resid uio > 0 then sfs_partialio sfs sv uio 0 (uio_resid uio)
         else Some (ESUCCESS, sfs, sv, uio) } } }"

definition sfs_io :: "sfs_fs \<Rightarrow> sfs_vnode \<Rightarrow> uio \<Rightarrow> (errno \<times> sfs_fs \<times> sfs_vnode \<times> uio) option" where
  "sfs_io sfs sv uio =
     (let sz = c_int (uint (sfi_size (sv_i sv)));
          endpos = c_int (uint (word_of_int (uio_offset uio) + uio_resid uio))
      in if uio_rw uio = UIO_READ \<and> uio_offset uio \<ge> sz then Some (ESUCCESS, sfs, sv, uio)
         else do {
           let extraresid = (if uio_rw uio = UIO_READ \<and> endpos > sz then word_of_int (endpos - sz) else 0);
           kassert (extraresid = 0 \<or> uio_resid uio > extraresid);
           (result, sfs, sv, uio) \<leftarrow> sfs_io_body sfs sv (uio\<lparr>uio_resid := uio_resid uio - extraresid\<rparr>);
           let sv = (if uio_rw uio = UIO_WRITE \<and> uio_offset uio > c_int (uint (sfi_size (sv_i sv)))
                     then sv\<lparr>sv_i := (sv_i sv)\<lparr>sfi_size := word_of_int (uio_offset uio)\<rparr>, sv_dirty := True\<rparr>
                     else sv);
           Some (result, sfs, sv, uio\<lparr>uio_resid := uio_resid uio + extraresid\<rparr>) })"

definition sfs_read :: "sfs_fs \<Rightarrow> sfs_vnode \<Rightarrow> uio \<Rightarrow> (errno \<times> sfs_fs \<times> sfs_vnode \<times> uio) option" where
  "sfs_read sfs sv uio = do { kassert (uio_rw uio = UIO_READ); sfs_io sfs sv uio }"

definition sfs_write :: "sfs_fs \<Rightarrow> sfs_vnode \<Rightarrow> uio \<Rightarrow> (errno \<times> sfs_fs \<times> sfs_vnode \<times> uio) option" where
  "sfs_write sfs sv uio = do { kassert (uio_rw uio = UIO_WRITE); sfs_io sfs sv uio }"

end
