(* ===== verification/Sfs_Content.thy ===== *)
theory Sfs_Content
  imports Sfs_File
begin

text \<open>
  What files hold.  The content of a file is the function \<open>fcontent\<close> from byte positions to
  bytes, read off the block map of its inode and the sectors of the disk; a hole is zeros.  The
  lemmas say what each step of \<open>sfs_io\<close> does to it, and that no step touches a block that
  belongs to something else.
\<close>

section \<open>Abstraction\<close>

abbreviation secs :: "sfs_fs \<Rightarrow> u32 \<Rightarrow> u8 list" where
  "secs sfs \<equiv> lh_sectors (sfs_device sfs)"

abbreviation used :: "sfs_fs \<Rightarrow> nat set" where
  "used sfs \<equiv> bm_used (sfs_freemap sfs)"

abbreviation nblocks :: "sfs_fs \<Rightarrow> u32" where
  "nblocks sfs \<equiv> sp_nblocks (sfs_sb sfs)"

definition blockmap :: "sfs_fs \<Rightarrow> sfs_vnode \<Rightarrow> nat \<Rightarrow> u32" where
  "blockmap sfs sv fb =
     (if fb < 15 then sfi_direct (sv_i sv) ! fb
      else if fb < 143 \<and> sfi_indirect (sv_i sv) \<noteq> 0
      then get_words 128 (secs sfs (sfi_indirect (sv_i sv))) ! (fb - 15)
      else 0)"

definition bdata :: "sfs_fs \<Rightarrow> u32 \<Rightarrow> u8 list" where
  "bdata sfs b = (if b = 0 then replicate 512 0 else secs sfs b)"

definition fcontent :: "sfs_fs \<Rightarrow> sfs_vnode \<Rightarrow> nat \<Rightarrow> u8" where
  "fcontent sfs sv n = bdata sfs (blockmap sfs sv (n div 512)) ! (n mod 512)"

text \<open>A block that something on the file system may own.\<close>

definition valid_block :: "sfs_fs \<Rightarrow> u32 \<Rightarrow> bool" where
  "valid_block sfs b \<longleftrightarrow> b \<noteq> 0 \<and> b < nblocks sfs \<and> unat b \<in> used sfs"

text \<open>
  The file system between operations: the driver is idle and the disk will not fail, the block map
  covers the volume, and what lies past the end of the volume is marked as used.
\<close>

definition fs_ok :: "sfs_fs \<Rightarrow> bool" where
  "fs_ok sfs \<longleftrightarrow> lhd_ready (sfs_device sfs) \<and> lhd_good (sfs_device sfs)
     \<and> bm_inv (sfs_freemap sfs) \<and> unat (nblocks sfs) \<le> bm_cap (sfs_freemap sfs)
     \<and> {unat (nblocks sfs)..<bm_cap (sfs_freemap sfs)} \<subseteq> used sfs \<and> 0 \<in> used sfs
     \<and> nblocks sfs \<le> d_blocks (sfs_device sfs) \<and> unat (nblocks sfs) * 512 \<le> 2 ^ 31"

definition vol_full :: "sfs_fs \<Rightarrow> bool" where
  "vol_full sfs \<longleftrightarrow> used sfs = {..<bm_cap (sfs_freemap sfs)}"

text \<open>An inode whose blocks are used, and used once.\<close>

definition file_inv :: "sfs_fs \<Rightarrow> sfs_vnode \<Rightarrow> bool" where
  "file_inv sfs sv \<longleftrightarrow> inode_ok (sv_i sv)
     \<and> (sfi_indirect (sv_i sv) \<noteq> 0 \<longrightarrow> valid_block sfs (sfi_indirect (sv_i sv)))
     \<and> (\<forall>fb. blockmap sfs sv fb \<noteq> 0 \<longrightarrow>
          valid_block sfs (blockmap sfs sv fb) \<and> blockmap sfs sv fb \<noteq> sfi_indirect (sv_i sv))
     \<and> (\<forall>fb fb'. blockmap sfs sv fb = blockmap sfs sv fb' \<and> blockmap sfs sv fb \<noteq> 0 \<longrightarrow> fb = fb')"

definition owned :: "sfs_fs \<Rightarrow> sfs_vnode \<Rightarrow> u32 set" where
  "owned sfs sv = {b. b \<noteq> 0 \<and> (b = sfi_indirect (sv_i sv) \<or> (\<exists>fb. b = blockmap sfs sv fb))}"

definition same_fs :: "sfs_fs \<Rightarrow> sfs_fs \<Rightarrow> bool" where
  "same_fs sfs sfs' \<longleftrightarrow> sfs_sb sfs' = sfs_sb sfs \<and> sfs_superdirty sfs' = sfs_superdirty sfs
     \<and> sfs_vnodes sfs' = sfs_vnodes sfs \<and> sv_heap sfs' = sv_heap sfs
     \<and> d_blocks (sfs_device sfs') = d_blocks (sfs_device sfs)"

definition same_sv :: "sfs_vnode \<Rightarrow> sfs_vnode \<Rightarrow> bool" where
  "same_sv sv sv' \<longleftrightarrow> sfi_size (sv_i sv') = sfi_size (sv_i sv) \<and> sfi_type (sv_i sv') = sfi_type (sv_i sv)
     \<and> sfi_linkcount (sv_i sv') = sfi_linkcount (sv_i sv) \<and> sv_ino sv' = sv_ino sv
     \<and> vn_refcount sv' = vn_refcount sv \<and> vn_opencount sv' = vn_opencount sv \<and> vn_isdir sv' = vn_isdir sv
     \<and> (sv_dirty sv \<longrightarrow> sv_dirty sv') \<and> (sv_i sv' = sv_i sv \<or> sv_dirty sv')"

text \<open>
  A step of I/O on the file: the invariants hold again, blocks are only taken from the free ones
  and each one taken belongs to the file, and no used block outside the file changes.
\<close>

definition io_step :: "sfs_fs \<Rightarrow> sfs_vnode \<Rightarrow> sfs_fs \<Rightarrow> sfs_vnode \<Rightarrow> bool" where
  "io_step sfs sv sfs' sv' \<longleftrightarrow> fs_ok sfs' \<and> file_inv sfs' sv' \<and> same_fs sfs sfs' \<and> same_sv sv sv'
     \<and> used sfs \<subseteq> used sfs' \<and> used sfs' \<subseteq> used sfs \<union> unat ` owned sfs' sv'
     \<and> owned sfs sv \<subseteq> owned sfs' sv' \<and> owned sfs' sv' \<subseteq> owned sfs sv \<union> {b. unat b \<notin> used sfs}
     \<and> (\<forall>b. unat b \<in> used sfs \<and> b \<notin> owned sfs sv \<longrightarrow> secs sfs' b = secs sfs b)"

section \<open>Steps\<close>

lemma io_step_refl: "fs_ok sfs \<Longrightarrow> file_inv sfs sv \<Longrightarrow> io_step sfs sv sfs sv"
  by (simp add: io_step_def same_fs_def same_sv_def)

lemma same_sv_trans: "same_sv sv sv' \<Longrightarrow> same_sv sv' sv'' \<Longrightarrow> same_sv sv sv''"
  by (auto simp: same_sv_def)

lemma io_step_trans:
  assumes "io_step sfs sv sfs' sv'" and "io_step sfs' sv' sfs'' sv''"
  shows "io_step sfs sv sfs'' sv''"
proof -
  note step = assms[unfolded io_step_def]
  have frame: "\<forall>b. unat b \<in> used sfs \<and> b \<notin> owned sfs sv \<longrightarrow> secs sfs'' b = secs sfs b"
  proof (intro allI impI)
    fix b assume that: "unat b \<in> used sfs \<and> b \<notin> owned sfs sv"
    have "unat b \<in> used sfs'" "b \<notin> owned sfs' sv'" "secs sfs' b = secs sfs b"
      using assms(1) that by (auto simp: io_step_def)
    then show "secs sfs'' b = secs sfs b" using assms(2) by (auto simp: io_step_def)
  qed
  have "same_fs sfs sfs''" using step by (simp add: same_fs_def)
  moreover have "same_sv sv sv''" using same_sv_trans step by blast
  moreover have u1: "used sfs \<subseteq> used sfs'" "used sfs' \<subseteq> used sfs \<union> unat ` owned sfs' sv'"
    "owned sfs sv \<subseteq> owned sfs' sv'" "owned sfs' sv' \<subseteq> owned sfs sv \<union> {b. unat b \<notin> used sfs}"
    using step(1) by simp_all
  moreover have u2: "used sfs' \<subseteq> used sfs''" "used sfs'' \<subseteq> used sfs' \<union> unat ` owned sfs'' sv''"
    "owned sfs' sv' \<subseteq> owned sfs'' sv''" "owned sfs'' sv'' \<subseteq> owned sfs' sv' \<union> {b. unat b \<notin> used sfs'}"
    using step(2) by simp_all
  moreover have "unat ` owned sfs' sv' \<subseteq> unat ` owned sfs'' sv''" using u2(3) by (rule image_mono)
  then have "used sfs'' \<subseteq> used sfs \<union> unat ` owned sfs'' sv''" using u1(2) u2(2) by blast
  moreover have "{b :: u32. unat b \<notin> used sfs'} \<subseteq> {b. unat b \<notin> used sfs}" using u1(1) by blast
  then have "owned sfs'' sv'' \<subseteq> owned sfs sv \<union> {b. unat b \<notin> used sfs}" using u1(4) u2(4) by blast
  moreover have "used sfs \<subseteq> used sfs''" "owned sfs sv \<subseteq> owned sfs'' sv''"
    using u1(1,3) u2(1,3) by (auto intro: subset_trans)
  ultimately show ?thesis using step(2) frame unfolding io_step_def by simp
qed

lemma io_step_inv: "io_step sfs sv sfs' sv' \<Longrightarrow> fs_ok sfs'" "io_step sfs sv sfs' sv' \<Longrightarrow> file_inv sfs' sv'"
  by (simp_all add: io_step_def)

text \<open>A block of the volume can be read and written.\<close>

lemma fs_ok_dev:
  assumes "fs_ok sfs" shows "lhd_ready (sfs_device sfs)" "lhd_good (sfs_device sfs)"
  using assms by (simp_all add: fs_ok_def)

lemma blk_ok_valid:
  assumes "fs_ok sfs" and "b < nblocks sfs" shows "blk_ok (sfs_device sfs) b"
proof -
  have "unat b < unat (nblocks sfs)" using assms(2) by (simp add: word_less_nat_alt)
  then have "unat b * 512 < 2 ^ 31" using assms(1) by (auto simp: fs_ok_def)
  then have "int (unat b * 512) < int (2 ^ 31)" by (simp only: of_nat_less_iff)
  then have "uint b * 512 < 2 ^ 31" by simp
  moreover have "b < d_blocks (sfs_device sfs)" using assms by (auto simp: fs_ok_def)
  ultimately show ?thesis by (simp add: blk_ok_def)
qed

lemma length_sector: "fs_ok sfs \<Longrightarrow> b < nblocks sfs \<Longrightarrow> length (secs sfs b) = 512"
  by (auto simp: fs_ok_def lhd_ready_def)

text \<open>A step of the device that leaves the sectors alone.\<close>

definition dev_step :: "sfs_fs \<Rightarrow> sfs_fs \<Rightarrow> bool" where
  "dev_step sfs sfs' \<longleftrightarrow> (\<exists>dev k. sfs' = sfs\<lparr>sfs_device := dev\<rparr> \<and> lhd_after k (sfs_device sfs) dev
     \<and> lh_sectors dev = secs sfs)"

lemma fs_ok_device:
  assumes "fs_ok sfs" and "lhd_after k (sfs_device sfs) dev" shows "fs_ok (sfs\<lparr>sfs_device := dev\<rparr>)"
  using assms lhd_good_after[of "sfs_device sfs" k dev] by (auto simp: fs_ok_def lhd_after_def)

lemma dev_step_same:
  assumes "dev_step sfs sfs'"
  shows "blockmap sfs' sv = blockmap sfs sv" "fcontent sfs' sv = fcontent sfs sv" "secs sfs' = secs sfs"
    "owned sfs' sv = owned sfs sv" "sfs_freemap sfs' = sfs_freemap sfs" "same_fs sfs sfs'"
    "file_inv sfs' sv = file_inv sfs sv" "bdata sfs' = bdata sfs"
proof -
  obtain dev k where sfs': "sfs' = sfs\<lparr>sfs_device := dev\<rparr>" and d: "lhd_after k (sfs_device sfs) dev"
      "lh_sectors dev = secs sfs"
    using assms by (auto simp: dev_step_def)
  have bm: "blockmap sfs' s = blockmap sfs s" for s by (rule ext) (simp add: blockmap_def sfs' d)
  then show "blockmap sfs' sv = blockmap sfs sv" "owned sfs' sv = owned sfs sv"
    by (simp_all add: owned_def)
  have bd: "bdata sfs' b = bdata sfs b" for b by (simp add: bdata_def sfs' d)
  then show "fcontent sfs' sv = fcontent sfs sv" "bdata sfs' = bdata sfs"
    by (auto simp: fcontent_def bm)
  show "secs sfs' = secs sfs" "sfs_freemap sfs' = sfs_freemap sfs" "same_fs sfs sfs'"
    using d by (simp_all add: sfs' same_fs_def lhd_after_def)
  then show "file_inv sfs' sv = file_inv sfs sv"
    by (simp add: file_inv_def bm valid_block_def same_fs_def)
qed

lemma dev_step_io:
  assumes "dev_step sfs sfs'" "fs_ok sfs" "file_inv sfs sv" shows "io_step sfs sv sfs' sv"
proof -
  have "fs_ok sfs'" using assms fs_ok_device by (auto simp: dev_step_def)
  then show ?thesis using assms by (simp add: io_step_def same_sv_def dev_step_same[OF assms(1)])
qed

lemma rblock_step:
  assumes "fs_ok sfs" and "b < nblocks sfs" and "length data = 512"
  obtains dev where "sfs_rblock (sfs_device sfs) data b = Some (ESUCCESS, secs sfs b, dev)"
    "dev_step sfs (sfs\<lparr>sfs_device := dev\<rparr>)"
  using sfs_rblock_ok[OF fs_ok_dev[OF assms(1)] blk_ok_valid[OF assms(1,2)] assms(3)] dev_step_def
  by metis

lemma wblock_step:
  assumes "fs_ok sfs" and "b < nblocks sfs" and "length data = 512"
  obtains dev where "sfs_wblock (sfs_device sfs) data b = Some (ESUCCESS, dev)"
    "lh_sectors dev = (secs sfs)(b := data)" "fs_ok (sfs\<lparr>sfs_device := dev\<rparr>)"
    "same_fs sfs (sfs\<lparr>sfs_device := dev\<rparr>)"
proof -
  obtain dev where dev: "sfs_wblock (sfs_device sfs) data b = Some (ESUCCESS, dev)"
    "lhd_after 1 (sfs_device sfs) dev" "lh_sectors dev = (secs sfs)(b := data)"
    using sfs_wblock_ok[OF fs_ok_dev[OF assms(1)] blk_ok_valid[OF assms(1,2)] assms(3)] by metis
  then show thesis using that[of dev] fs_ok_device[OF assms(1) dev(2)]
    by (simp add: same_fs_def lhd_after_def)
qed

section \<open>Allocation\<close>

definition fresh :: "sfs_fs \<Rightarrow> u32 \<Rightarrow> bool" where
  "fresh sfs b \<longleftrightarrow> b \<noteq> 0 \<and> b < nblocks sfs \<and> unat b \<notin> used sfs"

lemma balloc_cases:
  assumes "fs_ok sfs"
  obtains (full) "sfs_balloc sfs = Some (Inl ENOSPC, sfs)" "vol_full sfs"
  | (got) b sfs' where "sfs_balloc sfs = Some (Inr b, sfs')" "fresh sfs b"
      "used sfs' = insert (unat b) (used sfs)" "secs sfs' = (secs sfs)(b := replicate 512 0)"
      "fs_ok sfs'" "same_fs sfs sfs'"
proof -
  have bm: "bm_inv (sfs_freemap sfs)" using assms by (simp add: fs_ok_def)
  show thesis
    using bm
  proof (cases rule: bmap.alloc_cases)
    case full
    then show thesis using that(1) by (simp add: sfs_balloc_def vol_full_def)
  next
    case (slot b fm)
    have "unat b \<notin> {unat (nblocks sfs)..<bm_cap (sfs_freemap sfs)}"
      using slot(5) assms unfolding fs_ok_def by blast
    then have "unat b < unat (nblocks sfs)" using slot(4) by simp
    then have b: "b < nblocks sfs" by (simp add: word_less_nat_alt)
    have "b \<noteq> 0" using slot(5) assms by (auto simp: fs_ok_def)
    then have fr: "fresh sfs b" using b slot(5) by (simp add: fresh_def)
    define sfs1 where "sfs1 = sfs\<lparr>sfs_freemap := fm, sfs_freemapdirty := True\<rparr>"
    have ok1: "fs_ok sfs1" using assms slot by (auto simp: fs_ok_def sfs1_def)
    have b1: "b < nblocks sfs1" using b by (simp add: sfs1_def)
    obtain dev where dev: "sfs_wblock (sfs_device sfs1) (replicate 512 0) b = Some (ESUCCESS, dev)"
      "lh_sectors dev = (secs sfs1)(b := replicate 512 0)" "fs_ok (sfs1\<lparr>sfs_device := dev\<rparr>)"
      "same_fs sfs1 (sfs1\<lparr>sfs_device := dev\<rparr>)"
      using wblock_step[OF ok1 b1, of "replicate 512 0"] by auto
    have "sfs_balloc sfs = Some (Inr b, sfs1\<lparr>sfs_device := dev\<rparr>)"
      using slot(1) dev(1) b1 by (simp add: sfs_balloc_def sfs1_def sfs_clearblock_def)
    moreover have "same_fs sfs (sfs1\<lparr>sfs_device := dev\<rparr>)"
      using dev(4) by (simp add: same_fs_def sfs1_def)
    moreover have "used (sfs1\<lparr>sfs_device := dev\<rparr>) = insert (unat b) (used sfs)"
      "secs (sfs1\<lparr>sfs_device := dev\<rparr>) = (secs sfs)(b := replicate 512 0)"
      using slot dev(2) by (simp_all add: sfs1_def)
    ultimately show thesis using that(2)[OF _ fr _ _ dev(3)] by blast
  qed
qed

lemma bused_valid:
  assumes "fs_ok sfs" and "valid_block sfs b" shows "sfs_bused sfs b = Some True"
proof -
  have "unat b < unat (bm_nbits (sfs_freemap sfs))"
    using assms(2) by (simp add: valid_block_def bm_used_def)
  then have "b < bm_nbits (sfs_freemap sfs)" by (simp add: word_less_nat_alt)
  then obtain w where "bitmap_isset (sfs_freemap sfs) b = Some w" "w \<noteq> 0 \<longleftrightarrow> unat b \<in> used sfs"
    using bitmap_isset_spec[of "sfs_freemap sfs" b] assms(1) by (auto simp: fs_ok_def)
  then show ?thesis using assms(2) by (simp add: sfs_bused_def valid_block_def)
qed

lemma hand_back_ok:
  "fs_ok sfs \<Longrightarrow> b = 0 \<or> valid_block sfs b \<Longrightarrow> sfs_hand_back sfs sv b = Some (Inr b, sfs, sv)"
  by (auto simp: sfs_hand_back_def bused_valid)

text \<open>A fresh block of zeros in place of a hole changes nothing that can be read.\<close>

lemma extend_step:
  assumes "fs_ok sfs" "file_inv sfs sv" "fs_ok sfs'" "same_fs sfs sfs'" "same_sv sv sv'"
    and "fresh sfs b" "used sfs' = insert (unat b) (used sfs)" "blockmap sfs sv fb = 0"
    and "blockmap sfs' sv' = (blockmap sfs sv)(fb := b)" "inode_ok (sv_i sv')"
    and "sfi_indirect (sv_i sv') = sfi_indirect (sv_i sv)" "secs sfs' b = replicate 512 0"
    and "\<And>x. x \<noteq> b \<Longrightarrow> x = 0 \<or> x \<noteq> sfi_indirect (sv_i sv) \<Longrightarrow> secs sfs' x = secs sfs x"
  shows "io_step sfs sv sfs' sv'" "fcontent sfs' sv' = fcontent sfs sv"
proof -
  let ?ind = "sfi_indirect (sv_i sv)"
  have old: "valid_block sfs' x" "x \<noteq> b" if "valid_block sfs x" for x
    using that assms(4,6,7) by (auto simp: valid_block_def fresh_def same_fs_def)
  have new: "valid_block sfs' b" using assms(4,6,7) by (simp add: valid_block_def fresh_def same_fs_def)
  have bm: "blockmap sfs sv f \<noteq> 0 \<Longrightarrow> valid_block sfs (blockmap sfs sv f) \<and> blockmap sfs sv f \<noteq> ?ind" for f
    using assms(2) by (simp add: file_inv_def)
  have ind: "?ind \<noteq> 0 \<Longrightarrow> valid_block sfs ?ind" using assms(2) by (simp add: file_inv_def)
  have inj: "blockmap sfs sv f = blockmap sfs sv f' \<Longrightarrow> blockmap sfs sv f \<noteq> 0 \<Longrightarrow> f = f'" for f f'
    using assms(2) by (simp add: file_inv_def)
  have b0: "b \<noteq> 0" using assms(6) by (simp add: fresh_def)
  have bind: "b \<noteq> ?ind" using ind old(2) b0 by metis
  have "file_inv sfs' sv'"
    unfolding file_inv_def assms(9,11)
    using assms(10) ind old new bm inj b0 bind by (auto simp: fun_upd_def)
  moreover have ow: "owned sfs' sv' = insert b (owned sfs sv)"
    unfolding owned_def assms(9,11) using b0 assms(8) by (auto simp: fun_upd_def)
  moreover have "secs sfs' x = secs sfs x" if "unat x \<in> used sfs" "x \<notin> owned sfs sv" for x
    using assms(13)[of x] that assms(6) by (auto simp: fresh_def owned_def)
  ultimately show "io_step sfs sv sfs' sv'"
    using assms(3-7) by (auto simp: io_step_def fresh_def)
  show "fcontent sfs' sv' = fcontent sfs sv"
  proof
    fix n
    have "bdata sfs' (blockmap sfs' sv' f) = bdata sfs (blockmap sfs sv f)" for f
      using assms(8,12,13) bm[of f] old(2) by (auto simp: assms(9) bdata_def)
    then show "fcontent sfs' sv' n = fcontent sfs sv n" by (simp add: fcontent_def)
  qed
qed

text \<open>So does an empty indirect block where there was none.\<close>

lemma get_words_zeros: "get_words n (replicate (4 * n) 0) = replicate n 0"
proof (induction n)
  case (Suc n)
  have "replicate (4 * Suc n) (0 :: u8) = replicate 4 0 @ replicate (4 * n) 0"
    by (metis mult_Suc_right replicate_add)
  then show ?case using Suc by (simp add: be32_get_def numeral_eq_Suc)
qed simp

lemma indirect_step:
  assumes "fs_ok sfs" "file_inv sfs sv" "fs_ok sfs'" "same_fs sfs sfs'"
    and "fresh sfs b" "used sfs' = insert (unat b) (used sfs)" "sfi_indirect (sv_i sv) = 0"
    and "secs sfs' = (secs sfs)(b := replicate 512 0)"
  defines "sv' \<equiv> sv\<lparr>sv_i := (sv_i sv)\<lparr>sfi_indirect := b\<rparr>, sv_dirty := True\<rparr>"
  shows "io_step sfs sv sfs' sv'" "fcontent sfs' sv' = fcontent sfs sv" "blockmap sfs' sv' = blockmap sfs sv"
proof -
  have b0: "b \<noteq> 0" using assms(5) by (simp add: fresh_def)
  have z: "get_words 128 (replicate 512 0) = replicate 128 0" using get_words_zeros[of 128] by simp
  show bmeq: "blockmap sfs' sv' = blockmap sfs sv"
    by (rule ext) (auto simp: blockmap_def sv'_def assms(7,8) z)
  have old: "valid_block sfs' x" "x \<noteq> b" if "valid_block sfs x" for x
    using that assms(4-6) by (auto simp: valid_block_def fresh_def same_fs_def)
  have new: "valid_block sfs' b" using assms(4-6) by (simp add: valid_block_def fresh_def same_fs_def)
  have bm: "blockmap sfs sv f \<noteq> 0 \<Longrightarrow> valid_block sfs (blockmap sfs sv f)" for f
    using assms(2) by (simp add: file_inv_def)
  have inj: "blockmap sfs sv f = blockmap sfs sv f' \<Longrightarrow> blockmap sfs sv f \<noteq> 0 \<Longrightarrow> f = f'" for f f'
    using assms(2) by (simp add: file_inv_def)
  have ind: "sfi_indirect (sv_i sv') = b" "inode_ok (sv_i sv')" "same_sv sv sv'"
    using assms(2) by (simp_all add: sv'_def inode_ok_def file_inv_def same_sv_def)
  have "file_inv sfs' sv'"
    unfolding file_inv_def bmeq ind(1) using ind(2) new old bm inj by metis
  moreover have "owned sfs' sv' = insert b (owned sfs sv)"
    unfolding owned_def bmeq ind(1) using b0 assms(7) by auto
  moreover have "secs sfs' x = secs sfs x" if "unat x \<in> used sfs" for x
    using that assms(5,8) by (auto simp: fresh_def)
  ultimately show "io_step sfs sv sfs' sv'"
    using assms(3-6) ind(3) by (auto simp: io_step_def fresh_def)
  show "fcontent sfs' sv' = fcontent sfs sv"
  proof
    fix n
    have "bdata sfs' (blockmap sfs sv f) = bdata sfs (blockmap sfs sv f)" for f
      using assms(8) bm[of f] old(2) by (auto simp: bdata_def)
    then show "fcontent sfs' sv' n = fcontent sfs sv n" by (simp add: fcontent_def bmeq)
  qed
qed

section \<open>The block map\<close>

lemma blockmap_valid: "file_inv sfs sv \<Longrightarrow> blockmap sfs sv fb = 0 \<or> valid_block sfs (blockmap sfs sv fb)"
  by (auto simp: file_inv_def)

lemma rd_uint: "unat i < length xs \<Longrightarrow> rd xs (uint i) = Some (xs ! unat i)"
  using rd_nat[of "unat i" xs] by simp

lemma wr_uint: "unat i < length xs \<Longrightarrow> wr xs (uint i) x = Some (xs[unat i := x])"
  using wr_nat[of "unat i" xs x] by simp

text \<open>
  The outcome of mapping block \<open>fb\<close>: a block that the map now has, or an error, and in both cases
  nothing that can be read has changed.
\<close>

definition bmap_post :: "sfs_fs \<Rightarrow> sfs_vnode \<Rightarrow> nat \<Rightarrow> bool \<Rightarrow> (errno + u32) \<Rightarrow> sfs_fs \<Rightarrow> sfs_vnode \<Rightarrow> bool" where
  "bmap_post sfs sv fb doalloc res sfs' sv' \<longleftrightarrow> io_step sfs sv sfs' sv' \<and> fcontent sfs' sv' = fcontent sfs sv
     \<and> (case res of
          Inl e \<Rightarrow> doalloc \<and> e = ENOSPC \<and> vol_full sfs'
        | Inr b \<Rightarrow> b = blockmap sfs' sv' fb \<and> (doalloc \<longrightarrow> b \<noteq> 0) \<and> (\<not> doalloc \<longrightarrow> sv' = sv))"

lemma hand_back_post:
  assumes "io_step sfs sv sfs' sv'" "fcontent sfs' sv' = fcontent sfs sv" "b = blockmap sfs' sv' fb"
    and "doalloc \<longrightarrow> b \<noteq> 0" "\<not> doalloc \<longrightarrow> sv' = sv"
  shows "\<exists>res sfs'' sv''. sfs_hand_back sfs' sv' b = Some (res, sfs'', sv'') \<and> bmap_post sfs sv fb doalloc res sfs'' sv''"
  using assms hand_back_ok[of sfs' b sv'] blockmap_valid[of sfs' sv' fb]
  by (auto simp: bmap_post_def io_step_def)

lemma bmap_direct_ok:
  assumes "fs_ok sfs" "file_inv sfs sv" "unat fb < 15"
  shows "\<exists>res sfs' sv'. sfs_bmap_direct sfs sv fb doalloc = Some (res, sfs', sv')
           \<and> bmap_post sfs sv (unat fb) doalloc res sfs' sv'"
proof -
  let ?d = "sfi_direct (sv_i sv)"
  have len: "length ?d = 15" using assms(2) by (simp add: file_inv_def inode_ok_def)
  have bm: "blockmap sfs sv (unat fb) = ?d ! unat fb" using assms(3) by (simp add: blockmap_def)
  show ?thesis
  proof (cases "?d ! unat fb = 0 \<and> doalloc")
    case False
    then have "sfs_bmap_direct sfs sv fb doalloc = sfs_hand_back sfs sv (?d ! unat fb)"
      using len assms(3) by (auto simp: sfs_bmap_direct_def rd_uint)
    moreover have "io_step sfs sv sfs sv" using assms by (simp add: io_step_refl)
    ultimately show ?thesis using hand_back_post[of sfs sv sfs sv "?d ! unat fb" "unat fb" doalloc] bm False
      by auto
  next
    case True
    show ?thesis
      using assms(1)
    proof (cases rule: balloc_cases)
      case full
      then have "sfs_bmap_direct sfs sv fb doalloc = Some (Inl ENOSPC, sfs, sv)"
        using len assms(3) True by (simp add: sfs_bmap_direct_def rd_uint)
      then show ?thesis using True full io_step_refl[OF assms(1,2)] by (simp add: bmap_post_def)
    next
      case (got b sfs')
      define sv' where "sv' = sv\<lparr>sv_i := (sv_i sv)\<lparr>sfi_direct := ?d[unat fb := b]\<rparr>, sv_dirty := True\<rparr>"
      have ind: "sfi_indirect (sv_i sv') = sfi_indirect (sv_i sv)" by (simp add: sv'_def)
      have bind: "b \<noteq> sfi_indirect (sv_i sv)"
        using assms(2) got(2) by (auto simp: file_inv_def valid_block_def fresh_def)
      have bm': "blockmap sfs' sv' = (blockmap sfs sv)(unat fb := b)"
        using bind len assms(3) by (intro ext) (simp add: blockmap_def sv'_def got(4))
      have "same_sv sv sv'" "inode_ok (sv_i sv')"
        using assms(2) by (simp_all add: file_inv_def inode_ok_def same_sv_def sv'_def)
      moreover have "blockmap sfs sv (unat fb) = 0" "secs sfs' b = replicate 512 0"
        "\<And>x. x \<noteq> b \<Longrightarrow> secs sfs' x = secs sfs x" using True bm by (simp_all add: got(4))
      ultimately have io: "io_step sfs sv sfs' sv'" "fcontent sfs' sv' = fcontent sfs sv"
        using extend_step[OF assms(1,2) got(5,6) _ got(2,3) _ bm' _ ind] by blast+
      have "sfs_bmap_direct sfs sv fb doalloc = sfs_hand_back sfs' sv' b"
        using len assms(3) True got(1) by (simp add: sfs_bmap_direct_def rd_uint wr_uint sv'_def)
      then show ?thesis using hand_back_post[OF io, of b "unat fb" doalloc] bm' True got(2)
        by (simp add: fresh_def)
    qed
  qed
qed

lemma bmap_entry_ok:
  assumes "fs_ok sfs" "file_inv sfs sv" "unat off < 128" "sfi_indirect (sv_i sv) = ib" "ib \<noteq> 0"
    and "idbuf = get_words 128 (secs sfs ib)"
  shows "\<exists>res sfs' sv'. sfs_bmap_entry sfs sv ib idbuf off doalloc = Some (res, sfs', sv')
           \<and> bmap_post sfs sv (15 + unat off) doalloc res sfs' sv'"
proof -
  have len: "length idbuf = 128" by (simp add: assms(6))
  have bm: "blockmap sfs sv (15 + unat off) = idbuf ! unat off"
    using assms(3-6) by (simp add: blockmap_def)
  have ib: "valid_block sfs ib" using assms(2,4,5) by (auto simp: file_inv_def)
  show ?thesis
  proof (cases "idbuf ! unat off = 0 \<and> doalloc")
    case False
    then have "sfs_bmap_entry sfs sv ib idbuf off doalloc = sfs_hand_back sfs sv (idbuf ! unat off)"
      using len assms(3) by (auto simp: sfs_bmap_entry_def rd_uint)
    moreover have "io_step sfs sv sfs sv" using assms by (simp add: io_step_refl)
    ultimately show ?thesis
      using hand_back_post[of sfs sv sfs sv "idbuf ! unat off" "15 + unat off" doalloc] bm False by auto
  next
    case True
    show ?thesis
      using assms(1)
    proof (cases rule: balloc_cases)
      case full
      then have "sfs_bmap_entry sfs sv ib idbuf off doalloc = Some (Inl ENOSPC, sfs, sv)"
        using len assms(3) True by (simp add: sfs_bmap_entry_def rd_uint)
      then show ?thesis using True full io_step_refl[OF assms(1,2)] by (simp add: bmap_post_def)
    next
      case (got b sfs1)
      let ?buf = "idbuf[unat off := b]"
      have b: "b \<noteq> ib" "b \<noteq> 0" using ib got(2) by (auto simp: valid_block_def fresh_def)
      have "ib < nblocks sfs1" "length (put_words ?buf) = 512"
        using ib got(6) len by (simp_all add: valid_block_def same_fs_def)
      then obtain dev where dev: "sfs_wblock (sfs_device sfs1) (put_words ?buf) ib = Some (ESUCCESS, dev)"
        "lh_sectors dev = (secs sfs1)(ib := put_words ?buf)" "fs_ok (sfs1\<lparr>sfs_device := dev\<rparr>)"
        "same_fs sfs1 (sfs1\<lparr>sfs_device := dev\<rparr>)"
        using wblock_step[OF got(5)] by metis
      define sfs2 where "sfs2 = sfs1\<lparr>sfs_device := dev\<rparr>"
      have secs2: "secs sfs2 = (secs sfs)(b := replicate 512 0, ib := put_words ?buf)"
        using dev(2) got(4) by (simp add: sfs2_def)
      have same: "fs_ok sfs2" "same_fs sfs sfs2" "used sfs2 = insert (unat b) (used sfs)" "same_sv sv sv"
        using dev(3,4) got(3,6) by (simp_all add: sfs2_def same_fs_def same_sv_def)
      have "get_words 128 (secs sfs2 ib) = ?buf" using len by (simp add: secs2)
      then have bm2: "blockmap sfs2 sv = (blockmap sfs sv)(15 + unat off := b)"
        using assms(3-6) len by (intro ext) (auto simp: blockmap_def nth_list_update)
      have "inode_ok (sv_i sv)" "secs sfs2 b = replicate 512 0" "blockmap sfs sv (15 + unat off) = 0"
        "\<And>x. x \<noteq> b \<Longrightarrow> x = 0 \<or> x \<noteq> sfi_indirect (sv_i sv) \<Longrightarrow> secs sfs2 x = secs sfs x"
        using assms(2,4,5) b bm True by (auto simp: secs2 file_inv_def)
      then have io: "io_step sfs sv sfs2 sv" "fcontent sfs2 sv = fcontent sfs sv"
        using extend_step[OF assms(1,2) same(1,2,4) got(2) same(3) _ bm2 _ refl] by blast+
      have "sfs_bmap_entry sfs sv ib idbuf off doalloc = sfs_hand_back sfs2 sv b"
        using len assms(3) True got(1) dev(1) by (simp add: sfs_bmap_entry_def rd_uint wr_uint sfs2_def)
      then show ?thesis using hand_back_post[OF io, of b "15 + unat off" doalloc] bm2 b True by simp
    qed
  qed
qed

lemma bmap_post_trans:
  assumes "io_step sfs sv sfs1 sv1" "fcontent sfs1 sv1 = fcontent sfs sv" "\<not> doalloc \<longrightarrow> sv1 = sv"
    and "bmap_post sfs1 sv1 fb doalloc res sfs' sv'"
  shows "bmap_post sfs sv fb doalloc res sfs' sv'"
  using assms io_step_trans[OF assms(1), of sfs' sv'] by (auto simp: bmap_post_def split: sum.splits)

lemma file_block_words:
  fixes fb :: u32
  assumes "15 \<le> unat fb"
  shows "(fb - 15) div 128 > 0 \<longleftrightarrow> 143 \<le> unat fb"
    and "unat fb < 143 \<Longrightarrow> unat ((fb - 15) mod 128) = unat fb - 15"
proof -
  have s: "unat (fb - 15) = unat fb - 15" using assms by (simp add: unat_sub word_le_nat_alt)
  then have "unat ((fb - 15) div 128) = (unat fb - 15) div 128" by (simp add: unat_div)
  then show "(fb - 15) div 128 > 0 \<longleftrightarrow> 143 \<le> unat fb"
    using assms by (auto simp: word_less_nat_alt div_greater_zero_iff)
  show "unat ((fb - 15) mod 128) = unat fb - 15" if "unat fb < 143"
    using that assms s by (simp add: unat_mod)
qed

lemma bmap_ok:
  assumes "fs_ok sfs" "file_inv sfs sv" "unat fb < 143"
  shows "\<exists>res sfs' sv'. sfs_bmap sfs sv fb doalloc = Some (res, sfs', sv')
           \<and> bmap_post sfs sv (unat fb) doalloc res sfs' sv'"
proof (cases "fb < 15")
  case True
  then show ?thesis using bmap_direct_ok[OF assms(1,2), of fb doalloc]
    by (simp add: sfs_bmap_def word_less_nat_alt)
next
  case False
  then have fb: "15 \<le> unat fb" by (simp add: word_less_nat_alt)
  define off where "off = (fb - 15) mod 128"
  have off: "unat off < 128" "15 + unat off = unat fb" "\<not> (fb - 15) div 128 > 0"
    using file_block_words[OF fb] assms(3) fb by (simp_all add: off_def)
  let ?id = "sfi_indirect (sv_i sv)"
  consider "?id = 0" "\<not> doalloc" | "?id = 0" "doalloc" | "?id \<noteq> 0" by auto
  then show ?thesis
  proof cases
    case 1
    then have "sfs_bmap sfs sv fb doalloc = Some (Inr 0, sfs, sv)"
      using False off(3) by (simp add: sfs_bmap_def Let_def)
    moreover have "blockmap sfs sv (unat fb) = 0" using 1 fb by (simp add: blockmap_def)
    ultimately show ?thesis using 1 io_step_refl[OF assms(1,2)] by (simp add: bmap_post_def)
  next
    case 2
    show ?thesis
      using assms(1)
    proof (cases rule: balloc_cases)
      case full
      then have "sfs_bmap sfs sv fb doalloc = Some (Inl ENOSPC, sfs, sv)"
        using False off(3) 2 by (simp add: sfs_bmap_def Let_def)
      then show ?thesis using 2 full io_step_refl[OF assms(1,2)] by (simp add: bmap_post_def)
    next
      case (got b sfs1)
      define sv1 where "sv1 = sv\<lparr>sv_i := (sv_i sv)\<lparr>sfi_indirect := b\<rparr>, sv_dirty := True\<rparr>"
      note st = indirect_step[OF assms(1,2) got(5,6,2,3) 2(1) got(4), folded sv1_def]
      have "sfs_bmap sfs sv fb doalloc = sfs_bmap_entry sfs1 sv1 b (replicate 128 0) off doalloc"
        using False off(3) 2 got(1) by (simp add: sfs_bmap_def Let_def sv1_def off_def)
      moreover have "replicate 128 0 = get_words 128 (secs sfs1 b)"
        using get_words_zeros[of 128] by (simp add: got(4))
      moreover have "b \<noteq> 0" using got(2) by (simp add: fresh_def)
      ultimately show ?thesis
        using bmap_entry_ok[of sfs1 sv1 off b "replicate 128 0" doalloc] io_step_inv[OF st(1)] off
          bmap_post_trans[OF st(1,2), of doalloc] 2 by (auto simp: sv1_def)
    qed
  next
    case 3
    have id: "?id < nblocks sfs" using assms(2) 3 by (simp add: file_inv_def valid_block_def)
    obtain dev where dev: "sfs_rblock (sfs_device sfs) (replicate 512 0) ?id = Some (ESUCCESS, secs sfs ?id, dev)"
      "dev_step sfs (sfs\<lparr>sfs_device := dev\<rparr>)"
      using rblock_step[OF assms(1) id, of "replicate 512 0"] by auto
    define sfs1 where "sfs1 = sfs\<lparr>sfs_device := dev\<rparr>"
    have st: "io_step sfs sv sfs1 sv" "fcontent sfs1 sv = fcontent sfs sv" "secs sfs1 = secs sfs"
      using dev_step_io[OF dev(2) assms(1,2)] dev_step_same[OF dev(2)] by (simp_all add: sfs1_def)
    have "sfs_bmap sfs sv fb doalloc = sfs_bmap_entry sfs1 sv ?id (get_words 128 (secs sfs ?id)) off doalloc"
      using False off(3) 3 dev(1) by (simp add: sfs_bmap_def Let_def off_def sfs1_def)
    then show ?thesis
      using bmap_entry_ok[of sfs1 sv off ?id "get_words 128 (secs sfs ?id)" doalloc] io_step_inv[OF st(1)] off
        bmap_post_trans[OF st(1,2), of doalloc] 3 st(3) by auto
  qed
qed

lemma bmap_too_big:
  assumes "143 \<le> unat fb" shows "sfs_bmap sfs sv fb doalloc = Some (Inl EINVAL, sfs, sv)"
  using assms file_block_words(1)[of fb] by (simp add: sfs_bmap_def word_less_nat_alt Let_def)

end
