(* ===== verification/Sfs_Io.thy ===== *)
theory Sfs_Io
  imports Sfs_Content
begin

text \<open>
  Reading and writing files: \<open>sfs_io\<close> against the content of the file as a sequence of bytes.
  A write that stops early, because the volume is full, the file too big or the user's buffer
  cannot be read, has still written a prefix of the data.
\<close>

section \<open>Byte sequences\<close>

definition patch :: "(nat \<Rightarrow> u8) \<Rightarrow> nat \<Rightarrow> u8 list \<Rightarrow> (nat \<Rightarrow> u8)" where
  "patch f off d = (\<lambda>n. if off \<le> n \<and> n < off + length d then d ! (n - off) else f n)"

definition frange :: "(nat \<Rightarrow> u8) \<Rightarrow> nat \<Rightarrow> nat \<Rightarrow> u8 list" where
  "frange f off n = map f [off..<off + n]"

lemma patch_Nil [simp]: "patch f off [] = f"
  by (rule ext) (auto simp: patch_def)

lemma patch_append: "patch (patch f off d) (off + length d) e = patch f off (d @ e)"
  by (rule ext) (auto simp: patch_def nth_append)

lemma length_frange [simp]: "length (frange f off n) = n"
  by (simp add: frange_def)

lemma frange_0 [simp]: "frange f off 0 = []"
  by (simp add: frange_def)

lemma frange_add: "frange f off (n + k) = frange f off n @ frange f (off + n) k"
  using upt_add_eq_append[of off "off + n" k] by (simp add: frange_def add.assoc)

lemma frange_patch: "frange (patch f off d) off (length d) = d"
  by (rule nth_equalityI) (auto simp: frange_def patch_def)

text \<open>The bytes of one block.\<close>

lemma block_range:
  assumes "skip + len \<le> 512" "off = fb * 512 + skip" "\<And>m. m < 512 \<Longrightarrow> f (fb * 512 + m) = old ! m"
    and "length old = 512"
  shows "frange f off len = take len (drop skip old)"
proof (rule nth_equalityI)
  fix i assume "i < length (frange f off len)"
  then have i: "i < len" by simp
  then show "frange f off len ! i = take len (drop skip old) ! i"
    using assms(3)[of "skip + i"] assms(1,2,4) by (simp add: frange_def add.assoc)
qed (use assms in simp)

lemma block_patch:
  assumes "skip + length d \<le> 512" "off = fb * 512 + skip" "\<And>m. m < 512 \<Longrightarrow> f (fb * 512 + m) = old ! m"
    and "length old = 512" "new = take skip old @ d @ drop (skip + length d) old"
  shows "(\<lambda>n. if n div 512 = fb then new ! (n mod 512) else f n) = patch f off d"
proof
  fix n :: nat
  show "(if n div 512 = fb then new ! (n mod 512) else f n) = patch f off d n"
  proof (cases "n div 512 = fb")
    case True
    define m where "m = n mod 512"
    have n: "n = fb * 512 + m" "m < 512" using True by (auto simp: m_def)
    have "new ! m = (if skip \<le> m \<and> m < skip + length d then d ! (m - skip) else old ! m)"
      using assms(1,4) n(2) by (auto simp: assms(5) nth_append)
    then show ?thesis using True n assms(2) assms(3)[of m]
      by (auto simp: patch_def m_def[symmetric])
  next
    case False
    have "\<not> (off \<le> n \<and> n < off + length d)"
    proof
      assume "off \<le> n \<and> n < off + length d"
      then have "fb * 512 \<le> n" "n < fb * 512 + 512" using assms(1,2) by auto
      then have "n div 512 = fb" by (simp add: div_nat_eqI)
      then show False using False by simp
    qed
    then show ?thesis using False by (auto simp: patch_def)
  qed
qed

section \<open>One block of a file\<close>

lemma fcontent_block: "m < 512 \<Longrightarrow> fcontent sfs sv (fb * 512 + m) = bdata sfs (blockmap sfs sv fb) ! m"
  by (simp add: fcontent_def)

lemma length_bdata: "fs_ok sfs \<Longrightarrow> file_inv sfs sv \<Longrightarrow> length (bdata sfs (blockmap sfs sv fb)) = 512"
  using blockmap_valid[of sfs sv fb] by (auto simp: bdata_def valid_block_def length_sector)

lemma store_block:
  assumes "fs_ok sfs" "file_inv sfs sv" "b = blockmap sfs sv fb" "b \<noteq> 0"
    and "sfs' = sfs\<lparr>sfs_device := dev\<rparr>" "lh_sectors dev = (secs sfs)(b := d)" "fs_ok sfs'" "same_fs sfs sfs'"
  shows "io_step sfs sv sfs' sv"
    and "fcontent sfs' sv = (\<lambda>n. if n div 512 = fb then d ! (n mod 512) else fcontent sfs sv n)"
proof -
  let ?ind = "sfi_indirect (sv_i sv)"
  have bind: "b \<noteq> ?ind" using assms(2,3,4) by (auto simp: file_inv_def)
  have bm: "blockmap sfs' sv = blockmap sfs sv"
    using bind by (intro ext) (simp add: blockmap_def assms(5,6))
  have fm: "sfs_freemap sfs' = sfs_freemap sfs" by (simp add: assms(5))
  have "owned sfs' sv = owned sfs sv" by (simp add: owned_def bm)
  moreover have vb: "valid_block sfs' = valid_block sfs"
    using assms(8) by (intro ext) (simp add: valid_block_def fm same_fs_def)
  have "file_inv sfs' sv" using assms(2) unfolding file_inv_def bm vb .
  moreover have "b \<in> owned sfs sv" using assms(3,4) by (auto simp: owned_def)
  ultimately show "io_step sfs sv sfs' sv"
    using assms(7,8) by (auto simp: io_step_def same_sv_def assms(5,6))
  have "bdata sfs' (blockmap sfs sv f) = (if f = fb then d else bdata sfs (blockmap sfs sv f))" for f
    using assms(2-4) by (auto simp: bdata_def assms(5,6) file_inv_def)
  then show "fcontent sfs' sv = (\<lambda>n. if n div 512 = fb then d ! (n mod 512) else fcontent sfs sv n)"
    by (intro ext) (simp add: fcontent_def bm)
qed

lemma file_block_nat: "off < 2 ^ 31 \<Longrightarrow> unat (file_block (int off)) = off div 512"
proof -
  assume o: "off < 2 ^ 31"
  have "sgn (int off) * (\<bar>int off\<bar> div 512) = int (off div 512)"
    by (cases "off = 0") (simp_all add: zdiv_int)
  then have "file_block (int off) = of_nat (off div 512)" by (simp add: file_block_def)
  moreover have "off div 512 < 2 ^ 32" using o by (simp add: div_le_dividend order_le_less_trans)
  ultimately show ?thesis by (simp add: unat_of_nat_u32)
qed

section \<open>Writing\<close>

definition wpre :: "sfs_fs \<Rightarrow> sfs_vnode \<Rightarrow> uio \<Rightarrow> bool" where
  "wpre sfs sv u \<longleftrightarrow> fs_ok sfs \<and> file_inv sfs sv \<and> uio_ok u \<and> uio_rw u = UIO_WRITE
     \<and> 0 \<le> uio_offset u \<and> nat (uio_offset u) + unat (uio_resid u) < 2 ^ 31"

definition wrote :: "nat \<Rightarrow> sfs_fs \<Rightarrow> sfs_vnode \<Rightarrow> uio \<Rightarrow> sfs_fs \<Rightarrow> sfs_vnode \<Rightarrow> uio \<Rightarrow> bool" where
  "wrote n sfs sv u sfs' sv' u' \<longleftrightarrow> io_step sfs sv sfs' sv' \<and> n \<le> unat (uio_resid u)
     \<and> u' = uio_adv u (iov_skip (iov_un u) n) n \<and> length (iov_bytes (iov_un u) n) = n
     \<and> fcontent sfs' sv' = patch (fcontent sfs sv) (nat (uio_offset u)) (iov_bytes (iov_un u) n)"

lemma wpre_off:
  assumes "wpre sfs sv u" obtains off where "uio_offset u = int off" "off + unat (uio_resid u) < 2 ^ 31"
  using assms that[of "nat (uio_offset u)"] by (simp add: wpre_def)

lemma wrote_0:
  assumes "wpre sfs sv u" "io_step sfs sv sfs' sv'" "fcontent sfs' sv' = fcontent sfs sv"
  shows "wrote 0 sfs sv u sfs' sv' u"
proof -
  have "uio_adv u (iov_un u) 0 = u"
    by (rule wpre_off[OF assms(1)]) (rule uio_offset_small, auto)
  then show ?thesis using assms by (cases "iov_un u") (simp_all add: wrote_def iov_bytes_def)
qed

lemma wrote_pos:
  assumes "wpre sfs sv u" "wrote n sfs sv u sfs' sv' u'"
  shows "uio_offset u' = uio_offset u + int n" "unat (uio_resid u') = unat (uio_resid u) - n"
    "wpre sfs' sv' u'"
proof -
  have n: "n \<le> unat (uio_resid u)" and u': "u' = uio_adv u (iov_skip (iov_un u) n) n"
    using assms(2) by (simp_all add: wrote_def)
  obtain off0 where o: "uio_offset u = int off0" "off0 + unat (uio_resid u) < 2 ^ 31"
    using wpre_off[OF assms(1)] .
  then have "int off0 + int n < 2 ^ 31" using n by simp
  then show off: "uio_offset u' = uio_offset u + int n" using o(1) by (simp add: u' c_int_id)
  show res: "unat (uio_resid u') = unat (uio_resid u) - n" using n by (simp add: u' unat_sub_u32)
  have "uio_ok u'" using uio_ok_skip[of u n] assms(1) n by (simp add: wpre_def u')
  then show "wpre sfs' sv' u'"
    using assms off res o n io_step_inv[of sfs sv sfs' sv']
    by (simp add: wpre_def wrote_def u' nat_int_add)
qed

lemma wrote_trans:
  assumes "wpre sfs sv u" "wrote n sfs sv u sfs1 sv1 u1" "wrote k sfs1 sv1 u1 sfs' sv' u'"
  shows "wrote (n + k) sfs sv u sfs' sv' u'"
proof -
  have n: "n \<le> unat (uio_resid u)" and u1: "u1 = uio_adv u (iov_skip (iov_un u) n) n"
    and bn: "length (iov_bytes (iov_un u) n) = n"
    using assms(2) by (simp_all add: wrote_def)
  have k: "k \<le> unat (uio_resid u) - n" "u' = uio_adv u (iov_skip (iov_un u) (n + k)) (n + k)"
    "length (iov_bytes (iov_skip (iov_un u) n) k) = k"
    using assms(3) wrote_pos(2)[OF assms(1,2)] by (simp_all add: wrote_def u1)
  have "nat (uio_offset u1) = nat (uio_offset u) + length (iov_bytes (iov_un u) n)"
    using wrote_pos(1)[OF assms(1,2)] assms(1) bn by (simp add: wpre_def nat_add_distrib)
  then have "fcontent sfs' sv' = patch (fcontent sfs sv) (nat (uio_offset u)) (iov_bytes (iov_un u) (n + k))"
    using assms(2,3) iov_bytes_append[OF bn, of k] by (simp add: wrote_def u1 patch_append[symmetric] bn)
  moreover have "length (iov_bytes (iov_un u) (n + k)) = n + k"
    using iov_bytes_append[OF bn, of k] bn k by simp
  ultimately show ?thesis
    using assms(2,3) k n io_step_trans[of sfs sv sfs1 sv1 sfs' sv'] by (simp add: wrote_def)
qed

text \<open>The first half of \<open>sfs_partialio\<close>: the block is mapped and in the buffer, or there is no room.\<close>

lemma partialio_mapped:
  assumes "fs_ok sfs" "file_inv sfs sv" "uio_offset u = int off" "off < 2 ^ 31" "off div 512 = fb" "fb < 143"
    and "skip + len \<le> 512"
  obtains (nospace) sfs1 sv1 where "io_step sfs sv sfs1 sv1" "fcontent sfs1 sv1 = fcontent sfs sv"
      "uio_rw u = UIO_WRITE" "vol_full sfs1"
      "sfs_partialio sfs sv u (of_nat skip) (of_nat len) = Some (ENOSPC, sfs1, sv1, u)"
  | (mapped) sfs2 sv1 b where "io_step sfs sv sfs2 sv1" "fcontent sfs2 sv1 = fcontent sfs sv"
      "b = blockmap sfs2 sv1 fb" "uio_rw u = UIO_WRITE \<Longrightarrow> b \<noteq> 0" "uio_rw u = UIO_READ \<Longrightarrow> sv1 = sv"
      "sfs_partialio sfs sv u (of_nat skip) (of_nat len) = do {
          (result, got, uio) \<leftarrow> uiomove (take len (drop skip (bdata sfs2 b))) u;
          let iobuf = take skip (bdata sfs2 b) @ got @ drop (skip + len) (bdata sfs2 b);
          if result \<noteq> ESUCCESS then Some (result, sfs2, sv1, uio)
          else if uio_rw uio = UIO_WRITE then do {
             (result, dev) \<leftarrow> sfs_wblock (sfs_device sfs2) iobuf b;
             Some (result, sfs2\<lparr>sfs_device := dev\<rparr>, sv1, uio) }
          else Some (ESUCCESS, sfs2, sv1, uio) }"
proof -
  have fb: "unat (file_block (uio_offset u)) = fb" using assms(3-5) file_block_nat[of off] by simp
  have sk: "unat (of_nat skip :: u32) = skip" "unat (of_nat len :: u32) = len"
    "unat (of_nat skip + of_nat len :: u32) = skip + len"
    using assms(7) by (simp_all add: unat_of_nat_u32 of_nat_add[symmetric] del: of_nat_add)
  have a: "(of_nat skip + of_nat len :: u32) \<le> 512" using sk(3) assms(7) by (simp add: word_le_nat_alt)
  let ?w = "uio_rw u = UIO_WRITE"
  have rw: "\<not> ?w \<longleftrightarrow> uio_rw u = UIO_READ" by (cases "uio_rw u") simp_all
  obtain res sfs1 sv1 where bm: "sfs_bmap sfs sv (file_block (uio_offset u)) ?w = Some (res, sfs1, sv1)"
    and post: "bmap_post sfs sv fb ?w res sfs1 sv1"
    using bmap_ok[OF assms(1,2), of "file_block (uio_offset u)" ?w] fb assms(6) by auto
  have io: "io_step sfs sv sfs1 sv1" "fcontent sfs1 sv1 = fcontent sfs sv"
    using post by (simp_all add: bmap_post_def)
  show thesis
  proof (cases res)
    case (Inl e)
    then show thesis using that(1)[OF io] a bm post by (auto simp: sfs_partialio_def bmap_post_def)
  next
    case (Inr b)
    then have b: "b = blockmap sfs1 sv1 fb" "?w \<Longrightarrow> b \<noteq> 0" "\<not> ?w \<Longrightarrow> sv1 = sv"
      using post by (auto simp: bmap_post_def)
    have ok1: "fs_ok sfs1" "file_inv sfs1 sv1" using io_step_inv[OF io(1)] .
    show thesis
    proof (cases "b = 0")
      case True
      then have r: "uio_rw u = UIO_READ" using b(2) rw by auto
      have "sfs_partialio sfs sv u (of_nat skip) (of_nat len) = do {
          (result, got, uio) \<leftarrow> uiomove (take len (drop skip (bdata sfs1 b))) u;
          let iobuf = take skip (bdata sfs1 b) @ got @ drop (skip + len) (bdata sfs1 b);
          if result \<noteq> ESUCCESS then Some (result, sfs1, sv1, uio)
          else if uio_rw uio = UIO_WRITE then do {
             (result, dev) \<leftarrow> sfs_wblock (sfs_device sfs1) iobuf b;
             Some (result, sfs1\<lparr>sfs_device := dev\<rparr>, sv1, uio) }
          else Some (ESUCCESS, sfs1, sv1, uio) }"
        unfolding sfs_partialio_def using a bm Inr True r sk by (simp add: bdata_def cong: if_cong)
      then show thesis using that(2)[OF io b(1) b(2)] r b(3) by simp
    next
      case False
      have bn: "b < nblocks sfs1" using blockmap_valid[OF ok1(2), of fb] b False by (simp add: valid_block_def)
      obtain dev where dev: "sfs_rblock (sfs_device sfs1) (replicate 512 0) b = Some (ESUCCESS, secs sfs1 b, dev)"
        "dev_step sfs1 (sfs1\<lparr>sfs_device := dev\<rparr>)"
        using rblock_step[OF ok1(1) bn, of "replicate 512 0"] by auto
      define sfs2 where "sfs2 = sfs1\<lparr>sfs_device := dev\<rparr>"
      note d2 = dev_step_same[OF dev(2), folded sfs2_def]
      have io2: "io_step sfs sv sfs2 sv1" "fcontent sfs2 sv1 = fcontent sfs sv"
        using io_step_trans[OF io(1) dev_step_io[OF dev(2) ok1]] io(2) d2 by (simp_all add: sfs2_def)
      have b2: "b = blockmap sfs2 sv1 fb" "bdata sfs2 b = secs sfs1 b" using b d2 False by (simp_all add: bdata_def)
      show thesis
        using that(2)[OF io2 b2(1)] b(2,3) rw a bm Inr False dev(1) sk b2(2)
        by (simp add: sfs_partialio_def sfs2_def[symmetric])
    qed
  qed
qed

text \<open>
  The two ways a write of one block can end.  It fails for a reason: no block is left on the
  volume, the range goes past the largest file, or the caller's buffer cannot be read.
\<close>

definition wreason :: "nat \<Rightarrow> uio \<Rightarrow> errno \<Rightarrow> sfs_fs \<Rightarrow> bool" where
  "wreason len u r sfs' \<longleftrightarrow> (r = ENOSPC \<and> vol_full sfs')
     \<or> (r = EINVAL \<and> 143 * 512 < nat (uio_offset u) + len)
     \<or> (r = EFAULT \<and> 0 < len \<and> \<not> iov_room (iov_un u) len)"

lemma wreason_err: "wreason len u r sfs' \<Longrightarrow> r \<noteq> ESUCCESS"
  by (auto simp: wreason_def)

lemma wreason_mono: "wreason n u r sfs' \<Longrightarrow> n \<le> k \<Longrightarrow> wreason k u r sfs'"
  unfolding wreason_def using iov_room_mono[of "iov_un u" k n] by auto

lemma wreason_trans:
  assumes "wpre sfs sv u" "wrote n sfs sv u sfs1 sv1 u1" "wreason k u1 r sfs'"
  shows "wreason (n + k) u r sfs'"
proof -
  have "nat (uio_offset u1) = nat (uio_offset u) + n"
    using wrote_pos(1)[OF assms(1,2)] assms(1) by (simp add: wpre_def nat_add_distrib)
  moreover have "iov_un u1 = iov_skip (iov_un u) n" using assms(2) by (simp add: wrote_def)
  ultimately show ?thesis using assms(3) iov_room_skip[of "iov_un u" n k] by (auto simp: wreason_def)
qed

definition chunk_post :: "nat \<Rightarrow> sfs_fs \<Rightarrow> sfs_vnode \<Rightarrow> uio \<Rightarrow> (errno \<times> sfs_fs \<times> sfs_vnode \<times> uio) option \<Rightarrow> bool" where
  "chunk_post len sfs sv u out \<longleftrightarrow> (\<exists>r sfs' sv' u'. out = Some (r, sfs', sv', u')
     \<and> (r = ESUCCESS \<and> wrote len sfs sv u sfs' sv' u' \<or> wreason len u r sfs' \<and> wrote 0 sfs sv u sfs' sv' u'))"

lemma partialio_write:
  assumes "wpre sfs sv u" "0 < len" "len \<le> unat (uio_resid u)"
    and "nat (uio_offset u) mod 512 = skip" "skip + len \<le> 512"
  shows "chunk_post len sfs sv u (sfs_partialio sfs sv u (of_nat skip) (of_nat len))"
proof -
  obtain off where off: "uio_offset u = int off" "off + unat (uio_resid u) < 2 ^ 31"
    using wpre_off[OF assms(1)] .
  define fb where "fb = off div 512"
  have fb: "off = fb * 512 + skip" "off div 512 = fb" "off < 2 ^ 31" using assms(4) off by (auto simp: fb_def)
  have pre: "fs_ok sfs" "file_inv sfs sv" "uio_ok u" "uio_rw u = UIO_WRITE"
    using assms(1) by (simp_all add: wpre_def)
  show ?thesis
  proof (cases "fb < 143")
    case False
    have "unat (of_nat skip + of_nat len :: u32) = skip + len"
      using assms(5) by (simp add: unat_of_nat_u32 of_nat_add[symmetric] del: of_nat_add)
    then have "(of_nat skip + of_nat len :: u32) \<le> 512" using assms(5) by (simp add: word_le_nat_alt)
    then have "sfs_partialio sfs sv u (of_nat skip) (of_nat len) = Some (EINVAL, sfs, sv, u)"
      using False fb off file_block_nat[of off] by (simp add: sfs_partialio_def bmap_too_big)
    moreover have "wreason len u EINVAL sfs" using False fb(1) off(1) assms(2) by (simp add: wreason_def)
    ultimately show ?thesis using wrote_0[OF assms(1) io_step_refl[OF pre(1,2)] refl] by (simp add: chunk_post_def)
  next
    case True
    show ?thesis
      using pre(1,2) off(1) fb(3,2) True assms(5)
    proof (cases rule: partialio_mapped)
      case (nospace sfs1 sv1)
      then show ?thesis using wrote_0[OF assms(1) nospace(1,2)] by (simp add: chunk_post_def wreason_def)
    next
      case (mapped sfs2 sv1 b)
      have ok2: "fs_ok sfs2" "file_inv sfs2 sv1" using io_step_inv[OF mapped(1)] .
      define old where "old = bdata sfs2 b"
      have old: "length old = 512" using length_bdata[OF ok2, of fb] mapped(3) by (simp add: old_def)
      define ptr where "ptr = take len (drop skip old)"
      have ptr: "length ptr = len" "ptr \<noteq> []" "length ptr \<le> unat (uio_resid u)"
        using old assms(2,3,5) by (auto simp: ptr_def)
      note part = mapped(6)[folded old_def, folded ptr_def]
      show ?thesis
        using pre(3,4) ptr(2,3)
      proof (cases rule: uiomove_write)
        case (fault buf)
        then show ?thesis using part wrote_0[OF assms(1) mapped(1,2)] ptr(1) assms(2) by (simp add: chunk_post_def wreason_def)
      next
        case ok
        define d where "d = iov_bytes (iov_un u) len"
        define new where "new = take skip old @ d @ drop (skip + len) old"
        have d: "length d = len" and new: "length new = 512"
          using ok ptr old assms(5) by (simp_all add: d_def new_def)
        have b: "b \<noteq> 0" "b < nblocks sfs2"
          using mapped(3,4) pre(4) blockmap_valid[OF ok2(2), of fb] by (auto simp: valid_block_def)
        then obtain dev' where dev': "sfs_wblock (sfs_device sfs2) new b = Some (ESUCCESS, dev')"
          "lh_sectors dev' = (secs sfs2)(b := new)" "fs_ok (sfs2\<lparr>sfs_device := dev'\<rparr>)"
          "same_fs sfs2 (sfs2\<lparr>sfs_device := dev'\<rparr>)"
          using wblock_step[OF ok2(1) b(2) new] by metis
        note st = store_block[OF ok2 mapped(3) b(1) refl dev'(2-4)]
        have "fcontent (sfs2\<lparr>sfs_device := dev'\<rparr>) sv1 = patch (fcontent sfs2 sv1) off d"
          unfolding st(2) using d old assms(5) fb(1) fcontent_block[of _ sfs2 sv1 fb] mapped(3)
          by (intro block_patch[of skip d off fb "fcontent sfs2 sv1" old new]) (simp_all add: new_def old_def)
        then have "wrote len sfs sv u (sfs2\<lparr>sfs_device := dev'\<rparr>) sv1 (uio_adv u (iov_skip (iov_un u) len) len)"
          using io_step_trans[OF mapped(1) st(1)] mapped(2) assms(3) off d by (simp add: wrote_def d_def)
        moreover have "sfs_partialio sfs sv u (of_nat skip) (of_nat len)
            = Some (ESUCCESS, sfs2\<lparr>sfs_device := dev'\<rparr>, sv1, uio_adv u (iov_skip (iov_un u) len) len)"
          using part ok ptr(1) dev'(1) pre(4) by (simp add: new_def d_def)
        ultimately show ?thesis by (simp add: chunk_post_def)
      qed
    qed
  qed
qed

text \<open>
  A whole block goes to the device through the same uio, with the offset and the residue of the
  device operation, which are put back afterwards.
\<close>

definition disk_uio :: "u32 \<Rightarrow> uio \<Rightarrow> uio" where
  "disk_uio b u = u\<lparr>uio_offset := c_int (uint (b * 512)), uio_resid := 512\<rparr>"

definition undisk_uio :: "u32 \<Rightarrow> uio \<Rightarrow> uio \<Rightarrow> uio" where
  "undisk_uio b u u' = u'\<lparr>uio_offset := c_int (c_int (uio_offset u' - c_int (uint (b * 512))) + uio_offset u),
     uio_resid := uio_resid u' - 512 + word_of_int (c_int (uint (uio_resid u)))\<rparr>"

lemma c_int_word: "word_of_int (c_int x) = (word_of_int x :: u32)"
proof -
  have "c_int x mod 2 ^ 32 = x mod 2 ^ 32" by (simp add: c_int_def mod_simps)
  then show ?thesis by (simp add: word_of_int_eq_iff take_bit_eq_mod)
qed

lemma undisk_adv: "undisk_uio b u (uio_adv (disk_uio b u) base 512) = uio_adv u base 512"
proof -
  have "c_int (c_int (c_int (c_int x + 512) - c_int x) + y) = c_int (y + 512)" for x y
    by (simp add: c_int_def mod_simps algebra_simps)
  then show ?thesis by (simp add: undisk_uio_def uio_adv_def disk_uio_def c_int_word)
qed

lemma undisk_same:
  assumes "- (2 ^ 31) \<le> uio_offset u" "uio_offset u < 2 ^ 31"
  shows "undisk_uio b u ((disk_uio b u)\<lparr>iov_un := base\<rparr>) = u\<lparr>iov_un := base\<rparr>" "undisk_uio b u (disk_uio b u) = u"
  using assms by (simp_all add: undisk_uio_def disk_uio_def c_int_word c_int_id)

lemma disk_uio_block:
  assumes "fs_ok sfs" "b < nblocks sfs" "uio_ok u" "512 \<le> uio_resid u"
  shows "block_uio (sfs_device sfs) b (disk_uio b u)" "uio_rw (disk_uio b u) = uio_rw u"
    "iov_un (disk_uio b u) = iov_un u"
proof -
  have blk: "blk_ok (sfs_device sfs) b" using blk_ok_valid[OF assms(1,2)] .
  then have "uint b * 512 < 2 ^ 31" "0 \<le> uint b" by (simp_all add: blk_ok_def)
  moreover from this have "uint (b * 512) = uint b * 512" by (simp add: uint_word_ariths)
  moreover have "c_int (uint b * 512) = uint b * 512"
    using calculation(1,2) by (intro c_int_id) linarith+
  ultimately have off: "c_int (uint (b * 512)) = 512 * uint b" by simp
  have "512 \<le> unat (uio_resid u)" using assms(4) by (simp add: word_le_nat_alt)
  then have "uio_ok (disk_uio b u)"
    using assms(3,4) by (auto simp: uio_ok_def disk_uio_def split: iov_base.splits intro: no_ro_mono)
  then show "block_uio (sfs_device sfs) b (disk_uio b u)"
    using off blk by (simp add: block_uio_def disk_uio_def blk_ok_def)
  show "uio_rw (disk_uio b u) = uio_rw u" "iov_un (disk_uio b u) = iov_un u"
    by (simp_all add: disk_uio_def)
qed

lemma blockio_mapped:
  assumes "fs_ok sfs" "file_inv sfs sv" "uio_offset u = int off" "off < 2 ^ 31" "off div 512 = fb" "fb < 143"
    and "512 \<le> uio_resid u"
  obtains (nospace) sfs1 sv1 where "io_step sfs sv sfs1 sv1" "fcontent sfs1 sv1 = fcontent sfs sv"
      "uio_rw u = UIO_WRITE" "vol_full sfs1" "sfs_blockio sfs sv u = Some (ENOSPC, sfs1, sv1, u)"
  | (hole) sfs1 where "io_step sfs sv sfs1 sv" "fcontent sfs1 sv = fcontent sfs sv" "uio_rw u = UIO_READ"
      "blockmap sfs1 sv fb = 0"
      "sfs_blockio sfs sv u = do { (result, uio) \<leftarrow> uiomovezeros 512 u; Some (result, sfs1, sv, uio) }"
  | (disk) sfs1 sv1 b where "io_step sfs sv sfs1 sv1" "fcontent sfs1 sv1 = fcontent sfs sv"
      "b = blockmap sfs1 sv1 fb" "b \<noteq> 0" "uio_rw u = UIO_READ \<Longrightarrow> sv1 = sv"
      "sfs_blockio sfs sv u = do {
         (result, dev, uio) \<leftarrow> sfs_rwblock (sfs_device sfs1) (disk_uio b u);
         Some (result, sfs1\<lparr>sfs_device := dev\<rparr>, sv1, undisk_uio b u uio) }"
proof -
  have fb: "unat (file_block (uio_offset u)) = fb" using assms(3-5) file_block_nat[of off] by simp
  let ?w = "uio_rw u = UIO_WRITE"
  have rw: "\<not> ?w \<longleftrightarrow> uio_rw u = UIO_READ" by (cases "uio_rw u") simp_all
  obtain res sfs1 sv1 where bm: "sfs_bmap sfs sv (file_block (uio_offset u)) ?w = Some (res, sfs1, sv1)"
    and post: "bmap_post sfs sv fb ?w res sfs1 sv1"
    using bmap_ok[OF assms(1,2), of "file_block (uio_offset u)" ?w] fb assms(6) by auto
  have io: "io_step sfs sv sfs1 sv1" "fcontent sfs1 sv1 = fcontent sfs sv"
    using post by (simp_all add: bmap_post_def)
  show thesis
  proof (cases res)
    case (Inl e)
    then show thesis using that(1)[OF io] bm post by (auto simp: sfs_blockio_def bmap_post_def)
  next
    case (Inr b)
    then have b: "b = blockmap sfs1 sv1 fb" "?w \<Longrightarrow> b \<noteq> 0" "\<not> ?w \<Longrightarrow> sv1 = sv"
      using post by (auto simp: bmap_post_def)
    show thesis
    proof (cases "b = 0")
      case True
      then have r: "uio_rw u = UIO_READ" "sv1 = sv" using b rw by auto
      then show thesis using that(2)[of sfs1] io b bm Inr True by (simp add: sfs_blockio_def)
    next
      case False
      then show thesis using that(3)[OF io b(1) False] b(3) rw bm Inr assms(7)
        by (simp add: sfs_blockio_def disk_uio_def undisk_uio_def Let_def)
    qed
  qed
qed

lemma blockio_write:
  assumes "wpre sfs sv u" "512 \<le> unat (uio_resid u)" "nat (uio_offset u) mod 512 = 0"
  shows "chunk_post 512 sfs sv u (sfs_blockio sfs sv u)"
proof -
  obtain off where off: "uio_offset u = int off" "off + unat (uio_resid u) < 2 ^ 31"
    using wpre_off[OF assms(1)] .
  define fb where "fb = off div 512"
  have fb: "off = fb * 512" "off div 512 = fb" "off < 2 ^ 31" using assms(3) off by (auto simp: fb_def)
  have pre: "fs_ok sfs" "file_inv sfs sv" "uio_ok u" "uio_rw u = UIO_WRITE"
    using assms(1) by (simp_all add: wpre_def)
  have res: "512 \<le> uio_resid u" using assms(2) by (simp add: word_le_nat_alt)
  show ?thesis
  proof (cases "fb < 143")
    case False
    then have "sfs_blockio sfs sv u = Some (EINVAL, sfs, sv, u)"
      using fb off file_block_nat[of off] by (simp add: sfs_blockio_def bmap_too_big)
    moreover have "wreason 512 u EINVAL sfs" using False fb(1) off(1) by (simp add: wreason_def)
    ultimately show ?thesis using wrote_0[OF assms(1) io_step_refl[OF pre(1,2)] refl] by (simp add: chunk_post_def)
  next
    case True
    show ?thesis
      using pre(1,2) off(1) fb(3,2) True res
    proof (cases rule: blockio_mapped)
      case (nospace sfs1 sv1)
      then show ?thesis using wrote_0[OF assms(1) nospace(1,2)] by (simp add: chunk_post_def wreason_def)
    next
      case (hole sfs1)
      then show ?thesis using pre(4) by simp
    next
      case (disk sfs1 sv1 b)
      have ok1: "fs_ok sfs1" "file_inv sfs1 sv1" using io_step_inv[OF disk(1)] .
      have bn: "b < nblocks sfs1" using blockmap_valid[OF ok1(2), of fb] disk(3,4) by (simp add: valid_block_def)
      note du = disk_uio_block[OF ok1(1) bn pre(3) res]
      have rwd: "uio_rw (disk_uio b u) = UIO_WRITE" using du(2) pre(4) by simp
      have st0: "op_state (sfs_device sfs1) 0 = LHD_OK" using fs_ok_dev[OF ok1(1)] by (simp add: lhd_good_def)
      show ?thesis
        using fs_ok_dev(1)[OF ok1(1)] du(1) rwd st0
      proof (cases rule: sector_write_ok)
        case (ok dev)
        define d where "d = iov_bytes (iov_un u) 512"
        define sfs2 where "sfs2 = sfs1\<lparr>sfs_device := dev\<rparr>"
        have d: "length d = 512" "lh_sectors dev = (secs sfs1)(b := d)" using ok du(3) by (simp_all add: d_def)
        have same: "fs_ok sfs2" "same_fs sfs1 sfs2"
          using fs_ok_device[OF ok1(1) ok(2)] ok(2) by (simp_all add: sfs2_def same_fs_def lhd_after_def)
        note st = store_block[OF ok1 disk(3,4) sfs2_def d(2) same]
        have "fcontent sfs2 sv1 = patch (fcontent sfs1 sv1) off d"
          unfolding st(2) using d length_bdata[OF ok1, of fb] fcontent_block[of _ sfs1 sv1 fb] fb(1)
          by (intro block_patch[of 0 d off fb "fcontent sfs1 sv1" "bdata sfs1 (blockmap sfs1 sv1 fb)"]) simp_all
        then have "wrote 512 sfs sv u sfs2 sv1 (uio_adv u (iov_skip (iov_un u) 512) 512)"
          using io_step_trans[OF disk(1) st(1)] disk(2) assms(2) off d by (simp add: wrote_def d_def)
        moreover have "sfs_blockio sfs sv u = Some (ESUCCESS, sfs2, sv1, uio_adv u (iov_skip (iov_un u) 512) 512)"
          using disk(6) sfs_rwblock_ok[OF ok(1)] du(3) by (simp add: sfs2_def undisk_adv)
        ultimately show ?thesis by (simp add: chunk_post_def)
      next
        case (fault dev)
        define sfs2 where "sfs2 = sfs1\<lparr>sfs_device := dev\<rparr>"
        have ds: "dev_step sfs1 sfs2" using fault by (auto simp: dev_step_def sfs2_def)
        have "io_step sfs sv sfs2 sv1" "fcontent sfs2 sv1 = fcontent sfs sv"
          using io_step_trans[OF disk(1) dev_step_io[OF ds ok1]] dev_step_same(2)[OF ds] disk(2) by simp_all
        then have "wrote 0 sfs sv u sfs2 sv1 u" using wrote_0[OF assms(1)] by blast
        moreover have "sfs_blockio sfs sv u = Some (EFAULT, sfs2, sv1, u)"
          using disk(6) sfs_rwblock_ok[OF fault(1)] undisk_same(2)[of u b] off by (simp add: sfs2_def)
        moreover have "wreason 512 u EFAULT sfs2" using fault du(3) by (simp add: wreason_def)
        ultimately show ?thesis by (simp add: chunk_post_def)
      qed
    qed
  qed
qed

section \<open>From blocks to ranges\<close>

text \<open>
  The body of \<open>sfs_io\<close> splits a range into a leading partial block, whole blocks and a trailing
  partial block.  The argument is the same for both directions: it needs what one chunk does, that
  finished chunks compose, and that stopping in a later chunk is stopping in the whole.
\<close>

type_synonym io_out = "(errno \<times> sfs_fs \<times> sfs_vnode \<times> uio) option"

definition outcome :: "(nat \<Rightarrow> sfs_fs \<Rightarrow> sfs_vnode \<Rightarrow> uio \<Rightarrow> sfs_fs \<Rightarrow> sfs_vnode \<Rightarrow> uio \<Rightarrow> bool)
    \<Rightarrow> (nat \<Rightarrow> sfs_fs \<Rightarrow> sfs_vnode \<Rightarrow> uio \<Rightarrow> errno \<Rightarrow> sfs_fs \<Rightarrow> sfs_vnode \<Rightarrow> uio \<Rightarrow> bool)
    \<Rightarrow> nat \<Rightarrow> sfs_fs \<Rightarrow> sfs_vnode \<Rightarrow> uio \<Rightarrow> io_out \<Rightarrow> bool" where
  "outcome moved stop len sfs sv u out \<longleftrightarrow> (\<exists>r sfs' sv' u'. out = Some (r, sfs', sv', u')
     \<and> (r = ESUCCESS \<and> moved len sfs sv u sfs' sv' u' \<or> r \<noteq> ESUCCESS \<and> stop len sfs sv u r sfs' sv' u'))"

text \<open>The body after the leading partial block.\<close>

definition io_aligned :: "sfs_fs \<Rightarrow> sfs_vnode \<Rightarrow> uio \<Rightarrow> io_out" where
  "io_aligned sfs sv uio =
     (if uio_resid uio = 0 then Some (ESUCCESS, sfs, sv, uio)
      else do {
        kassert (c_rem (uio_offset uio) 512 = 0);
        (result, sfs, sv, uio) \<leftarrow> sfs_blocks (unat (uio_resid uio div 512)) sfs sv uio;
        if result \<noteq> ESUCCESS then Some (result, sfs, sv, uio)
        else do {
          kassert (uio_resid uio < 512);
          if uio_resid uio > 0 then sfs_partialio sfs sv uio 0 (uio_resid uio)
          else Some (ESUCCESS, sfs, sv, uio) } })"

lemma io_body_split:
  "sfs_io_body sfs sv u =
     (if word_of_int (c_rem (uio_offset u) 512) \<noteq> (0 :: u32)
      then sfs_partialio sfs sv u (word_of_int (c_rem (uio_offset u) 512))
             (min (512 - word_of_int (c_rem (uio_offset u) 512)) (uio_resid u))
      else Some (ESUCCESS, sfs, sv, u))
     \<bind> (\<lambda>(r, sfs, sv, u). if r \<noteq> ESUCCESS then Some (r, sfs, sv, u) else io_aligned sfs sv u)"
  unfolding sfs_io_body_def io_aligned_def Let_def ..

lemma blkoff_nat:
  "word_of_int (c_rem (int off) 512) = (of_nat (off mod 512) :: u32)"
  "c_rem (int off) 512 = 0 \<longleftrightarrow> off mod 512 = 0"
proof -
  have e: "c_rem (int off) 512 = int (off mod 512)" by (simp add: zmod_int)
  show "word_of_int (c_rem (int off) 512) = (of_nat (off mod 512) :: u32)"
    "c_rem (int off) 512 = 0 \<longleftrightarrow> off mod 512 = 0" unfolding e by simp_all
qed

locale chunked_io =
  fixes pre :: "sfs_fs \<Rightarrow> sfs_vnode \<Rightarrow> uio \<Rightarrow> bool"
    and moved :: "nat \<Rightarrow> sfs_fs \<Rightarrow> sfs_vnode \<Rightarrow> uio \<Rightarrow> sfs_fs \<Rightarrow> sfs_vnode \<Rightarrow> uio \<Rightarrow> bool"
    and stop :: "nat \<Rightarrow> sfs_fs \<Rightarrow> sfs_vnode \<Rightarrow> uio \<Rightarrow> errno \<Rightarrow> sfs_fs \<Rightarrow> sfs_vnode \<Rightarrow> uio \<Rightarrow> bool"
  assumes off_pos: "pre sfs sv u \<Longrightarrow> 0 \<le> uio_offset u"
    and moved_0: "pre sfs sv u \<Longrightarrow> moved 0 sfs sv u sfs sv u"
    and moved_pos: "pre sfs sv u \<Longrightarrow> moved n sfs sv u sfs' sv' u' \<Longrightarrow>
      uio_offset u' = uio_offset u + int n \<and> unat (uio_resid u') = unat (uio_resid u) - n \<and> pre sfs' sv' u'"
    and moved_trans: "pre sfs sv u \<Longrightarrow> moved n sfs sv u sfs1 sv1 u1 \<Longrightarrow> moved k sfs1 sv1 u1 sfs' sv' u' \<Longrightarrow>
      moved (n + k) sfs sv u sfs' sv' u'"
    and stop_trans: "pre sfs sv u \<Longrightarrow> moved n sfs sv u sfs1 sv1 u1 \<Longrightarrow> stop k sfs1 sv1 u1 r sfs' sv' u' \<Longrightarrow>
      stop (n + k) sfs sv u r sfs' sv' u'"
    and stop_mono: "stop n sfs sv u r sfs' sv' u' \<Longrightarrow> n \<le> k \<Longrightarrow> k \<le> unat (uio_resid u) \<Longrightarrow>
      stop k sfs sv u r sfs' sv' u'"
    and partial: "pre sfs sv u \<Longrightarrow> 0 < len \<Longrightarrow> len \<le> unat (uio_resid u) \<Longrightarrow> nat (uio_offset u) mod 512 = skip \<Longrightarrow>
      skip + len \<le> 512 \<Longrightarrow> outcome moved stop len sfs sv u (sfs_partialio sfs sv u (of_nat skip) (of_nat len))"
    and whole: "pre sfs sv u \<Longrightarrow> 512 \<le> unat (uio_resid u) \<Longrightarrow> nat (uio_offset u) mod 512 = 0 \<Longrightarrow>
      outcome moved stop 512 sfs sv u (sfs_blockio sfs sv u)"
begin

lemma outcome_0: "pre sfs sv u \<Longrightarrow> outcome moved stop 0 sfs sv u (Some (ESUCCESS, sfs, sv, u))"
  using moved_0 by (simp add: outcome_def)

text \<open>Going on after a successful first part.\<close>

lemma outcome_bind:
  assumes "pre sfs sv u" "outcome moved stop n sfs sv u out" "n + k \<le> unat (uio_resid u)"
    and "\<And>sfs1 sv1 u1. moved n sfs sv u sfs1 sv1 u1 \<Longrightarrow> pre sfs1 sv1 u1 \<Longrightarrow>
           uio_offset u1 = uio_offset u + int n \<Longrightarrow> unat (uio_resid u1) = unat (uio_resid u) - n \<Longrightarrow>
           outcome moved stop k sfs1 sv1 u1 (f sfs1 sv1 u1)"
  shows "outcome moved stop (n + k) sfs sv u
    (out \<bind> (\<lambda>(r, sfs, sv, u). if r \<noteq> ESUCCESS then Some (r, sfs, sv, u) else f sfs sv u))"
proof -
  obtain r sfs1 sv1 u1 where out: "out = Some (r, sfs1, sv1, u1)"
    and c: "r = ESUCCESS \<and> moved n sfs sv u sfs1 sv1 u1 \<or> r \<noteq> ESUCCESS \<and> stop n sfs sv u r sfs1 sv1 u1"
    using assms(2) unfolding outcome_def by blast
  show ?thesis
  proof (cases "r = ESUCCESS")
    case False
    then have "stop (n + k) sfs sv u r sfs1 sv1 u1" using c stop_mono assms(3) by auto
    then show ?thesis using False out by (simp add: outcome_def)
  next
    case True
    then have w: "moved n sfs sv u sfs1 sv1 u1" using c by simp
    have "outcome moved stop k sfs1 sv1 u1 (f sfs1 sv1 u1)"
      using assms(4)[OF w] moved_pos[OF assms(1) w] by blast
    then show ?thesis using True out moved_trans[OF assms(1) w] stop_trans[OF assms(1) w]
      by (auto simp: outcome_def)
  qed
qed

lemma blocks:
  assumes "pre sfs sv u" "n * 512 \<le> unat (uio_resid u)" "nat (uio_offset u) mod 512 = 0"
  shows "outcome moved stop (n * 512) sfs sv u (sfs_blocks n sfs sv u)"
  using assms
proof (induction n arbitrary: sfs sv u)
  case 0
  then show ?case using outcome_0 by simp
next
  case (Suc n)
  have "outcome moved stop (512 + n * 512) sfs sv u
      (sfs_blockio sfs sv u \<bind> (\<lambda>(r, sfs, sv, u). if r \<noteq> ESUCCESS then Some (r, sfs, sv, u) else sfs_blocks n sfs sv u))"
  proof (rule outcome_bind[OF Suc.prems(1)])
    show "outcome moved stop 512 sfs sv u (sfs_blockio sfs sv u)" using Suc.prems by (intro whole) auto
    fix sfs1 sv1 u1 assume p: "pre sfs1 sv1 u1" "uio_offset u1 = uio_offset u + int 512"
      "unat (uio_resid u1) = unat (uio_resid u) - 512"
    have "nat (uio_offset u1) = nat (uio_offset u) + 512"
      using p(2) off_pos[OF Suc.prems(1)] by (simp add: nat_add_distrib)
    then show "outcome moved stop (n * 512) sfs1 sv1 u1 (sfs_blocks n sfs1 sv1 u1)"
      using Suc.IH[OF p(1)] p(3) Suc.prems(2,3) by simp
  qed (use Suc.prems in simp)
  then show ?case by simp
qed

lemma aligned:
  assumes "pre sfs sv u" "nat (uio_offset u) mod 512 = 0"
  shows "outcome moved stop (unat (uio_resid u)) sfs sv u (io_aligned sfs sv u)"
proof (cases "uio_resid u = 0")
  case True
  then show ?thesis using outcome_0[OF assms(1)] by (simp add: io_aligned_def)
next
  case False
  define n where "n = unat (uio_resid u) div 512"
  define k where "k = unat (uio_resid u) mod 512"
  have nk: "n * 512 + k = unat (uio_resid u)" "k < 512" "unat (uio_resid u div 512) = n"
    by (simp_all add: n_def k_def unat_div)
  have "c_rem (uio_offset u) 512 = 0"
    using assms(2) off_pos[OF assms(1)] blkoff_nat(2)[of "nat (uio_offset u)"] by simp
  then have "io_aligned sfs sv u = sfs_blocks n sfs sv u \<bind> (\<lambda>(r, sfs, sv, u).
      if r \<noteq> ESUCCESS then Some (r, sfs, sv, u)
      else do {
        kassert (uio_resid u < 512);
        if uio_resid u > 0 then sfs_partialio sfs sv u 0 (uio_resid u)
        else Some (ESUCCESS, sfs, sv, u) })"
    using False nk(3) by (simp add: io_aligned_def)
  also have "outcome moved stop (n * 512 + k) sfs sv u \<dots>"
  proof (rule outcome_bind[OF assms(1)])
    show "outcome moved stop (n * 512) sfs sv u (sfs_blocks n sfs sv u)"
      using assms nk by (intro blocks) simp_all
    fix sfs1 sv1 u1 assume p: "pre sfs1 sv1 u1" "uio_offset u1 = uio_offset u + int (n * 512)"
      "unat (uio_resid u1) = unat (uio_resid u) - n * 512"
    have res: "unat (uio_resid u1) = k" using p(3) nk by simp
    then have lt: "uio_resid u1 < 512" using nk by (simp add: word_less_nat_alt)
    have "nat (uio_offset u1) = nat (uio_offset u) + n * 512"
      using p(2) off_pos[OF assms(1)] by (simp add: nat_add_distrib)
    then have al: "nat (uio_offset u1) mod 512 = 0" using assms(2) by simp
    show "outcome moved stop k sfs1 sv1 u1 (do {
        kassert (uio_resid u1 < 512);
        if uio_resid u1 > 0 then sfs_partialio sfs1 sv1 u1 0 (uio_resid u1)
        else Some (ESUCCESS, sfs1, sv1, u1) })"
    proof (cases "k = 0")
      case True
      then have "uio_resid u1 = 0" using res by (simp add: unat_eq_zero)
      then show ?thesis using True outcome_0[OF p(1)] by simp
    next
      case False
      have "outcome moved stop k sfs1 sv1 u1 (sfs_partialio sfs1 sv1 u1 (of_nat 0) (of_nat k))"
        using False res nk al by (intro partial[OF p(1)]) simp_all
      moreover have "uio_resid u1 > 0" using False res by (simp add: word_gt_0 unat_eq_zero[symmetric])
      ultimately show ?thesis using lt res[symmetric] by simp
    qed
  qed (simp add: nk)
  finally show ?thesis using nk by simp
qed

lemma body:
  assumes "pre sfs sv u" "0 < uio_resid u"
  shows "outcome moved stop (unat (uio_resid u)) sfs sv u (sfs_io_body sfs sv u)"
proof -
  define off where "off = nat (uio_offset u)"
  have off: "uio_offset u = int off" using off_pos[OF assms(1)] by (simp add: off_def)
  define skip where "skip = off mod 512"
  have skip: "skip < 512" "nat (uio_offset u) mod 512 = skip" by (simp_all add: skip_def off)
  have sw: "unat (of_nat skip :: u32) = skip" using skip by (simp add: unat_of_nat_u32)
  show ?thesis
  proof (cases "skip = 0")
    case True
    then show ?thesis using aligned[OF assms(1)] skip(2)
      unfolding io_body_split off blkoff_nat(1) skip_def[symmetric] by simp
  next
    case False
    define len where "len = min (512 - skip) (unat (uio_resid u))"
    have r0: "0 < unat (uio_resid u)" using assms(2) by (simp add: word_gt_0 unat_gt_0)
    have len: "0 < len" "len \<le> unat (uio_resid u)" "skip + len \<le> 512" using skip r0 by (auto simp: len_def)
    have "unat (512 - of_nat skip :: u32) = 512 - skip" using skip sw by (simp add: unat_sub word_le_nat_alt)
    then have "unat (min (512 - of_nat skip) (uio_resid u)) = len" by (simp add: len_def min_def word_le_nat_alt)
    then have lw: "min (512 - of_nat skip) (uio_resid u) = of_nat len" by (metis of_nat_unat_u32)
    have nz: "(of_nat skip :: u32) \<noteq> 0" using False sw by (metis unat_0)
    have "outcome moved stop (len + (unat (uio_resid u) - len)) sfs sv u (sfs_partialio sfs sv u (of_nat skip) (of_nat len)
        \<bind> (\<lambda>(r, sfs, sv, u). if r \<noteq> ESUCCESS then Some (r, sfs, sv, u) else io_aligned sfs sv u))"
    proof (rule outcome_bind[OF assms(1) partial[OF assms(1) len(1,2) skip(2) len(3)]])
      fix sfs1 sv1 u1 assume p: "pre sfs1 sv1 u1" "uio_offset u1 = uio_offset u + int len"
        "unat (uio_resid u1) = unat (uio_resid u) - len"
      show "outcome moved stop (unat (uio_resid u) - len) sfs1 sv1 u1 (io_aligned sfs1 sv1 u1)"
      proof (cases "uio_resid u1 = 0")
        case True
        then show ?thesis using p(3) outcome_0[OF p(1)] by (simp add: io_aligned_def)
      next
        case False
        then have "0 < unat (uio_resid u1)" by (simp add: unat_gt_0)
        then have "len = 512 - skip" using p(3) by (auto simp: len_def)
        then have "nat (uio_offset u1) = off + (512 - skip)" using p(2) off by simp
        moreover obtain q where "off = q * 512 + skip" using div_mult_mod_eq[of off 512] skip_def by metis
        then have "off + (512 - skip) = (q + 1) * 512" using skip(1) by simp
        ultimately have "nat (uio_offset u1) mod 512 = 0" by (metis mod_mult_self2_is_0)
        then show ?thesis using aligned[OF p(1)] p(3) by simp
      qed
    qed (use len in simp)
    then show ?thesis using len(2) nz lw
      unfolding io_body_split off blkoff_nat(1) skip_def[symmetric] by simp
  qed
qed

end

text \<open>Writing is chunked I/O: a write that stops has written a prefix.\<close>

definition wstop :: "nat \<Rightarrow> sfs_fs \<Rightarrow> sfs_vnode \<Rightarrow> uio \<Rightarrow> errno \<Rightarrow> sfs_fs \<Rightarrow> sfs_vnode \<Rightarrow> uio \<Rightarrow> bool" where
  "wstop len sfs sv u r sfs' sv' u' \<longleftrightarrow> wreason len u r sfs' \<and> (\<exists>k\<le>len. wrote k sfs sv u sfs' sv' u')"

lemma chunk_outcome: "chunk_post len sfs sv u out \<Longrightarrow> outcome wrote wstop len sfs sv u out"
  unfolding chunk_post_def outcome_def wstop_def using wreason_err by (metis le0)

interpretation writing: chunked_io wpre wrote wstop
proof (unfold_locales, goal_cases)
  case (1 sfs sv u)
  then show ?case by (simp add: wpre_def)
next
  case (2 sfs sv u)
  then show ?case using wrote_0 io_step_refl by (simp add: wpre_def)
next
  case (3 sfs sv u n sfs' sv' u')
  show ?case using wrote_pos[OF 3] by simp
next
  case (4 sfs sv u n sfs1 sv1 u1 k sfs' sv' u')
  then show ?case by (rule wrote_trans)
next
  case (5 sfs sv u n sfs1 sv1 u1 k r sfs' sv' u')
  then show ?case unfolding wstop_def by (meson wrote_trans wreason_trans nat_add_left_cancel_le)
next
  case (6 n sfs sv u r sfs' sv' u' k)
  then show ?case unfolding wstop_def by (meson le_trans wreason_mono)
next
  case (7 sfs sv u len skip)
  then show ?case by (intro chunk_outcome partialio_write)
next
  case (8 sfs sv u)
  then show ?case by (intro chunk_outcome blockio_write)
qed

end
