(* ===== verification/Sfs_Rw.thy ===== *)
theory Sfs_Rw
  imports Sfs_Io
begin

text \<open>
  Reading files, and the correctness of \<open>sfs_read\<close> and \<open>sfs_write\<close> as a whole: what they
  transfer, what the file holds afterwards, and that what was written is what is read.
\<close>

section \<open>Reading\<close>

definition rpre :: "sfs_fs \<Rightarrow> sfs_vnode \<Rightarrow> uio \<Rightarrow> bool" where
  "rpre sfs sv u \<longleftrightarrow> fs_ok sfs \<and> file_inv sfs sv \<and> uio_ok u \<and> uio_rw u = UIO_READ
     \<and> 0 \<le> uio_offset u \<and> nat (uio_offset u) + unat (uio_resid u) \<le> 143 * 512"

definition quiet :: "sfs_fs \<Rightarrow> sfs_vnode \<Rightarrow> sfs_fs \<Rightarrow> sfs_vnode \<Rightarrow> bool" where
  "quiet sfs sv sfs' sv' \<longleftrightarrow> io_step sfs sv sfs' sv' \<and> sv' = sv \<and> fcontent sfs' sv = fcontent sfs sv"

definition gave :: "nat \<Rightarrow> sfs_fs \<Rightarrow> sfs_vnode \<Rightarrow> uio \<Rightarrow> sfs_fs \<Rightarrow> sfs_vnode \<Rightarrow> uio \<Rightarrow> bool" where
  "gave n sfs sv u sfs' sv' u' \<longleftrightarrow> quiet sfs sv sfs' sv' \<and> n \<le> unat (uio_resid u)
     \<and> u' = uio_adv u (iov_store (iov_un u) (frange (fcontent sfs sv) (nat (uio_offset u)) n)) n"

text \<open>A read that stops: some bytes were moved, and some more may have been stored past them.\<close>

definition rstop :: "nat \<Rightarrow> sfs_fs \<Rightarrow> sfs_vnode \<Rightarrow> uio \<Rightarrow> errno \<Rightarrow> sfs_fs \<Rightarrow> sfs_vnode \<Rightarrow> uio \<Rightarrow> bool" where
  "rstop len sfs sv u r sfs' sv' u' \<longleftrightarrow> quiet sfs sv sfs' sv' \<and> r = EFAULT \<and> \<not> iov_room (iov_un u) len
     \<and> (\<exists>j k. j + k < len \<and> len \<le> unat (uio_resid u)
          \<and> u' = spilled u (frange (fcontent sfs sv) (nat (uio_offset u)) j)
                           (frange (fcontent sfs sv) (nat (uio_offset u) + j) k))"

lemma rpre_off:
  assumes "rpre sfs sv u" obtains off where "uio_offset u = int off" "off + unat (uio_resid u) \<le> 143 * 512"
  using assms that[of "nat (uio_offset u)"] by (simp add: rpre_def)

lemma quiet_trans: "quiet sfs sv sfs1 sv1 \<Longrightarrow> quiet sfs1 sv1 sfs' sv' \<Longrightarrow> quiet sfs sv sfs' sv'"
  unfolding quiet_def using io_step_trans by metis

lemma take_frange: "take k (frange f off n) = frange f off (min k n)"
  by (simp add: frange_def take_map min_def)

lemma gave_pos:
  assumes "rpre sfs sv u" "gave n sfs sv u sfs' sv' u'"
  shows "uio_offset u' = uio_offset u + int n" "unat (uio_resid u') = unat (uio_resid u) - n"
    "rpre sfs' sv' u'"
proof -
  have n: "n \<le> unat (uio_resid u)" and q: "quiet sfs sv sfs' sv'"
    and u': "u' = uio_adv u (iov_store (iov_un u) (frange (fcontent sfs sv) (nat (uio_offset u)) n)) n"
    using assms(2) by (simp_all add: gave_def)
  obtain off0 where o: "uio_offset u = int off0" "off0 + unat (uio_resid u) \<le> 143 * 512"
    using rpre_off[OF assms(1)] .
  then have "int off0 + int n < 2 ^ 31" using n by simp
  then show off: "uio_offset u' = uio_offset u + int n" using o(1) by (simp add: u' c_int_id)
  show res: "unat (uio_resid u') = unat (uio_resid u) - n" using n by (simp add: u' unat_sub_u32)
  have "uio_ok u'"
    using uio_ok_store[of u "frange (fcontent sfs sv) (nat (uio_offset u)) n"] assms(1) n
    by (simp add: rpre_def u')
  moreover have "fs_ok sfs'" "file_inv sfs' sv'" using q io_step_inv by (auto simp: quiet_def)
  ultimately show "rpre sfs' sv' u'"
    using assms(1) off res o n by (simp add: rpre_def u' nat_int_add)
qed

lemma gaveD:
  assumes "gave n sfs sv u sfs1 sv1 u1"
  shows "n \<le> unat (uio_resid u)" "u1 = uio_adv u (iov_store (iov_un u) (frange (fcontent sfs sv) (nat (uio_offset u)) n)) n"
    "fcontent sfs1 sv1 = fcontent sfs sv" "quiet sfs sv sfs1 sv1"
  using assms by (auto simp: gave_def quiet_def)

lemma gave_trans:
  assumes "rpre sfs sv u" "gave n sfs sv u sfs1 sv1 u1" "gave k sfs1 sv1 u1 sfs' sv' u'"
  shows "gave (n + k) sfs sv u sfs' sv' u'"
proof -
  let ?f = "fcontent sfs sv" let ?off = "nat (uio_offset u)"
  note n = gaveD(1)[OF assms(2)] and u1 = gaveD(2)[OF assms(2)] and f1 = gaveD(3,4)[OF assms(2)]
  have o1: "nat (uio_offset u1) = ?off + n"
    using gave_pos(1)[OF assms(1,2)] assms(1) by (simp add: rpre_def nat_add_distrib)
  have k: "n + k \<le> unat (uio_resid u)" using gaveD(1)[OF assms(3)] gave_pos(2)[OF assms(1,2)] n by linarith
  have "u' = uio_adv u1 (iov_store (iov_un u1) (frange ?f (?off + n) k)) k"
    using gaveD(2)[OF assms(3)] unfolding f1(1) o1 .
  moreover have "iov_store (iov_un u1) (frange ?f (?off + n) k) = iov_store (iov_un u) (frange ?f ?off (n + k))"
    using uio_ok_append[of u "frange ?f ?off n" "frange ?f (?off + n) k"] assms(1) k
    by (simp add: u1 rpre_def frange_add)
  ultimately show ?thesis
    using k quiet_trans[OF f1(2)] assms(3) by (simp add: gave_def u1)
qed

lemma gave_rstop:
  assumes "rpre sfs sv u" "gave n sfs sv u sfs1 sv1 u1" "rstop k sfs1 sv1 u1 r sfs' sv' u'"
  shows "rstop (n + k) sfs sv u r sfs' sv' u'"
proof -
  let ?f = "fcontent sfs sv" let ?off = "nat (uio_offset u)"
  note n = gaveD(1)[OF assms(2)] and u1 = gaveD(2)[OF assms(2)] and f1 = gaveD(3,4)[OF assms(2)]
  have o1: "nat (uio_offset u1) = ?off + n"
    using gave_pos(1)[OF assms(1,2)] assms(1) by (simp add: rpre_def nat_add_distrib)
  obtain j i where ji: "j + i < k" "k \<le> unat (uio_resid u1)"
    "u' = spilled u1 (frange ?f (?off + n) j) (frange ?f (?off + n + j) i)"
    using assms(3) by (auto simp: rstop_def f1 o1)
  have k: "n + k \<le> unat (uio_resid u)" using ji(2) gave_pos(2)[OF assms(1,2)] n by simp
  have "u' = spilled u (frange ?f ?off (n + j)) (frange ?f (?off + (n + j)) i)"
    using spilled_append[of u "frange ?f ?off n" "frange ?f (?off + n) j"] assms(1) k ji
    by (simp add: u1 rpre_def frange_add add.assoc)
  moreover have "\<not> iov_room (iov_un u) (n + k)"
    using iov_room_store[of "iov_un u" "frange ?f ?off n" k] assms(3) ji(1) by (auto simp: rstop_def u1)
  moreover have "n + j + i < n + k" using ji(1) by simp
  ultimately show ?thesis
    using k quiet_trans[OF f1(2)] assms(3) unfolding rstop_def by blast
qed

lemma rstop_mono:
  assumes "rstop n sfs sv u r sfs' sv' u'" "n \<le> k" "k \<le> unat (uio_resid u)"
  shows "rstop k sfs sv u r sfs' sv' u'"
proof -
  obtain j i where "j + i < n" "u' = spilled u (frange (fcontent sfs sv) (nat (uio_offset u)) j)
      (frange (fcontent sfs sv) (nat (uio_offset u) + j) i)"
    using assms(1) unfolding rstop_def by blast
  moreover from this have "j + i < k" using assms(2) by simp
  moreover have "\<not> iov_room (iov_un u) k" using assms(1,2) iov_room_mono unfolding rstop_def by blast
  ultimately show ?thesis using assms(1,3) unfolding rstop_def by blast
qed

lemma rstop_0:
  assumes "quiet sfs sv sfs' sv'" "k < len" "len \<le> unat (uio_resid u)" "\<not> iov_room (iov_un u) len"
    and "uio_offset u = int off" "off < 2 ^ 31"
    and "u' = u\<lparr>iov_un := iov_spill (iov_un u) (frange (fcontent sfs sv) off k)\<rparr>"
  shows "rstop len sfs sv u EFAULT sfs' sv' u'"
proof -
  have "uio_adv u (iov_un u) 0 = u" using assms(5,6) by (intro uio_offset_small) simp_all
  then have "u' = spilled u (frange (fcontent sfs sv) (nat (uio_offset u)) 0) (frange (fcontent sfs sv) (nat (uio_offset u) + 0) k)"
    using assms(5,7) by simp
  moreover have "0 + k < len" using assms(2) by simp
  ultimately show ?thesis using assms(1,3,4) unfolding rstop_def by blast
qed

lemma partialio_read:
  assumes "rpre sfs sv u" "0 < len" "len \<le> unat (uio_resid u)"
    and "nat (uio_offset u) mod 512 = skip" "skip + len \<le> 512"
  shows "outcome gave rstop len sfs sv u (sfs_partialio sfs sv u (of_nat skip) (of_nat len))"
proof -
  obtain off where off: "uio_offset u = int off" "off + unat (uio_resid u) \<le> 143 * 512"
    using rpre_off[OF assms(1)] .
  define fb where "fb = off div 512"
  have fb: "off = fb * 512 + skip" "off div 512 = fb" "off < 2 ^ 31" using assms(4) off by (auto simp: fb_def)
  have fb143: "fb < 143" using off assms(2,3) fb(1) by linarith
  have pre: "fs_ok sfs" "file_inv sfs sv" "uio_ok u" "uio_rw u = UIO_READ"
    using assms(1) by (simp_all add: rpre_def)
  show ?thesis
    using pre(1,2) off(1) fb(3,2) fb143 assms(5)
  proof (cases rule: partialio_mapped)
    case (nospace sfs1 sv1)
    then show ?thesis using pre(4) by simp
  next
    case (mapped sfs2 sv1 b)
    have sv1: "sv1 = sv" using mapped(5) pre(4) by simp
    have q: "quiet sfs sv sfs2 sv" using mapped(1,2) by (simp add: quiet_def sv1)
    have ok2: "fs_ok sfs2" "file_inv sfs2 sv" using io_step_inv[OF mapped(1)] by (simp_all add: sv1)
    define ptr where "ptr = take len (drop skip (bdata sfs2 b))"
    have ptr: "ptr = frange (fcontent sfs sv) off len"
      unfolding ptr_def using assms(5) fb(1) fcontent_block[of _ sfs2 sv fb] mapped(2,3) length_bdata[OF ok2, of fb]
      by (intro block_range[symmetric, where fb = fb]) (simp_all add: sv1)
    have ptr': "length ptr = len" "ptr \<noteq> []" "length ptr \<le> unat (uio_resid u)"
      using assms(2,3) by (auto simp: ptr frange_def)
    note part = mapped(6)[folded ptr_def, unfolded sv1]
    show ?thesis
      using pre(3,4) ptr'(2,3)
    proof (cases rule: uiomove_read)
      case ok
      have "sfs_partialio sfs sv u (of_nat skip) (of_nat len)
          = Some (ESUCCESS, sfs2, sv, uio_adv u (iov_store (iov_un u) ptr) len)"
        unfolding part using ok ptr'(1) pre(4) by simp
      moreover have "gave len sfs sv u sfs2 sv (uio_adv u (iov_store (iov_un u) ptr) len)"
        using q assms(3) off(1) by (simp add: gave_def ptr)
      ultimately show ?thesis by (simp add: outcome_def)
    next
      case (fault k)
      have "rstop len sfs sv u EFAULT sfs2 sv (u\<lparr>iov_un := iov_spill (iov_un u) (take k ptr)\<rparr>)"
        using q fault ptr' off fb(3) assms(3)
        by (intro rstop_0[of _ _ _ _ k _ _ off]) (simp_all add: ptr take_frange min_def)
      then show ?thesis using fault by (simp add: outcome_def part)
    qed
  qed
qed

lemma blockio_read:
  assumes "rpre sfs sv u" "512 \<le> unat (uio_resid u)" "nat (uio_offset u) mod 512 = 0"
  shows "outcome gave rstop 512 sfs sv u (sfs_blockio sfs sv u)"
proof -
  obtain off where off: "uio_offset u = int off" "off + unat (uio_resid u) \<le> 143 * 512"
    using rpre_off[OF assms(1)] .
  define fb where "fb = off div 512"
  have fb: "off = fb * 512" "off div 512 = fb" "off < 2 ^ 31" using assms(3) off by (auto simp: fb_def)
  have fb143: "fb < 143" using off assms(2) fb(1) by linarith
  have pre: "fs_ok sfs" "file_inv sfs sv" "uio_ok u" "uio_rw u = UIO_READ"
    using assms(1) by (simp_all add: rpre_def)
  have res: "512 \<le> uio_resid u" using assms(2) by (simp add: word_le_nat_alt)
  show ?thesis
    using pre(1,2) off(1) fb(3,2) fb143 res
  proof (cases rule: blockio_mapped)
    case (nospace sfs1 sv1)
    then show ?thesis using pre(4) by simp
  next
    case (hole sfs1)
    have ok1: "fs_ok sfs1" "file_inv sfs1 sv" using io_step_inv[OF hole(1)] .
    have q: "quiet sfs sv sfs1 sv" using hole(1,2) by (simp add: quiet_def)
    have z: "frange (fcontent sfs sv) (off + j) k = replicate k 0" if "j + k \<le> 512" for j k
      using that block_range[of j k "off + j" fb "fcontent sfs sv" "replicate 512 0"] fcontent_block[of _ sfs1 sv fb]
        hole(2,4) fb(1) by (simp add: bdata_def)
    have zr: "uiomovezeros 512 u = uiomovezeros_loop 512 u" by (simp add: uiomovezeros_def pre(4))
    consider (ok) "uiomovezeros 512 u = Some (ESUCCESS, uio_adv u (iov_store (iov_un u) (replicate 512 0)) 512)"
      | (fault) j k where "j + k < 512" "\<not> iov_room (iov_un u) 512"
          "uiomovezeros 512 u = Some (EFAULT, spilled u (replicate j 0) (replicate k 0))"
      using uiomovezeros_loop_cases[OF pre(3,4) assms(2)] off fb(3) unfolding zr by auto
    then show ?thesis
    proof cases
      case ok
      then have "gave 512 sfs sv u sfs1 sv (uio_adv u (iov_store (iov_un u) (replicate 512 0)) 512)"
        using q assms(2) off(1) z[of 0 512] by (simp add: gave_def)
      then show ?thesis using ok by (simp add: outcome_def hole(5))
    next
      case (fault j k)
      have "spilled u (replicate j 0) (replicate k 0) = spilled u (frange (fcontent sfs sv) off j)
          (frange (fcontent sfs sv) (off + j) k)"
        using z[of 0 j] z[of j k] fault(1) by simp
      then have "rstop 512 sfs sv u EFAULT sfs1 sv (spilled u (replicate j 0) (replicate k 0))"
        using q fault(1,2) assms(2) off(1) unfolding rstop_def by auto
      then show ?thesis using fault(3) by (simp add: outcome_def hole(5))
    qed
  next
    case (disk sfs1 sv1 b)
    have sv1: "sv1 = sv" using disk(5) pre(4) by simp
    have ok1: "fs_ok sfs1" "file_inv sfs1 sv" using io_step_inv[OF disk(1)] by (simp_all add: sv1)
    have bn: "b < nblocks sfs1" using blockmap_valid[OF ok1(2), of fb] disk(3,4) by (simp add: valid_block_def sv1)
    note du = disk_uio_block[OF ok1(1) bn pre(3) res]
    have rwd: "uio_rw (disk_uio b u) = UIO_READ" using du(2) pre(4) by simp
    have st0: "op_state (sfs_device sfs1) 0 = LHD_OK" using fs_ok_dev[OF ok1(1)] by (simp add: lhd_good_def)
    have sec: "secs sfs1 b = frange (fcontent sfs sv) off 512"
      using block_range[of 0 512 off fb "fcontent sfs sv" "bdata sfs1 b"] fcontent_block[of _ sfs1 sv fb]
        length_bdata[OF ok1, of fb] disk(2,3,4) fb(1) by (simp add: bdata_def sv1)
    have q: "quiet sfs sv (sfs1\<lparr>sfs_device := dev\<rparr>) sv"
      if "lhd_after 1 (sfs_device sfs1) dev" "lh_sectors dev = secs sfs1" for dev
    proof -
      have ds: "dev_step sfs1 (sfs1\<lparr>sfs_device := dev\<rparr>)" using that by (auto simp: dev_step_def)
      show ?thesis using io_step_trans[OF disk(1)[unfolded sv1] dev_step_io[OF ds ok1]] dev_step_same(2)[OF ds] disk(2)
        by (simp add: quiet_def sv1)
    qed
    show ?thesis
      using fs_ok_dev(1)[OF ok1(1)] du(1) rwd st0
    proof (cases rule: sector_read_ok)
      case (ok dev)
      have "sfs_blockio sfs sv u = Some (ESUCCESS, sfs1\<lparr>sfs_device := dev\<rparr>, sv, uio_adv u (iov_store (iov_un u) (secs sfs1 b)) 512)"
        using disk(6) sfs_rwblock_ok[OF ok(1)] du(3) by (simp add: undisk_adv sv1)
      moreover have "gave 512 sfs sv u (sfs1\<lparr>sfs_device := dev\<rparr>) sv (uio_adv u (iov_store (iov_un u) (secs sfs1 b)) 512)"
        using q[OF ok(2,3)] assms(2) off(1) by (simp add: gave_def sec)
      ultimately show ?thesis by (simp add: outcome_def)
    next
      case (fault dev k)
      have "sfs_blockio sfs sv u = Some (EFAULT, sfs1\<lparr>sfs_device := dev\<rparr>, sv,
          u\<lparr>iov_un := iov_spill (iov_un u) (take k (secs sfs1 b))\<rparr>)"
        using disk(6) sfs_rwblock_ok[OF fault(1)] du(3) undisk_same(1)[of u b] off by (simp add: sv1)
      moreover have "rstop 512 sfs sv u EFAULT (sfs1\<lparr>sfs_device := dev\<rparr>) sv
          (u\<lparr>iov_un := iov_spill (iov_un u) (take k (secs sfs1 b))\<rparr>)"
        using q[OF fault(2,3)] fault(4,5) du(3) off fb(3) assms(2)
        by (intro rstop_0[of _ _ _ _ k _ _ off]) (simp_all add: sec take_frange min_def)
      ultimately show ?thesis by (simp add: outcome_def)
    qed
  qed
qed

interpretation reading: chunked_io rpre gave rstop
proof (unfold_locales, goal_cases)
  case (1 sfs sv u)
  then show ?case by (simp add: rpre_def)
next
  case (2 sfs sv u)
  have "uio_adv u (iov_un u) 0 = u"
    by (rule rpre_off[OF 2]) (rule uio_offset_small, auto)
  then show ?case using 2 io_step_refl by (simp add: rpre_def gave_def quiet_def)
next
  case (3 sfs sv u n sfs' sv' u')
  show ?case using gave_pos[OF 3] by simp
next
  case (4 sfs sv u n sfs1 sv1 u1 k sfs' sv' u')
  then show ?case by (rule gave_trans)
next
  case (5 sfs sv u n sfs1 sv1 u1 k r sfs' sv' u')
  then show ?case by (rule gave_rstop)
next
  case (6 n sfs sv u r sfs' sv' u' k)
  then show ?case by (rule rstop_mono)
next
  case (7 sfs sv u len skip)
  then show ?case by (rule partialio_read)
next
  case (8 sfs sv u)
  then show ?case by (rule blockio_read)
qed

section \<open>Whole operations\<close>

text \<open>The size of a file is the only part of its inode that \<open>sfs_io\<close> itself sets.\<close>

definition resized :: "sfs_vnode \<Rightarrow> u32 \<Rightarrow> sfs_vnode" where
  "resized sv n = sv\<lparr>sv_i := (sv_i sv)\<lparr>sfi_size := n\<rparr>, sv_dirty := True\<rparr>"

lemma resized_simps [simp]:
  "sv_i (resized sv n) = (sv_i sv)\<lparr>sfi_size := n\<rparr>" "sv_ino (resized sv n) = sv_ino sv"
  "sv_dirty (resized sv n)" "blockmap sfs (resized sv n) = blockmap sfs sv"
  "fcontent sfs (resized sv n) = fcontent sfs sv" "owned sfs (resized sv n) = owned sfs sv"
proof -
  show b: "blockmap sfs (resized sv n) = blockmap sfs sv" by (rule ext) (simp add: blockmap_def resized_def)
  show "fcontent sfs (resized sv n) = fcontent sfs sv" by (rule ext) (simp add: fcontent_def b)
  show "owned sfs (resized sv n) = owned sfs sv" by (simp add: owned_def b) (simp add: resized_def)
qed (simp_all add: resized_def)

lemma file_inv_resized [simp]: "file_inv sfs (resized sv n) \<longleftrightarrow> file_inv sfs sv"
  by (simp add: file_inv_def inode_ok_def)

text \<open>
  The result of a write of \<open>k\<close> of the bytes: the content is patched, the size covers the bytes
  written, blocks of other files and of the volume's structures are unchanged, and every block
  newly taken is reached from the file.
\<close>

definition written :: "nat \<Rightarrow> sfs_fs \<Rightarrow> sfs_vnode \<Rightarrow> uio \<Rightarrow> sfs_fs \<Rightarrow> sfs_vnode \<Rightarrow> uio \<Rightarrow> bool" where
  "written k sfs sv u sfs' sv' u' \<longleftrightarrow> k \<le> unat (uio_resid u) \<and> length (iov_bytes (iov_un u) k) = k
     \<and> u' = uio_adv u (iov_skip (iov_un u) k) k
     \<and> fcontent sfs' sv' = patch (fcontent sfs sv) (nat (uio_offset u)) (iov_bytes (iov_un u) k)
     \<and> unat (sfi_size (sv_i sv')) = max (unat (sfi_size (sv_i sv))) (nat (uio_offset u) + k)
     \<and> fs_ok sfs' \<and> file_inv sfs' sv' \<and> same_fs sfs sfs'
     \<and> used sfs \<subseteq> used sfs' \<and> used sfs' \<subseteq> used sfs \<union> unat ` owned sfs' sv'
     \<and> (\<forall>b. unat b \<in> used sfs \<and> b \<notin> owned sfs sv \<longrightarrow> secs sfs' b = secs sfs b)"

lemma c_int_u32: "unat (x :: u32) < 2 ^ 31 \<Longrightarrow> c_int (uint x) = int (unat x)"
proof -
  assume "unat x < 2 ^ 31"
  then have "unat x < 2147483648" by simp
  then have "int (unat x) < 2147483648" by linarith
  then have u: "uint x < 2147483648" by simp
  then have "- 2147483648 \<le> uint x" using uint_ge_0[of x] by linarith
  then show ?thesis using u by (simp add: c_int_id)
qed

definition sized :: "nat \<Rightarrow> sfs_vnode \<Rightarrow> sfs_vnode" where
  "sized n sv = (if unat (sfi_size (sv_i sv)) < n then resized sv (of_nat n) else sv)"

text \<open>From the transfer to the whole write: the size grows to cover what was written.\<close>

lemma write_finish:
  assumes "wpre sfs sv u" "unat (sfi_size (sv_i sv)) < 2 ^ 31"
    and "sfs_io_body sfs sv u = Some (r, sfs', sv1, u')" "wrote k sfs sv u sfs' sv1 u'"
  shows "sfs_io sfs sv u = Some (r, sfs', sized (nat (uio_offset u) + k) sv1, u')"
    and "written k sfs sv u sfs' (sized (nat (uio_offset u) + k) sv1) u'"
proof -
  let ?n = "unat (uio_resid u)"
  obtain off where off: "uio_offset u = int off" "off + ?n < 2 ^ 31" using wpre_off[OF assms(1)] .
  have rw: "uio_rw u = UIO_WRITE" using assms(1) by (simp add: wpre_def)
  have kn: "k \<le> ?n" and u': "u' = uio_adv u (iov_skip (iov_un u) k) k" and io: "io_step sfs sv sfs' sv1"
    and fc: "fcontent sfs' sv1 = patch (fcontent sfs sv) off (iov_bytes (iov_un u) k)"
    and lb: "length (iov_bytes (iov_un u) k) = k"
    using assms(4) off(1) by (simp_all add: wrote_def)
  have o': "uio_offset u' = int (off + k)" "uio_rw u' = UIO_WRITE"
    using wrote_pos(1)[OF assms(1,4)] off(1) rw by (simp_all add: u')
  have sz: "sfi_size (sv_i sv1) = sfi_size (sv_i sv)" using io by (simp add: io_step_def same_sv_def)
  show "sfs_io sfs sv u = Some (r, sfs', sized (nat (uio_offset u) + k) sv1, u')"
    using assms(3) rw o' c_int_u32[OF assms(2)] sz off(1)
    by (simp add: sfs_io_def sized_def resized_def Let_def del: of_nat_add of_nat_unat)
  have "unat (of_nat (off + k) :: u32) = off + k" using kn off(2) by (intro unat_of_nat_u32) simp
  then have "unat (sfi_size (sv_i (sized (off + k) sv1))) = max (unat (sfi_size (sv_i sv))) (off + k)"
    using sz by (simp add: sized_def max_def)
  then show "written k sfs sv u sfs' (sized (nat (uio_offset u) + k) sv1) u'"
    using kn lb u' fc io off(1) by (auto simp: written_def sized_def io_step_def)
qed

lemma write_outcome:
  assumes "wpre sfs sv u" "0 < uio_resid u" "unat (sfi_size (sv_i sv)) < 2 ^ 31"
  shows "\<exists>r k sfs' sv' u'. sfs_write sfs sv u = Some (r, sfs', sv', u')
     \<and> (r = ESUCCESS \<and> k = unat (uio_resid u) \<or> wreason (unat (uio_resid u)) u r sfs')
     \<and> written k sfs sv u sfs' sv' u'"
proof -
  obtain r k sfs' sv1 u' where body: "sfs_io_body sfs sv u = Some (r, sfs', sv1, u')"
    and w: "wrote k sfs sv u sfs' sv1 u'"
    and k: "r = ESUCCESS \<and> k = unat (uio_resid u) \<or> wreason (unat (uio_resid u)) u r sfs'"
    using writing.body[OF assms(1,2)] unfolding outcome_def wstop_def by blast
  have "uio_rw u = UIO_WRITE" using assms(1) by (simp add: wpre_def)
  then show ?thesis using write_finish[OF assms(1,3) body w] k by (auto simp: sfs_write_def)
qed

text \<open>A read moves the bytes between the offset and the end of the file, as far as asked for.\<close>

definition avail :: "sfs_vnode \<Rightarrow> uio \<Rightarrow> nat" where
  "avail sv u = min (unat (uio_resid u)) (unat (sfi_size (sv_i sv)) - nat (uio_offset u))"

definition rready :: "sfs_fs \<Rightarrow> sfs_vnode \<Rightarrow> uio \<Rightarrow> bool" where
  "rready sfs sv u \<longleftrightarrow> fs_ok sfs \<and> file_inv sfs sv \<and> uio_ok u \<and> uio_rw u = UIO_READ
     \<and> 0 < uio_resid u \<and> 0 \<le> uio_offset u
     \<and> nat (uio_offset u) + unat (uio_resid u) < 2 ^ 31 \<and> unat (sfi_size (sv_i sv)) \<le> 143 * 512"

lemma read_eof:
  assumes "rready sfs sv u" "unat (sfi_size (sv_i sv)) \<le> nat (uio_offset u)"
  shows "sfs_read sfs sv u = Some (ESUCCESS, sfs, sv, u)"
proof -
  have "unat (sfi_size (sv_i sv)) < 2 ^ 31" using assms(1) by (simp add: rready_def)
  note sz = c_int_u32[OF this]
  have "c_int (uint (sfi_size (sv_i sv))) \<le> uio_offset u"
    unfolding sz using assms by (simp add: rready_def nat_le_iff le_nat_iff del: of_nat_unat)
  then show ?thesis using assms(1) by (simp add: sfs_read_def sfs_io_def rready_def Let_def)
qed

lemma read_body:
  assumes "rready sfs sv u" "nat (uio_offset u) < unat (sfi_size (sv_i sv))"
  shows "rpre sfs sv (u\<lparr>uio_resid := of_nat (avail sv u)\<rparr>)" "0 < (of_nat (avail sv u) :: u32)"
    "sfs_read sfs sv u = do {
       (r, sfs', sv', v) \<leftarrow> sfs_io_body sfs sv (u\<lparr>uio_resid := of_nat (avail sv u)\<rparr>);
       let sv' = (if uio_rw v = UIO_WRITE \<and> uio_offset v > c_int (uint (sfi_size (sv_i sv')))
                 then resized sv' (word_of_int (uio_offset v)) else sv');
       Some (r, sfs', sv', v\<lparr>uio_resid := uio_resid v + (uio_resid u - of_nat (avail sv u))\<rparr>) }"
proof -
  let ?n = "unat (uio_resid u)" and ?s = "unat (sfi_size (sv_i sv))" and ?a = "avail sv u"
  obtain off where off: "uio_offset u = int off" "off + ?n < 2 ^ 31"
    using assms(1) that[of "nat (uio_offset u)"] by (simp add: rready_def)
  have s: "off < ?s" "?s \<le> 143 * 512" using assms(1,2) off by (simp_all add: rready_def)
  have n0: "0 < ?n" using assms(1) by (simp add: rready_def word_gt_0 unat_gt_0)
  have a: "0 < ?a" "?a \<le> ?n" "off + ?a \<le> ?s" "?a = ?n - (off + ?n - ?s)"
    using s n0 off(1) by (auto simp: avail_def)
  have aw: "unat (of_nat ?a :: u32) = ?a" using a(3) s(2) by (intro unat_of_nat_u32) simp
  show "0 < (of_nat ?a :: u32)" using aw a(1) by (simp add: word_less_nat_alt)
  have le: "of_nat ?a \<le> uio_resid u" using aw a(2) by (simp add: word_le_nat_alt)
  then have "uio_ok (u\<lparr>uio_resid := of_nat ?a\<rparr>)"
    using assms(1) aw a(2) by (auto simp: uio_ok_def rready_def split: iov_base.splits intro: no_ro_mono)
  then show "rpre sfs sv (u\<lparr>uio_resid := of_nat ?a\<rparr>)"
    using assms(1) aw a(3) s(2) off(1) by (simp add: rpre_def rready_def)
  have sz: "c_int (uint (sfi_size (sv_i sv))) = int ?s" using s(2) by (intro c_int_u32) simp
  have ew: "unat (word_of_int (uio_offset u) + uio_resid u) = off + ?n"
    using off unat_of_nat_u32[of off] by (subst unat_add_lem[THEN iffD1]) simp_all
  have ep: "c_int (uint (word_of_int (uio_offset u) + uio_resid u)) = int (off + ?n)"
    using c_int_u32[of "word_of_int (uio_offset u) + uio_resid u"] ew off(2) by (simp del: of_nat_unat of_nat_add)
  have ro: "uio_rw u = UIO_READ" "\<not> uio_offset u \<ge> int ?s"
    using assms(1) off(1) s(1) by (simp_all add: rready_def del: of_nat_unat)
  define x where "x = (if uio_rw u = UIO_READ \<and> int (off + ?n) > int ?s then word_of_int (int (off + ?n) - int ?s) else 0 :: u32)"
  have x: "x = of_nat (off + ?n - ?s)" by (simp add: x_def ro(1) of_nat_diff del: of_nat_unat of_nat_add)
  have xn: "off + ?n - ?s < ?n" using s(1) n0 by simp
  have xw: "unat x = off + ?n - ?s" unfolding x using off(2) by (intro unat_of_nat_u32) simp
  have xr: "uio_resid u - x = of_nat ?a" unfolding a(4) of_nat_diff[OF less_imp_le[OF xn]] x by simp
  have xx: "uio_resid u > x" using xn xw by (simp add: word_less_nat_alt)
  have xa: "x = uio_resid u - of_nat ?a" using xr by (metis diff_diff_eq2 add_diff_cancel_left')
  show "sfs_read sfs sv u = do {
       (r, sfs', sv', v) \<leftarrow> sfs_io_body sfs sv (u\<lparr>uio_resid := of_nat ?a\<rparr>);
       let sv' = (if uio_rw v = UIO_WRITE \<and> uio_offset v > c_int (uint (sfi_size (sv_i sv')))
                 then resized sv' (word_of_int (uio_offset v)) else sv');
       Some (r, sfs', sv', v\<lparr>uio_resid := uio_resid v + (uio_resid u - of_nat ?a)\<rparr>) }"
    unfolding sfs_read_def sfs_io_def Let_def ep sz resized_def x_def[symmetric] xr using ro xx
    by (simp add: xa[symmetric] del: of_nat_unat of_nat_add)
qed

text \<open>The outcome of a read: what is given, or how far a read of a bad buffer went.\<close>

definition given :: "nat \<Rightarrow> sfs_fs \<Rightarrow> sfs_vnode \<Rightarrow> uio \<Rightarrow> uio \<Rightarrow> bool" where
  "given k sfs sv u u' \<longleftrightarrow> k \<le> avail sv u
     \<and> u' = uio_adv u (iov_store (iov_un u) (frange (fcontent sfs sv) (nat (uio_offset u)) k)) k"

lemma read_outcome:
  assumes "rready sfs sv u"
  shows "\<exists>r sfs' u'. sfs_read sfs sv u = Some (r, sfs', sv, u') \<and> quiet sfs sv sfs' sv
     \<and> (iov_room (iov_un u) (avail sv u) \<longrightarrow> r = ESUCCESS)
     \<and> (r = ESUCCESS \<and> given (avail sv u) sfs sv u u'
        \<or> r = EFAULT \<and> (\<exists>j k. j + k < avail sv u
             \<and> u' = spilled u (frange (fcontent sfs sv) (nat (uio_offset u)) j)
                               (frange (fcontent sfs sv) (nat (uio_offset u) + j) k)))"
proof (cases "nat (uio_offset u) < unat (sfi_size (sv_i sv))")
  case False
  then have a: "avail sv u = 0" by (simp add: avail_def)
  have pre: "fs_ok sfs" "file_inv sfs sv" "uio_rw u = UIO_READ" using assms by (simp_all add: rready_def)
  have "uio_adv u (iov_un u) 0 = u" using assms by (intro uio_offset_small) (auto simp: rready_def)
  then have u: "given 0 sfs sv u u" by (simp add: given_def)
  have q: "quiet sfs sv sfs sv" using pre io_step_refl by (simp add: quiet_def)
  have "sfs_read sfs sv u = Some (ESUCCESS, sfs, sv, u)" using read_eof assms False by simp
  then show ?thesis using a u q by simp
next
  case True
  let ?v = "u\<lparr>uio_resid := of_nat (avail sv u)\<rparr>" let ?f = "fcontent sfs sv"
  note b = read_body[OF assms True]
  have a: "unat (of_nat (avail sv u) :: u32) = avail sv u"
    using unat_u32[of "uio_resid u"] by (intro unat_of_nat_u32) (auto simp: avail_def)
  have rw: "uio_rw u = UIO_READ" using assms by (simp add: rready_def)
  have adv: "(uio_adv ?v bs n)\<lparr>uio_resid := uio_resid (uio_adv ?v bs n) + (uio_resid u - of_nat (avail sv u))\<rparr> = uio_adv u bs n"
    for bs n by (simp add: uio_adv_def)
  obtain r sfs' sv' v where body: "sfs_io_body sfs sv ?v = Some (r, sfs', sv', v)"
    and c: "r = ESUCCESS \<and> gave (avail sv u) sfs sv ?v sfs' sv' v \<or> r \<noteq> ESUCCESS \<and> rstop (avail sv u) sfs sv ?v r sfs' sv' v"
    using reading.body[OF b(1)] b(2) a unfolding outcome_def by auto
  have q: "quiet sfs sv sfs' sv'" "sv' = sv" using c by (auto simp: gave_def rstop_def quiet_def)
  consider (ok) "r = ESUCCESS" "v = uio_adv ?v (iov_store (iov_un u) (frange ?f (nat (uio_offset u)) (avail sv u))) (avail sv u)"
    | (stop) j k where "r = EFAULT" "\<not> iov_room (iov_un u) (avail sv u)" "j + k < avail sv u"
        "v = spilled ?v (frange ?f (nat (uio_offset u)) j) (frange ?f (nat (uio_offset u) + j) k)"
    using c by (auto simp: gave_def rstop_def)
  then show ?thesis
  proof cases
    case ok
    then have "sfs_read sfs sv u = Some (ESUCCESS, sfs', sv,
        uio_adv u (iov_store (iov_un u) (frange ?f (nat (uio_offset u)) (avail sv u))) (avail sv u))"
      unfolding b(3) body using rw q(2) adv by simp
    then show ?thesis using q by (simp add: given_def)
  next
    case stop
    then have "sfs_read sfs sv u = Some (EFAULT, sfs', sv,
        spilled u (frange ?f (nat (uio_offset u)) j) (frange ?f (nat (uio_offset u) + j) k))"
      unfolding b(3) body using rw q(2) by (simp add: spilled_def uio_adv_def)
    then show ?thesis using q stop by auto
  qed
qed

section \<open>Properties\<close>

text \<open>A small volume: of its 8 blocks 0, 1 and 2 are in use; its disk never fails.\<close>

definition ex_fs :: sfs_fs where
  "ex_fs = \<lparr>sfs_sb = \<lparr>sp_magic = SFS_MAGIC, sp_nblocks = 8, sp_volname = replicate 32 0,
       sp_reserved = replicate 118 0\<rparr>, sfs_superdirty = False,
     sfs_device = ex_disk (\<lambda>k. LHD_OK), sfs_vnodes = \<lparr>a_num = 0, a_max = 0, a_v = None\<rparr>,
     sfs_freemap = \<lparr>bm_nbits = 8, bm_v = [7]\<rparr>, sfs_freemapdirty = False, sv_heap = Map.empty\<rparr>"

definition ex_sv :: sfs_vnode where
  "ex_sv = \<lparr>vn_refcount = 1, vn_opencount = 1, vn_isdir = False,
     sv_i = \<lparr>sfi_size = 0, sfi_type = 1, sfi_linkcount = 1, sfi_direct = replicate 15 0, sfi_indirect = 0,
             sfi_waste = replicate 110 0\<rparr>, sv_ino = 2, sv_dirty = False\<rparr>"

lemma ex_fs_ok: "fs_ok ex_fs"
proof -
  have "lhd_good (ex_disk (\<lambda>k. LHD_OK))" by (simp add: lhd_good_def op_state_def ex_disk_def LHD_OK_def LHD_STATEMASK_def)
  moreover have "bm_inv \<lparr>bm_nbits = 8, bm_v = [7]\<rparr>" by (auto simp: bm_inv_def)
  moreover have "0 \<in> bm_used \<lparr>bm_nbits = 8, bm_v = [7]\<rparr>" by (simp add: bm_used_def bm_bit_def)
  ultimately show ?thesis by (simp add: fs_ok_def ex_fs_def ex_disk_ready bm_cap_def) (simp add: ex_disk_def)
qed

lemma ex_sv_inv: "file_inv ex_fs ex_sv"
proof -
  have "blockmap ex_fs ex_sv fb = 0" for fb by (simp add: blockmap_def ex_sv_def)
  then show ?thesis by (simp add: file_inv_def inode_ok_def ex_sv_def)
qed

lemma ex_write:
  "\<exists>sfs sv u. sfs_write ex_fs ex_sv (mk_kuio [1, 2, 3] 3 5 UIO_WRITE) = Some (ESUCCESS, sfs, sv, u)"
proof -
  have "(case sfs_write ex_fs ex_sv (mk_kuio [1, 2, 3] 3 5 UIO_WRITE) of Some (r, _) \<Rightarrow> r = ESUCCESS | None \<Rightarrow> False)"
    by code_simp
  then show ?thesis by (auto split: option.splits)
qed

lemma wpre_kuio:
  assumes "fs_ok sfs" "file_inv sfs sv" "off + length d < 2 ^ 31"
  shows "wpre sfs sv (mk_kuio d (of_nat (length d)) (int off) UIO_WRITE)"
proof -
  have "unat (of_nat (length d) :: u32) = length d" using assms(3) by (intro unat_of_nat_u32) simp
  then show ?thesis using assms mk_kuio_ok[of "of_nat (length d)" d] by (simp add: wpre_def mk_kuio_def)
qed

lemma rready_kuio:
  assumes "fs_ok sfs" "file_inv sfs sv" "off + length b < 2 ^ 31" "b \<noteq> []" "unat (sfi_size (sv_i sv)) \<le> 143 * 512"
  shows "rready sfs sv (mk_kuio b (of_nat (length b)) (int off) UIO_READ)"
proof -
  have l: "unat (of_nat (length b) :: u32) = length b" using assms(3) by (intro unat_of_nat_u32) simp
  moreover have "0 < (of_nat (length b) :: u32)" using assms(3,4) by (intro of_nat_pos_u32) simp_all
  ultimately show ?thesis using assms mk_kuio_ok[of "of_nat (length b)" b] by (simp add: rready_def mk_kuio_def)
qed







text \<open>Past the largest file nothing is transferred.\<close>

lemma too_big:
  assumes "143 \<le> unat (file_block (uio_offset u))"
  shows "skip + len \<le> 512 \<Longrightarrow> sfs_partialio sfs sv u skip len = Some (EINVAL, sfs, sv, u)"
    and "sfs_blockio sfs sv u = Some (EINVAL, sfs, sv, u)"
  using bmap_too_big[OF assms] by (simp_all add: sfs_partialio_def sfs_blockio_def)

lemma aligned_too_big:
  assumes "143 \<le> unat (file_block (uio_offset u))" "uio_resid u \<noteq> 0" "c_rem (uio_offset u) 512 = 0"
  shows "io_aligned sfs sv u = Some (EINVAL, sfs, sv, u)"
proof (cases "unat (uio_resid u div 512)")
  case 0
  then have lt: "uio_resid u < 512" by (simp add: unat_div div_eq_0_iff word_less_nat_alt)
  then have "sfs_partialio sfs sv u 0 (uio_resid u) = Some (EINVAL, sfs, sv, u)"
    using too_big(1)[OF assms(1), of 0 "uio_resid u"] by simp
  then show ?thesis using assms(2,3) 0 lt by (simp add: io_aligned_def word_gt_0)
next
  case (Suc n)
  then show ?thesis using assms(2,3) too_big(2)[OF assms(1)] by (simp add: io_aligned_def)
qed

lemma body_too_big:
  assumes "143 \<le> unat (file_block (uio_offset u))" "0 < uio_resid u" "uio_offset u = int off"
  shows "sfs_io_body sfs sv u = Some (EINVAL, sfs, sv, u)"
proof (cases "off mod 512 = 0")
  case True
  then show ?thesis using aligned_too_big[OF assms(1)] assms(2,3) blkoff_nat[of off]
    by (simp add: io_body_split word_gt_0)
next
  case False
  have sk: "unat (of_nat (off mod 512) :: u32) = off mod 512" by (intro unat_of_nat_u32) (simp add: mod_less_divisor order_less_trans)
  then have nz: "(of_nat (off mod 512) :: u32) \<noteq> 0" using False by (metis unat_0)
  have "of_nat (off mod 512) + min (512 - of_nat (off mod 512)) (uio_resid u) \<le> (512 :: u32)"
  proof -
    have s: "unat (512 - of_nat (off mod 512) :: u32) = 512 - off mod 512"
      using sk by (simp add: unat_sub word_le_nat_alt mod_less_divisor less_imp_le)
    have "unat (min (512 - of_nat (off mod 512)) (uio_resid u)) \<le> 512 - off mod 512"
      using s by (simp add: min_def word_le_nat_alt)
    then show ?thesis
      using sk by (simp add: word_le_nat_alt unat_word_ariths)
  qed
  then show ?thesis using too_big(1)[OF assms(1)] nz
    unfolding io_body_split assms(3) blkoff_nat(1) by simp
qed

text \<open>C22. A write that fails can still grow the file: at an offset past the largest file \<open>sfs_write\<close>
  fails with \<open>EINVAL\<close> and writes nothing, but sets the size of the inode to the offset, beyond
  what the block map can address.\<close>

theorem sfs_write_fails_grows:
  assumes "fs_ok sfs" "file_inv sfs sv" "uio_ok u" "uio_rw u = UIO_WRITE" "0 < uio_resid u"
    and "uio_offset u = int off" "off + unat (uio_resid u) < 2 ^ 31" "143 * 512 \<le> off"
    and "unat (sfi_size (sv_i sv)) < off"
  shows "\<exists>sv'. sfs_write sfs sv u = Some (EINVAL, sfs, sv', u) \<and> unat (sfi_size (sv_i sv')) = off"
proof -
  have ob: "off < 2 ^ 31" using assms(7) by simp
  have fb: "143 \<le> unat (file_block (uio_offset u))"
    using file_block_nat[OF ob] assms(6,8) by (simp add: less_eq_div_iff_mult_less_eq)
  note body = body_too_big[OF fb assms(5,6), of sfs sv]
  have "unat (of_nat off :: u32) = off" using ob by (intro unat_of_nat_u32) simp
  then show ?thesis
    using body assms(4,6,9) ob c_int_u32[of "sfi_size (sv_i sv)"]
    by (auto simp: sfs_write_def sfs_io_def Let_def simp del: of_nat_unat)
qed

theorem sfs_write_fails_grows_witness:
  "\<exists>sv'. sfs_write ex_fs ex_sv (mk_kuio [1] 1 80000 UIO_WRITE) = Some (EINVAL, ex_fs, sv', mk_kuio [1] 1 80000 UIO_WRITE)
     \<and> unat (sfi_size (sv_i sv')) = 80000"
proof -
  have "uio_ok (mk_kuio [1] 1 80000 UIO_WRITE)" by (rule mk_kuio_ok) simp
  then show ?thesis
    by (intro sfs_write_fails_grows ex_fs_ok ex_sv_inv) (simp_all add: mk_kuio_def ex_sv_def)
qed

end
