(* ===== verification/Sfs_Dir.thy ===== *)
theory Sfs_Dir
  imports Sfs_Rw
begin

text \<open>
  Directories: the entries of \<open>src/kern/fs/sfs/sfs_vnode.c\<close> from \<open>sfs_readdir\<close> to
  \<open>sfs_dir_unlink\<close>.  The contract is a finite map from names to inode numbers, which the
  entries of the file implement.
\<close>

section \<open>Model\<close>

type_synonym fname = "u8 list"

text \<open>The C string in an array of characters; \<open>strcmp\<close> compares these.\<close>

definition cstring :: "u8 list \<Rightarrow> fname" where
  "cstring b = takeWhile (\<lambda>c. c \<noteq> 0) b"

definition dirpos :: "int \<Rightarrow> int" where
  "dirpos slot = c_int (uint (word_of_int slot * 64 :: u32))"

text \<open>The entry on the stack is looked at only if all of it has been read.\<close>

definition sfs_readdir :: "sfs_fs \<Rightarrow> sfs_vnode \<Rightarrow> int \<Rightarrow> (errno \<times> sfs_dir \<times> sfs_fs \<times> sfs_vnode) option" where
  "sfs_readdir sfs sv slot = do {
     (result, sfs, sv, ku) \<leftarrow> sfs_io sfs sv (mk_kuio (replicate 64 0) 64 (dirpos slot) UIO_READ);
     if result \<noteq> ESUCCESS then Some (result, get_dir (kobj ku), sfs, sv)
     else do {
       kassert (uio_resid ku = 0);
       Some (ESUCCESS, get_dir (kobj ku), sfs, sv) } }"

definition sfs_writedir :: "sfs_fs \<Rightarrow> sfs_vnode \<Rightarrow> sfs_dir \<Rightarrow> int \<Rightarrow> (errno \<times> sfs_fs \<times> sfs_vnode) option" where
  "sfs_writedir sfs sv sd slot = do {
     kassert (slot \<ge> 0);
     (result, sfs, sv, ku) \<leftarrow> sfs_io sfs sv (mk_kuio (put_dir sd) 64 (dirpos slot) UIO_WRITE);
     if result \<noteq> ESUCCESS then Some (result, sfs, sv)
     else do {
       kassert (uio_resid ku = 0);
       Some (ESUCCESS, sfs, sv) } }"

definition sfs_dir_nentries :: "sfs_vnode \<Rightarrow> int option" where
  "sfs_dir_nentries sv = do {
     kassert (sfi_type (sv_i sv) = SFS_TYPE_DIR);
     let sz = c_int (uint (sfi_size (sv_i sv)));
     kassert (word_of_int sz mod (64 :: u32) = 0);
     Some (c_int (uint (word_of_int sz div (64 :: u32)))) }"

text \<open>What the search hands back through its pointers.\<close>

record found =
  fd_found :: bool
  fd_ino :: u32
  fd_slot :: int
  fd_empty :: int

fun find_slots :: "fname \<Rightarrow> int list \<Rightarrow> found \<Rightarrow> sfs_fs \<Rightarrow> sfs_vnode
    \<Rightarrow> (errno \<times> found \<times> sfs_fs \<times> sfs_vnode) option" where
  "find_slots name [] out sfs sv = Some (ESUCCESS, out, sfs, sv)"
| "find_slots name (i # is) out sfs sv = do {
     (result, tsd, sfs, sv) \<leftarrow> sfs_readdir sfs sv i;
     if result \<noteq> ESUCCESS then Some (result, out, sfs, sv)
     else if sfd_ino tsd = SFS_NOINO then find_slots name is (out\<lparr>fd_empty := i\<rparr>) sfs sv
     else if cstring ((sfd_name tsd)[59 := 0]) = name then do {
       kassert (\<not> fd_found out);
       find_slots name is (out\<lparr>fd_found := True, fd_slot := i, fd_ino := sfd_ino tsd\<rparr>) sfs sv }
     else find_slots name is out sfs sv }"

definition sfs_dir_findname :: "sfs_fs \<Rightarrow> sfs_vnode \<Rightarrow> fname \<Rightarrow> found
    \<Rightarrow> (errno \<times> found \<times> sfs_fs \<times> sfs_vnode) option" where
  "sfs_dir_findname sfs sv name out = do {
     nentries \<leftarrow> sfs_dir_nentries sv;
     (result, out, sfs, sv) \<leftarrow> find_slots name (map int [0..<nat nentries]) (out\<lparr>fd_found := False\<rparr>) sfs sv;
     Some (if result \<noteq> ESUCCESS then result else if fd_found out then ESUCCESS else ENOENT, out, sfs, sv) }"

definition no_found :: found where
  "no_found = \<lparr>fd_found = False, fd_ino = 0, fd_slot = -1, fd_empty = -1\<rparr>"

definition sfs_dir_link :: "sfs_fs \<Rightarrow> sfs_vnode \<Rightarrow> fname \<Rightarrow> u32 \<Rightarrow> (errno \<times> int \<times> sfs_fs \<times> sfs_vnode) option" where
  "sfs_dir_link sfs sv name ino = do {
     (result, out, sfs, sv) \<leftarrow> sfs_dir_findname sfs sv name no_found;
     if result \<noteq> ESUCCESS \<and> result \<noteq> ENOENT then Some (result, -1, sfs, sv)
     else if result = ESUCCESS then Some (EEXIST, -1, sfs, sv)
     else if length name + 1 > 60 then Some (ENAMETOOLONG, -1, sfs, sv)
     else do {
       emptyslot \<leftarrow> (if fd_empty out < 0 then sfs_dir_nentries sv else Some (fd_empty out));
       (result, sfs, sv) \<leftarrow> sfs_writedir sfs sv
          \<lparr>sfd_ino = ino, sfd_name = name @ replicate (60 - length name) 0\<rparr> emptyslot;
       Some (result, emptyslot, sfs, sv) } }"

definition sfs_dir_unlink :: "sfs_fs \<Rightarrow> sfs_vnode \<Rightarrow> int \<Rightarrow> (errno \<times> sfs_fs \<times> sfs_vnode) option" where
  "sfs_dir_unlink sfs sv slot = sfs_writedir sfs sv \<lparr>sfd_ino = SFS_NOINO, sfd_name = replicate 60 0\<rparr> slot"

section \<open>The contract: a finite map\<close>

definition live :: "sfs_dir \<Rightarrow> bool" where
  "live e \<longleftrightarrow> sfd_ino e \<noteq> SFS_NOINO"

definition ename :: "sfs_dir \<Rightarrow> fname" where
  "ename e = cstring ((sfd_name e)[59 := 0])"

definition dmap :: "sfs_dir list \<Rightarrow> fname \<rightharpoonup> u32" where
  "dmap l x = map_option sfd_ino (find (\<lambda>e. live e \<and> ename e = x) l)"

definition duniq :: "sfs_dir list \<Rightarrow> bool" where
  "duniq l \<longleftrightarrow> (\<forall>i<length l. \<forall>j<length l. live (l ! i) \<and> live (l ! j) \<and> ename (l ! i) = ename (l ! j) \<longrightarrow> i = j)"

lemma option_eqI: "(\<And>y. a = Some y \<longleftrightarrow> b = Some y) \<Longrightarrow> a = b"
  by (cases a; cases b) auto

lemma duniqD: "duniq l \<Longrightarrow> i < length l \<Longrightarrow> j < length l \<Longrightarrow> live (l ! i) \<Longrightarrow> live (l ! j) \<Longrightarrow> ename (l ! i) = ename (l ! j) \<Longrightarrow> i = j"
  by (simp add: duniq_def)

lemma dmap_Some:
  assumes "duniq l"
  shows "dmap l x = Some y \<longleftrightarrow> (\<exists>i<length l. live (l ! i) \<and> ename (l ! i) = x \<and> sfd_ino (l ! i) = y)"
proof
  assume "dmap l x = Some y"
  then show "\<exists>i<length l. live (l ! i) \<and> ename (l ! i) = x \<and> sfd_ino (l ! i) = y"
    by (auto simp: dmap_def find_Some_iff)
next
  assume "\<exists>i<length l. live (l ! i) \<and> ename (l ! i) = x \<and> sfd_ino (l ! i) = y"
  then obtain i where i: "i < length l" "live (l ! i)" "ename (l ! i) = x" "sfd_ino (l ! i) = y" by blast
  have "j < i \<Longrightarrow> \<not> (live (l ! j) \<and> ename (l ! j) = x)" for j
    using duniqD[OF assms, of j i] i by auto
  then have "find (\<lambda>e. live e \<and> ename e = x) l = Some (l ! i)" using i by (auto simp: find_Some_iff)
  then show "dmap l x = Some y" using i by (simp add: dmap_def)
qed

lemma dmap_None: "dmap l x = None \<longleftrightarrow> (\<forall>i<length l. live (l ! i) \<longrightarrow> ename (l ! i) \<noteq> x)"
  by (auto simp: dmap_def find_None_iff in_set_conv_nth)

text \<open>A new name in an empty slot or at the end.\<close>

lemma dmap_link:
  assumes "duniq l" "dmap l (ename e) = None" "live e" "i \<le> length l" "i < length l \<longrightarrow> \<not> live (l ! i)"
  shows "duniq ((take i l @ e # drop (Suc i) l))" "dmap (take i l @ e # drop (Suc i) l) = (dmap l)(ename e \<mapsto> sfd_ino e)"
proof -
  define l' where "l' = take i l @ e # drop (Suc i) l"
  have len: "length l' = max (length l) (Suc i)" using assms(4) by (auto simp: l'_def)
  have nth: "l' ! j = (if j = i then e else l ! j)" if "j < length l'" for j
    using that assms(4) by (auto simp: l'_def nth_append nth_Cons')
  have fresh: "j < length l \<Longrightarrow> live (l ! j) \<Longrightarrow> ename (l ! j) \<noteq> ename e" for j
    using assms(2) by (simp add: dmap_None)
  have old: "j < length l'  \<Longrightarrow> j \<noteq> i \<Longrightarrow> j < length l" for j using len assms(4) by auto
  show u: "duniq l'" unfolding duniq_def
  proof (intro allI impI)
    fix j k assume jk: "j < length l'" "k < length l'" "live (l' ! j) \<and> live (l' ! k) \<and> ename (l' ! j) = ename (l' ! k)"
    show "j = k"
    proof (cases "j = i \<or> k = i")
      case True
      then show ?thesis using jk nth fresh old by metis
    next
      case False
      then show ?thesis using jk nth old duniqD[OF assms(1)] by metis
    qed
  qed
  have "dmap l' x = Some y \<longleftrightarrow> ((dmap l)(ename e \<mapsto> sfd_ino e)) x = Some y" for x y
  proof -
    have i': "i < length l'" using len by simp
    have "dmap l' x = Some y \<longleftrightarrow> (ename e = x \<and> sfd_ino e = y)
        \<or> (\<exists>j<length l'. j \<noteq> i \<and> live (l ! j) \<and> ename (l ! j) = x \<and> sfd_ino (l ! j) = y)"
      unfolding dmap_Some[OF u] using nth i' assms(3) by metis
    also have "\<dots> \<longleftrightarrow> (ename e = x \<and> sfd_ino e = y)
        \<or> (\<exists>j<length l. live (l ! j) \<and> ename (l ! j) = x \<and> sfd_ino (l ! j) = y)"
    proof -
      have "j < length l' \<and> j \<noteq> i \<and> live (l ! j) \<longleftrightarrow> j < length l \<and> live (l ! j)" for j
        using old[of j] assms(5) len by auto
      then show ?thesis by blast
    qed
    finally show ?thesis unfolding dmap_Some[OF assms(1), symmetric] using assms(2) by auto
  qed
  then show "dmap l' = (dmap l)(ename e \<mapsto> sfd_ino e)" by (intro ext) (rule option_eqI)
qed

text \<open>Emptying a slot.\<close>

lemma dmap_unlink:
  assumes "duniq l" "\<not> live e" "i < length l" "live (l ! i)"
  shows "duniq (l[i := e])" "dmap (l[i := e]) = (dmap l)(ename (l ! i) := None)"
proof -
  have nth: "j < length l \<Longrightarrow> l[i := e] ! j = (if j = i then e else l ! j)" for j by simp
  show u: "duniq (l[i := e])"
    unfolding duniq_def using nth assms(2) duniqD[OF assms(1)] by (metis length_list_update)
  have "dmap (l[i := e]) x = Some y \<longleftrightarrow> ((dmap l)(ename (l ! i) := None)) x = Some y" for x y
  proof -
    have "dmap (l[i := e]) x = Some y \<longleftrightarrow> (\<exists>j<length l. j \<noteq> i \<and> live (l ! j) \<and> ename (l ! j) = x \<and> sfd_ino (l ! j) = y)"
      unfolding dmap_Some[OF u] using nth assms(2) by (metis length_list_update)
    also have "\<dots> \<longleftrightarrow> x \<noteq> ename (l ! i) \<and> (\<exists>j<length l. live (l ! j) \<and> ename (l ! j) = x \<and> sfd_ino (l ! j) = y)"
      using duniqD[OF assms(1) _ assms(3) _ assms(4)] by blast
    finally show ?thesis unfolding dmap_Some[OF assms(1), symmetric] by auto
  qed
  then show "dmap (l[i := e]) = (dmap l)(ename (l ! i) := None)"
    by (intro ext) (rule option_eqI)
qed

section \<open>Directories on disk\<close>

definition dent :: "sfs_fs \<Rightarrow> sfs_vnode \<Rightarrow> nat \<Rightarrow> sfs_dir" where
  "dent sfs sv i = get_dir (frange (fcontent sfs sv) (64 * i) 64)"

definition nents :: "sfs_vnode \<Rightarrow> nat" where
  "nents sv = unat (sfi_size (sv_i sv)) div 64"

definition dents :: "sfs_fs \<Rightarrow> sfs_vnode \<Rightarrow> sfs_dir list" where
  "dents sfs sv = map (dent sfs sv) [0..<nents sv]"

definition dir_inv :: "sfs_fs \<Rightarrow> sfs_vnode \<Rightarrow> bool" where
  "dir_inv sfs sv \<longleftrightarrow> fs_ok sfs \<and> file_inv sfs sv \<and> sfi_type (sv_i sv) = SFS_TYPE_DIR
     \<and> unat (sfi_size (sv_i sv)) mod 64 = 0 \<and> unat (sfi_size (sv_i sv)) \<le> 143 * 512
     \<and> duniq (dents sfs sv)"

lemma dents_simps [simp]:
  "length (dents sfs sv) = nents sv" "i < nents sv \<Longrightarrow> dents sfs sv ! i = dent sfs sv i"
  by (simp_all add: dents_def)

lemma nents_bound: "dir_inv sfs sv \<Longrightarrow> nents sv \<le> 1144" "dir_inv sfs sv \<Longrightarrow> unat (sfi_size (sv_i sv)) = 64 * nents sv"
  by (auto simp: dir_inv_def nents_def)

lemma dirpos_nat: "i \<le> 1144 \<Longrightarrow> dirpos (int i) = int (64 * i)"
proof -
  assume i: "i \<le> 1144"
  have "unat (of_nat (i * 64) :: u32) = i * 64" using i by (intro unat_of_nat_u32) simp
  then have "c_int (uint (of_nat (i * 64) :: u32)) = int (i * 64)"
    using c_int_u32[of "of_nat (i * 64)"] i by simp
  then show ?thesis by (simp add: dirpos_def mult.commute)
qed

lemma quiet_dir:
  assumes "dir_inv sfs sv" "quiet sfs sv sfs' sv"
  shows "dir_inv sfs' sv" "dent sfs' sv = dent sfs sv" "dents sfs' sv = dents sfs sv"
proof -
  show d: "dent sfs' sv = dent sfs sv" using assms(2) by (intro ext) (simp add: dent_def quiet_def)
  show l: "dents sfs' sv = dents sfs sv" by (simp add: dents_def d)
  show "dir_inv sfs' sv" using assms io_step_inv[of sfs sv sfs' sv] by (simp add: dir_inv_def quiet_def l)
qed

lemma nentries_ok: "dir_inv sfs sv \<Longrightarrow> sfs_dir_nentries sv = Some (int (nents sv))"
proof -
  assume d: "dir_inv sfs sv"
  let ?s = "sfi_size (sv_i sv)"
  have s: "unat ?s < 2 ^ 31" using d by (simp add: dir_inv_def)
  have w: "word_of_int (c_int (uint ?s)) = ?s" unfolding c_int_u32[OF s] by simp
  have "unat (?s mod 64) = 0" using d by (simp add: unat_mod dir_inv_def)
  then have m: "?s mod 64 = 0" by (simp add: unat_eq_zero)
  have "unat (?s div 64) = nents sv" by (simp add: unat_div nents_def)
  then have "c_int (uint (?s div 64)) = int (nents sv)"
    using c_int_u32[of "?s div 64"] nents_bound(1)[OF d] by simp
  then show ?thesis using d m by (simp add: sfs_dir_nentries_def w dir_inv_def Let_def)
qed

lemma readdir_ok:
  assumes "dir_inv sfs sv" "i < nents sv"
  shows "\<exists>sfs'. sfs_readdir sfs sv (int i) = Some (ESUCCESS, dent sfs sv i, sfs', sv) \<and> quiet sfs sv sfs' sv"
proof -
  let ?u = "mk_kuio (replicate 64 0) 64 (int (64 * i)) UIO_READ"
  have i: "i \<le> 1144" using nents_bound(1)[OF assms(1)] assms(2) by simp
  have pre: "fs_ok sfs" "file_inv sfs sv" "unat (sfi_size (sv_i sv)) \<le> 143 * 512"
    using assms(1) by (simp_all add: dir_inv_def)
  have "rready sfs sv ?u" using rready_kuio[OF pre(1,2), of "64 * i" "replicate 64 0"] pre(3) i by simp
  moreover have a: "avail sv ?u = 64"
    using nents_bound(2)[OF assms(1)] assms(2) by (simp add: avail_def mk_kuio_def)
  moreover have "iov_room (iov_un ?u) 64" by (simp add: mk_kuio_def iov_room_def)
  ultimately obtain sfs' u' where r: "sfs_read sfs sv ?u = Some (ESUCCESS, sfs', sv, u')" "quiet sfs sv sfs' sv"
    "given 64 sfs sv ?u u'"
    using read_outcome[of sfs sv ?u] by auto
  have "sfs_io sfs sv ?u = Some (ESUCCESS, sfs', sv, u')" using r(1) by (simp add: sfs_read_def mk_kuio_def)
  moreover have "uio_resid u' = 0" "kobj u' = frange (fcontent sfs sv) (64 * i) 64"
    using r(3) by (simp_all add: given_def mk_kuio_def kobj_def iov_store_def del: of_nat_mult)
  ultimately show ?thesis using r(2) i
    by (simp add: sfs_readdir_def dirpos_nat dent_def)
qed

text \<open>What the search has found in the first \<open>a\<close> slots.\<close>

definition found_upto :: "sfs_dir list \<Rightarrow> fname \<Rightarrow> nat \<Rightarrow> int \<Rightarrow> found \<Rightarrow> bool" where
  "found_upto l name a e0 out \<longleftrightarrow>
     (fd_found out \<longrightarrow> (\<exists>i<a. fd_slot out = int i \<and> live (l ! i) \<and> ename (l ! i) = name \<and> fd_ino out = sfd_ino (l ! i)))
     \<and> (\<not> fd_found out \<longrightarrow> (\<forall>i<a. live (l ! i) \<longrightarrow> ename (l ! i) \<noteq> name))
     \<and> (fd_empty out = e0 \<or> (\<exists>i<a. fd_empty out = int i \<and> \<not> live (l ! i)))"

lemma found_upto_Suc:
  assumes "found_upto l name a e0 out"
  shows "\<not> live (l ! a) \<Longrightarrow> found_upto l name (Suc a) e0 (out\<lparr>fd_empty := int a\<rparr>)"
    and "live (l ! a) \<Longrightarrow> ename (l ! a) = name \<Longrightarrow>
      found_upto l name (Suc a) e0 (out\<lparr>fd_found := True, fd_slot := int a, fd_ino := sfd_ino (l ! a)\<rparr>)"
    and "live (l ! a) \<Longrightarrow> ename (l ! a) \<noteq> name \<Longrightarrow> found_upto l name (Suc a) e0 out"
  using assms unfolding found_upto_def by (auto simp: less_Suc_eq)

lemma find_slots_ok:
  assumes "dir_inv sfs sv" "a \<le> nents sv" "found_upto (dents sfs sv) name a e0 out"
  shows "\<exists>out' sfs'. find_slots name (map int [a..<nents sv]) out sfs sv = Some (ESUCCESS, out', sfs', sv)
     \<and> quiet sfs sv sfs' sv \<and> found_upto (dents sfs sv) name (nents sv) e0 out'"
  using assms
proof (induction "nents sv - a" arbitrary: a out sfs)
  case 0
  then have "quiet sfs sv sfs sv" using io_step_refl by (simp add: quiet_def dir_inv_def)
  then show ?case using 0 by auto
next
  case (Suc n)
  then have a: "a < nents sv" by simp
  obtain sfs1 where r: "sfs_readdir sfs sv (int a) = Some (ESUCCESS, dent sfs sv a, sfs1, sv)" "quiet sfs sv sfs1 sv"
    using readdir_ok[OF Suc.prems(1) a] by blast
  note q = quiet_dir[OF Suc.prems(1) r(2)]
  let ?e = "dent sfs sv a"
  define out1 where "out1 = (if \<not> live ?e then out\<lparr>fd_empty := int a\<rparr>
      else if ename ?e = name then out\<lparr>fd_found := True, fd_slot := int a, fd_ino := sfd_ino ?e\<rparr> else out)"
  have f1: "found_upto (dents sfs1 sv) name (Suc a) e0 out1"
    using found_upto_Suc[OF Suc.prems(3)] a by (simp add: out1_def q(3))
  have once: "\<not> fd_found out" if "live ?e" "ename ?e = name"
  proof
    assume "fd_found out"
    then obtain i where "i < a" "live (dents sfs sv ! i)" "ename (dents sfs sv ! i) = name"
      using Suc.prems(3) by (auto simp: found_upto_def)
    then have "i = a" using that a Suc.prems(1) duniqD[of "dents sfs sv" i a] by (simp add: dir_inv_def)
    then show False using \<open>i < a\<close> by simp
  qed
  obtain out' sfs' where IH: "find_slots name (map int [Suc a..<nents sv]) out1 sfs1 sv = Some (ESUCCESS, out', sfs', sv)"
    "quiet sfs1 sv sfs' sv" "found_upto (dents sfs1 sv) name (nents sv) e0 out'"
  proof -
    have "n = nents sv - Suc a" "Suc a \<le> nents sv" using Suc.hyps(2) a by simp_all
    then show thesis using that Suc.hyps(1)[OF _ q(1) _ f1] by blast
  qed
  have "find_slots name (map int [a..<nents sv]) out sfs sv = Some (ESUCCESS, out', sfs', sv)"
    using r(1) IH(1) once by (auto simp: upt_conv_Cons[OF a] out1_def live_def ename_def)
  then show ?case using IH(2,3) quiet_trans[OF r(2)] by (auto simp: q(3))
qed

text \<open>The search is the lookup in the map, and hands back an empty slot if it met one.\<close>

lemma findname_ok:
  assumes "dir_inv sfs sv"
  obtains (found) out sfs' i where "sfs_dir_findname sfs sv name out0 = Some (ESUCCESS, out, sfs', sv)" "quiet sfs sv sfs' sv"
      "dmap (dents sfs sv) name = Some (fd_ino out)" "fd_slot out = int i" "i < nents sv"
      "live (dent sfs sv i)" "ename (dent sfs sv i) = name"
  | (absent) out sfs' where "sfs_dir_findname sfs sv name out0 = Some (ENOENT, out, sfs', sv)" "quiet sfs sv sfs' sv"
      "dmap (dents sfs sv) name = None"
      "fd_empty out = fd_empty out0 \<or> (\<exists>i<nents sv. fd_empty out = int i \<and> \<not> live (dent sfs sv i))"
proof -
  have "found_upto (dents sfs sv) name 0 (fd_empty out0) (out0\<lparr>fd_found := False\<rparr>)" by (simp add: found_upto_def)
  then obtain out sfs' where f: "find_slots name (map int [0..<nents sv]) (out0\<lparr>fd_found := False\<rparr>) sfs sv = Some (ESUCCESS, out, sfs', sv)"
    "quiet sfs sv sfs' sv" "found_upto (dents sfs sv) name (nents sv) (fd_empty out0) out"
    using find_slots_ok[OF assms le0] by blast
  have r: "sfs_dir_findname sfs sv name out0 = Some (if fd_found out then ESUCCESS else ENOENT, out, sfs', sv)"
    using f(1) nentries_ok[OF assms] by (simp add: sfs_dir_findname_def)
  have u: "duniq (dents sfs sv)" using assms by (simp add: dir_inv_def)
  show thesis
  proof (cases "fd_found out")
    case True
    then obtain i where i: "i < nents sv" "fd_slot out = int i" "live (dent sfs sv i)" "ename (dent sfs sv i) = name"
      "fd_ino out = sfd_ino (dent sfs sv i)"
      using f(3) by (auto simp: found_upto_def)
    then have "dmap (dents sfs sv) name = Some (fd_ino out)" by (auto simp: dmap_Some[OF u])
    then show thesis using found[OF _ f(2) _ i(2,1,3,4)] r True by simp
  next
    case False
    then have "dmap (dents sfs sv) name = None" using f(3) by (auto simp: dmap_None found_upto_def)
    then show thesis using absent[OF _ f(2)] r False f(3) by (auto simp: found_upto_def)
  qed
qed

text \<open>A write within one block is done or not done.\<close>

lemma small_write:
  assumes "wpre sfs sv u" "0 < uio_resid u" "nat (uio_offset u) mod 512 + unat (uio_resid u) \<le> 512" "unat (uio_resid u) < 512"
  shows "chunk_post (unat (uio_resid u)) sfs sv u (sfs_io_body sfs sv u)"
proof -
  let ?n = "unat (uio_resid u)"
  obtain off where off: "uio_offset u = int off" "off + ?n < 2 ^ 31" using wpre_off[OF assms(1)] .
  define skip where "skip = off mod 512"
  have n0: "0 < ?n" using assms(2) by (simp add: word_gt_0 unat_gt_0)
  have cp: "chunk_post ?n sfs sv u (sfs_partialio sfs sv u (of_nat skip) (uio_resid u))"
    using partialio_write[OF assms(1) n0 order_refl, of skip] assms(3) off(1) by (simp add: skip_def)
  show ?thesis
  proof (cases "skip = 0")
    case True
    have lt: "uio_resid u < 512" using assms(4) by (simp add: word_less_nat_alt)
    then have "uio_resid u div 512 = 0" by (simp add: div_eq_0_iff word_less_nat_alt unat_eq_zero[symmetric] unat_div)
    moreover have "c_rem (int off) 512 = 0" using blkoff_nat(2)[of off] True by (simp add: skip_def)
    ultimately have "sfs_io_body sfs sv u = sfs_partialio sfs sv u 0 (uio_resid u)"
      unfolding io_body_split off(1) blkoff_nat(1) skip_def[symmetric]
      using True lt assms(2) off(1) by (simp add: io_aligned_def word_gt_0)
    then show ?thesis using cp True by simp
  next
    case False
    have sw: "unat (of_nat skip :: u32) = skip" by (intro unat_of_nat_u32) (simp add: skip_def order_less_trans[OF mod_less_divisor])
    then have nz: "(of_nat skip :: u32) \<noteq> 0" using False by (metis unat_0)
    have "unat (512 - of_nat skip :: u32) = 512 - skip"
      using sw by (simp add: unat_sub word_le_nat_alt skip_def less_imp_le)
    then have "uio_resid u \<le> 512 - of_nat skip" using assms(3) off(1) by (simp add: word_le_nat_alt skip_def)
    then have mn: "min (512 - of_nat skip) (uio_resid u) = uio_resid u" by (rule min_absorb2)
    obtain r sfs' sv' u' where out: "sfs_partialio sfs sv u (of_nat skip) (uio_resid u) = Some (r, sfs', sv', u')"
      "r = ESUCCESS \<and> wrote ?n sfs sv u sfs' sv' u' \<or> wreason ?n u r sfs' \<and> wrote 0 sfs sv u sfs' sv' u'"
      using cp by (auto simp: chunk_post_def)
    have "uio_resid u' = 0" if "r = ESUCCESS"
      using wrote_pos(2)[OF assms(1)] out(2) that by (auto simp: unat_eq_zero[symmetric] dest: wreason_err)
    then have "sfs_io_body sfs sv u = Some (r, sfs', sv', u')"
      unfolding io_body_split off(1) blkoff_nat(1) skip_def[symmetric]
      using nz out(1) by (simp add: mn io_aligned_def)
    then show ?thesis using out(2) by (auto simp: chunk_post_def)
  qed
qed

text \<open>What a change of a directory leaves alone.\<close>

definition dstep :: "sfs_fs \<Rightarrow> sfs_vnode \<Rightarrow> sfs_fs \<Rightarrow> sfs_vnode \<Rightarrow> bool" where
  "dstep sfs sv sfs' sv' \<longleftrightarrow> (\<exists>sv1 n. io_step sfs sv sfs' sv1 \<and> sv' = sized n sv1)"

lemma sized_simps [simp]:
  "fcontent sfs (sized n sv) = fcontent sfs sv" "file_inv sfs (sized n sv) \<longleftrightarrow> file_inv sfs sv"
  "sfi_type (sv_i (sized n sv)) = sfi_type (sv_i sv)" "sv_ino (sized n sv) = sv_ino sv"
  "owned sfs (sized n sv) = owned sfs sv" "blockmap sfs (sized n sv) = blockmap sfs sv"
  by (simp_all add: sized_def)

lemma put_dir_length: "length (sfd_name e) = 60 \<Longrightarrow> length (put_dir e) = 64"
  by (simp add: put_dir_def be32_put_def)

lemma frange_patch_other:
  "b + m \<le> a \<or> a + length d \<le> b \<Longrightarrow> frange (patch f a d) b m = frange f b m"
  by (auto simp: frange_def patch_def)

lemma writedir_ok:
  assumes "dir_inv sfs sv" "i \<le> nents sv" "length (sfd_name e) = 60"
  obtains (ok) sfs' sv' where "sfs_writedir sfs sv e (int i) = Some (ESUCCESS, sfs', sv')" "dstep sfs sv sfs' sv'"
      "dents sfs' sv' = take i (dents sfs sv) @ e # drop (Suc i) (dents sfs sv)"
      "i < 1144" "unat (sfi_size (sv_i sv')) = max (unat (sfi_size (sv_i sv))) (64 * i + 64)"
  | (fail) r sfs' sv' where "sfs_writedir sfs sv e (int i) = Some (r, sfs', sv')"
      "r = ENOSPC \<and> vol_full sfs' \<or> r = EINVAL \<and> i = 1144" "dstep sfs sv sfs' sv'"
      "dents sfs' sv' = dents sfs sv" "sfi_size (sv_i sv') = sfi_size (sv_i sv)"
proof -
  define d where "d = put_dir e"
  define u where "u = mk_kuio d 64 (int (64 * i)) UIO_WRITE"
  have d: "length d = 64" "get_dir d = e" using put_dir_length[OF assms(3)] by (simp_all add: d_def)
  note nb = nents_bound[OF assms(1)]
  have i: "i \<le> 1144" using nb(1) assms(2) by simp
  have pre: "fs_ok sfs" "file_inv sfs sv" "unat (sfi_size (sv_i sv)) < 2 ^ 31"
    using assms(1) by (simp_all add: dir_inv_def)
  have wp: "wpre sfs sv u" using wpre_kuio[OF pre(1,2), of "64 * i" d] i d by (simp add: u_def)
  have u: "uio_resid u = 64" "nat (uio_offset u) = 64 * i" "iov_bytes (iov_un u) 64 = d" "uio_offset u = int (64 * i)"
    using d by (simp_all add: u_def mk_kuio_def iov_bytes_def del: of_nat_mult)
  have "64 * i mod 512 = 64 * (i mod 8)" using mult_mod_right[of 64 i 8] by simp
  moreover have "i mod 8 < 8" by simp
  ultimately have m: "64 * i mod 512 + 64 \<le> 512" by linarith
  obtain r sfs' sv1 u' where body: "sfs_io_body sfs sv u = Some (r, sfs', sv1, u')"
    and w: "r = ESUCCESS \<and> wrote 64 sfs sv u sfs' sv1 u' \<or> wreason 64 u r sfs' \<and> wrote 0 sfs sv u sfs' sv1 u'"
    using small_write[OF wp] u m by (auto simp: chunk_post_def)
  show thesis
  proof (cases "r = ESUCCESS")
    case True
    then have w: "wrote 64 sfs sv u sfs' sv1 u'" using w wreason_err by blast
    define sv' where "sv' = sized (64 * i + 64) sv1"
    note fin = write_finish[OF wp pre(3) body w, unfolded u(2), folded sv'_def]
    have sz: "unat (sfi_size (sv_i sv')) = max (unat (sfi_size (sv_i sv))) (64 * i + 64)"
      and fc: "fcontent sfs' sv' = patch (fcontent sfs sv) (64 * i) d"
      using fin(2) by (simp_all add: written_def u(1-3))
    have "uio_resid u' = 0" using wrote_pos(2)[OF wp w] by (simp add: u unat_eq_zero[symmetric])
    then have r: "sfs_writedir sfs sv e (int i) = Some (ESUCCESS, sfs', sv')"
      using fin(1) True i by (simp add: sfs_writedir_def dirpos_nat u_def d_def del: of_nat_mult)
    have "dstep sfs sv sfs' sv'" using w by (auto simp: dstep_def sv'_def wrote_def)
    moreover have n: "nents sv' = max (nents sv) (Suc i)"
      using nents_def[of sv'] sz nb(2) by (auto simp: max_def)
    have "dents sfs' sv' = take i (dents sfs sv) @ e # drop (Suc i) (dents sfs sv)"
    proof (rule nth_equalityI)
      fix j assume "j < length (dents sfs' sv')"
      then have j: "j < nents sv'" "j \<noteq> i \<Longrightarrow> j < nents sv" using n assms(2) by auto
      have "j \<noteq> i \<Longrightarrow> 64 * j + 64 \<le> 64 * i \<or> 64 * i + 64 \<le> 64 * j" by linarith
      then have "dent sfs' sv' j = (if j = i then e else dent sfs sv j)"
        using frange_patch[of "fcontent sfs sv" "64 * i" d] frange_patch_other[of "64 * j" 64 "64 * i" d "fcontent sfs sv"] d
        by (auto simp: dent_def fc)
      then show "dents sfs' sv' ! j = (take i (dents sfs sv) @ e # drop (Suc i) (dents sfs sv)) ! j"
        using j assms(2) by (auto simp: nth_append nth_Cons')
    qed (use n assms(2) in auto)
    moreover have "i \<noteq> 1144"
    proof
      assume "i = 1144"
      then have "143 \<le> unat (file_block (uio_offset u))" using file_block_nat[of "64 * i"] by (simp add: u)
      then show False using body_too_big[of u "64 * i" sfs sv] body True u by simp
    qed
    ultimately show thesis using ok[OF r] i sz by simp
  next
    case False
    then have re: "wreason 64 u r sfs'" and w: "wrote 0 sfs sv u sfs' sv1 u'" using w by simp_all
    have "iov_room (iov_un u) 64" using d(1) by (simp add: u_def mk_kuio_def iov_room_def)
    then have re: "r = ENOSPC \<and> vol_full sfs' \<or> r = EINVAL \<and> i = 1144"
      using re u(2) i by (auto simp: wreason_def)
    define sv' where "sv' = sized (64 * i + 0) sv1"
    note fin = write_finish[OF wp pre(3) body w, unfolded u(2), folded sv'_def]
    have sz: "unat (sfi_size (sv_i sv')) = unat (sfi_size (sv_i sv))" and fc: "fcontent sfs' sv' = fcontent sfs sv"
      using fin(2) nb(2) assms(2) by (simp_all add: written_def u(1-3))
    have "sfs_writedir sfs sv e (int i) = Some (r, sfs', sv')"
      using fin(1) False i by (simp add: sfs_writedir_def dirpos_nat u_def d_def del: of_nat_mult)
    moreover have "dstep sfs sv sfs' sv'" using w by (auto simp: dstep_def sv'_def wrote_def)
    moreover have "dents sfs' sv' = dents sfs sv"
      unfolding dents_def nents_def sz by (simp add: dent_def fc)
    moreover have "sfi_size (sv_i sv') = sfi_size (sv_i sv)" using sz by (simp add: word_unat_eq_iff)
    ultimately show thesis using fail[OF _ re] by simp
  qed
qed

section \<open>Link and unlink\<close>

lemma dstep_inv:
  assumes "dstep sfs sv sfs' sv'" shows "fs_ok sfs'" "file_inv sfs' sv'" "sfi_type (sv_i sv') = sfi_type (sv_i sv)"
  using assms by (auto simp: dstep_def io_step_def same_sv_def)

lemma dstep_dir:
  assumes "dir_inv sfs sv" "dstep sfs sv sfs' sv'" "duniq (dents sfs' sv')"
    and "unat (sfi_size (sv_i sv')) mod 64 = 0" "unat (sfi_size (sv_i sv')) \<le> 143 * 512"
  shows "dir_inv sfs' sv'"
  using assms dstep_inv[OF assms(2)] by (simp add: dir_inv_def)

lemma dstep_quiet: "quiet sfs sv sfs' sv \<Longrightarrow> dstep sfs sv sfs' sv"
proof -
  assume "quiet sfs sv sfs' sv"
  moreover have "sized 0 sv = sv" by (simp add: sized_def)
  ultimately show ?thesis unfolding dstep_def quiet_def by metis
qed

lemma take_entry: "i < length l \<Longrightarrow> take i l @ e # drop (Suc i) l = l[i := e]"
  by (simp add: upd_conv_take_nth_drop)

lemma name_entry:
  assumes "0 \<notin> set name" "length name < 60"
  shows "ename \<lparr>sfd_ino = ino, sfd_name = name @ replicate (60 - length name) 0\<rparr> = name"
proof -
  have "takeWhile (\<lambda>c. c \<noteq> 0) (name @ replicate (60 - length name) 0) = name"
    using assms by (subst takeWhile_append2) (auto simp: takeWhile_eq_Nil_iff)
  moreover have "(name @ replicate (60 - length name) 0)[59 := 0] = name @ replicate (60 - length name) 0"
    using assms(2) by (simp add: list_update_append list_update_same_conv)
  ultimately show ?thesis by (simp add: ename_def cstring_def)
qed

text \<open>
  \<open>sfs_dir_link\<close> against the map: a name that exists is refused, a name that is too long is refused,
  and otherwise the name is added, or the volume has no room and the directory is as it was.
\<close>

lemma dir_link_outcome:
  assumes "dir_inv sfs sv" "ino \<noteq> SFS_NOINO" "0 \<notin> set name"
  shows "\<exists>r slot sfs' sv'. sfs_dir_link sfs sv name ino = Some (r, slot, sfs', sv')
     \<and> dir_inv sfs' sv' \<and> dstep sfs sv sfs' sv'
     \<and> (if dmap (dents sfs sv) name \<noteq> None then r = EEXIST
        else if 60 \<le> length name then r = ENAMETOOLONG
        else r = ESUCCESS \<or> r = ENOSPC \<and> vol_full sfs' \<or> r = EINVAL \<and> nents sv = 1144)
     \<and> dmap (dents sfs' sv') = (if r = ESUCCESS then (dmap (dents sfs sv))(name \<mapsto> ino) else dmap (dents sfs sv))
     \<and> (r = ESUCCESS \<longrightarrow> (\<exists>i<nents sv'. slot = int i \<and> live (dent sfs' sv' i) \<and> ename (dent sfs' sv' i) = name))"
  using assms(1)
proof (cases rule: findname_ok[of sfs sv name no_found])
  case (found out sfs' i)
  then have "sfs_dir_link sfs sv name ino = Some (EEXIST, -1, sfs', sv)" by (simp add: sfs_dir_link_def)
  then show ?thesis using found(2,3) quiet_dir[OF assms(1) found(2)] dstep_quiet by auto
next
  case (absent out sfs1)
  note q = quiet_dir[OF assms(1) absent(2)]
  show ?thesis
  proof (cases "60 \<le> length name")
    case True
    then have "sfs_dir_link sfs sv name ino = Some (ENAMETOOLONG, -1, sfs1, sv)"
      using absent(1) by (simp add: sfs_dir_link_def)
    then show ?thesis using True absent(2,3) q dstep_quiet by auto
  next
    case False
    define e where "e = \<lparr>sfd_ino = ino, sfd_name = name @ replicate (60 - length name) 0\<rparr>"
    have e: "live e" "ename e = name" "sfd_ino e = ino" "length (sfd_name e) = 60"
      using assms(2,3) False name_entry[of name ino] by (simp_all add: e_def live_def)
    define i where "i = (if fd_empty out < 0 then nents sv else nat (fd_empty out))"
    have i: "i \<le> nents sv" "i < nents sv \<longrightarrow> \<not> live (dents sfs1 sv ! i)"
      using absent(4) by (auto simp: i_def no_found_def q(2))
    have link: "sfs_dir_link sfs sv name ino = do {
        (result, sfs, sv) \<leftarrow> sfs_writedir sfs1 sv e (int i);
        Some (result, int i, sfs, sv) }"
      using absent(1) False nentries_ok[OF assms(1)] by (simp add: sfs_dir_link_def e_def i_def)
    have st: "dstep sfs sv sfs' sv'" if "dstep sfs1 sv sfs' sv'" for sfs' sv'
      using that absent(2) io_step_trans unfolding dstep_def quiet_def by blast
    show ?thesis
      using q(1) i(1) e(4)
    proof (cases rule: writedir_ok)
      case (ok sfs' sv')
      have "dmap (dents sfs1 sv) (ename e) = None" using absent(3) by (simp add: q(3) e)
      moreover have "duniq (dents sfs1 sv)" using q(1) by (simp add: dir_inv_def)
      ultimately have dm: "duniq (dents sfs' sv')" "dmap (dents sfs' sv') = (dmap (dents sfs sv))(name \<mapsto> ino)"
        using dmap_link[of "dents sfs1 sv" e i] e i ok(3) by (simp_all add: q(3))
      have sz: "unat (sfi_size (sv_i sv')) mod 64 = 0" "unat (sfi_size (sv_i sv')) \<le> 143 * 512" "i < nents sv'"
        using ok(4,5) q(1) unfolding nents_def by (auto simp: max_def dir_inv_def)
      have "dir_inv sfs' sv'" using dstep_dir[OF q(1) ok(2) dm(1) sz(1,2)] .
      moreover have "dents sfs' sv' ! i = e" using ok(3) i(1) by (simp add: nth_append)
      then have "dent sfs' sv' i = e" using sz(3) by simp
      ultimately show ?thesis using link ok(1) st[OF ok(2)] dm(2) absent(3) False sz(3) e by auto
    next
      case (fail r sfs' sv')
      have "dir_inv sfs' sv'" using q(1) fail(4,5) by (intro dstep_dir[OF q(1) fail(3)]) (simp_all add: dir_inv_def)
      moreover have "i = 1144 \<Longrightarrow> nents sv = 1144" using i(1) nents_bound(1)[OF assms(1)] by simp
      ultimately show ?thesis using link fail st[OF fail(3)] absent(3) False q(3) by auto
    qed
  qed
qed

lemma dir_unlink_outcome:
  assumes "dir_inv sfs sv" "i < nents sv" "live (dent sfs sv i)"
  shows "\<exists>r sfs' sv'. sfs_dir_unlink sfs sv (int i) = Some (r, sfs', sv') \<and> dir_inv sfs' sv' \<and> dstep sfs sv sfs' sv'
     \<and> (r = ESUCCESS \<or> r = ENOSPC \<and> vol_full sfs')
     \<and> dmap (dents sfs' sv') = (if r = ESUCCESS then (dmap (dents sfs sv))(ename (dent sfs sv i) := None) else dmap (dents sfs sv))"
proof -
  let ?e = "\<lparr>sfd_ino = SFS_NOINO, sfd_name = replicate 60 0\<rparr>"
  have nl: "\<not> live ?e" by (simp add: live_def)
  have len: "length (sfd_name ?e) = 60" by simp
  have u: "duniq (dents sfs sv)" using assms(1) by (simp add: dir_inv_def)
  show ?thesis
    using assms(1) less_imp_le[OF assms(2)] len
  proof (cases rule: writedir_ok)
    case (ok sfs' sv')
    have d: "dents sfs' sv' = (dents sfs sv)[i := ?e]" using ok(3) take_entry[of i "dents sfs sv" ?e] assms(2) by simp
    note dm = dmap_unlink[OF u nl, of i, folded d]
    have "unat (sfi_size (sv_i sv')) = unat (sfi_size (sv_i sv))"
      using ok(5) nents_bound(2)[OF assms(1)] assms(2) by (simp add: max_def)
    then have "dir_inv sfs' sv'"
      using assms dm by (intro dstep_dir[OF assms(1) ok(2)]) (simp_all add: dir_inv_def)
    then show ?thesis using ok(1,2) dm assms by (simp add: sfs_dir_unlink_def)
  next
    case (fail r sfs' sv')
    have "i \<noteq> 1144" using nents_bound(1)[OF assms(1)] assms(2) by simp
    moreover have "dir_inv sfs' sv'"
      using assms(1) fail(4,5) by (intro dstep_dir[OF assms(1) fail(3)]) (simp_all add: dir_inv_def)
    ultimately show ?thesis using fail by (auto simp: sfs_dir_unlink_def)
  qed
qed

section \<open>Properties\<close>

definition ex_dir :: sfs_vnode where
  "ex_dir = ex_sv\<lparr>vn_isdir := True, sv_i := (sv_i ex_sv)\<lparr>sfi_type := SFS_TYPE_DIR\<rparr>, sv_ino := 1\<rparr>"

lemma ex_dir_inv: "dir_inv ex_fs ex_dir"
proof -
  have "blockmap ex_fs ex_dir fb = 0" for fb by (simp add: blockmap_def ex_sv_def ex_dir_def)
  then have "file_inv ex_fs ex_dir" by (simp add: file_inv_def inode_ok_def ex_sv_def ex_dir_def)
  then show ?thesis using ex_fs_ok by (simp add: dir_inv_def ex_dir_def ex_sv_def duniq_def dents_def nents_def)
qed

lemma ex_link: "\<exists>slot sfs sv. sfs_dir_link ex_fs ex_dir [97] 5 = Some (ESUCCESS, slot, sfs, sv)"
proof -
  have "(case sfs_dir_link ex_fs ex_dir [97] 5 of Some (r, _) \<Rightarrow> r = ESUCCESS | None \<Rightarrow> False)" by code_simp
  then show ?thesis by (auto split: option.splits)
qed







end
