(* ===== verification/Sfs_Trunc.thy ===== *)
theory Sfs_Trunc
  imports Sfs_Dir
begin

text \<open>
  Truncation: \<open>sfs_truncate\<close> of \<open>src/kern/fs/sfs/sfs_vnode.c\<close>.  It frees the blocks past the
  new end of the file, except that in the range of the indirect block it keeps one block more.
\<close>

section \<open>Model\<close>

fun trunc_direct :: "nat list \<Rightarrow> u32 \<Rightarrow> sfs_fs \<Rightarrow> sfs_vnode \<Rightarrow> (sfs_fs \<times> sfs_vnode) option" where
  "trunc_direct [] blocklen sfs sv = Some (sfs, sv)"
| "trunc_direct (i # is) blocklen sfs sv = do {
     block \<leftarrow> rd (sfi_direct (sv_i sv)) (int i);
     if of_nat i \<ge> blocklen \<and> block \<noteq> 0 then do {
       sfs \<leftarrow> sfs_bfree sfs block;
       direct \<leftarrow> wr (sfi_direct (sv_i sv)) (int i) 0;
       trunc_direct is blocklen sfs (sv\<lparr>sv_i := (sv_i sv)\<lparr>sfi_direct := direct\<rparr>, sv_dirty := True\<rparr>) }
     else trunc_direct is blocklen sfs sv }"

fun trunc_entries :: "nat list \<Rightarrow> u32 \<Rightarrow> sfs_fs \<Rightarrow> u32 list \<Rightarrow> bool \<Rightarrow> bool
    \<Rightarrow> (sfs_fs \<times> u32 list \<times> bool \<times> bool) option" where
  "trunc_entries [] blocklen sfs idbuf hasnonzero iddirty = Some (sfs, idbuf, hasnonzero, iddirty)"
| "trunc_entries (j # js) blocklen sfs idbuf hasnonzero iddirty = do {
     block \<leftarrow> rd idbuf (int j);
     (sfs, idbuf, iddirty) \<leftarrow>
       (if blocklen < 15 + of_nat j \<and> block \<noteq> 0 then do {
          sfs \<leftarrow> sfs_bfree sfs block;
          idbuf \<leftarrow> wr idbuf (int j) 0;
          Some (sfs, idbuf, True) }
        else Some (sfs, idbuf, iddirty));
     block \<leftarrow> rd idbuf (int j);
     trunc_entries js blocklen sfs idbuf (hasnonzero \<or> block \<noteq> 0) iddirty }"

text \<open>The part for the indirect block, up to setting the size.\<close>

definition trunc_indirect :: "u32 \<Rightarrow> sfs_fs \<Rightarrow> sfs_vnode \<Rightarrow> (errno \<times> sfs_fs \<times> sfs_vnode) option" where
  "trunc_indirect blocklen sfs sv =
     (let idblock = sfi_indirect (sv_i sv); highblock = 15 + 128 - 1 in
      if blocklen < highblock \<and> idblock \<noteq> 0 then do {
        (result, buf, dev) \<leftarrow> sfs_rblock (sfs_device sfs) (replicate 512 0) idblock;
        let sfs = sfs\<lparr>sfs_device := dev\<rparr>;
        if result \<noteq> ESUCCESS then Some (result, sfs, sv)
        else do {
          (sfs, idbuf, hasnonzero, iddirty) \<leftarrow> trunc_entries [0..<128] blocklen sfs (get_words 128 buf) False False;
          if \<not> hasnonzero then do {
            sfs \<leftarrow> sfs_bfree sfs idblock;
            Some (ESUCCESS, sfs, sv\<lparr>sv_i := (sv_i sv)\<lparr>sfi_indirect := 0\<rparr>, sv_dirty := True\<rparr>) }
          else if iddirty then do {
            (result, dev) \<leftarrow> sfs_wblock (sfs_device sfs) (put_words idbuf) idblock;
            Some (result, sfs\<lparr>sfs_device := dev\<rparr>, sv) }
          else Some (ESUCCESS, sfs, sv) } }
      else Some (ESUCCESS, sfs, sv))"

definition sfs_truncate :: "int \<Rightarrow> sfs_fs \<Rightarrow> sfs_vnode \<Rightarrow> (errno \<times> sfs_fs \<times> sfs_vnode) option" where
  "sfs_truncate len sfs sv = do {
     let blocklen = file_block (c_int (c_int (len + 512) - 1));
     (sfs, sv) \<leftarrow> trunc_direct [0..<15] blocklen sfs sv;
     (result, sfs, sv) \<leftarrow> trunc_indirect blocklen sfs sv;
     if result \<noteq> ESUCCESS then Some (result, sfs, sv)
     else Some (ESUCCESS, sfs,
       sv\<lparr>sv_i := (sv_i sv)\<lparr>sfi_size := word_of_int len\<rparr>, sv_dirty := True\<rparr>) }"

section \<open>Freeing blocks\<close>

text \<open>
  A step of truncation: the blocks the file no longer has are free, and nothing else is.
\<close>

definition trim :: "sfs_fs \<Rightarrow> sfs_vnode \<Rightarrow> sfs_fs \<Rightarrow> sfs_vnode \<Rightarrow> bool" where
  "trim sfs sv sfs' sv' \<longleftrightarrow> fs_ok sfs' \<and> file_inv sfs' sv' \<and> same_fs sfs sfs' \<and> same_sv sv sv'
     \<and> owned sfs' sv' \<subseteq> owned sfs sv \<and> used sfs' = used sfs - unat ` (owned sfs sv - owned sfs' sv')
     \<and> (\<forall>b. b \<notin> owned sfs sv \<longrightarrow> secs sfs' b = secs sfs b)
     \<and> (\<forall>fb. blockmap sfs' sv' fb = 0 \<or> blockmap sfs' sv' fb = blockmap sfs sv fb
             \<and> secs sfs' (blockmap sfs sv fb) = secs sfs (blockmap sfs sv fb))"

lemma unat_image_iff: "unat b \<in> unat ` A \<longleftrightarrow> (b :: u32) \<in> A"
  by (simp add: inj_image_mem_iff inj_on_def word_unat_eq_iff)

lemma trim_refl: "fs_ok sfs \<Longrightarrow> file_inv sfs sv \<Longrightarrow> trim sfs sv sfs sv"
  by (simp add: trim_def same_fs_def same_sv_def)

lemma trim_trans:
  assumes "trim sfs sv sfs1 sv1" "trim sfs1 sv1 sfs2 sv2" shows "trim sfs sv sfs2 sv2"
proof -
  note a = assms(1)[unfolded trim_def] and b = assms(2)[unfolded trim_def]
  have o: "owned sfs2 sv2 \<subseteq> owned sfs1 sv1" "owned sfs1 sv1 \<subseteq> owned sfs sv" using a b by simp_all
  have "used sfs2 = used sfs - unat ` (owned sfs sv - owned sfs1 sv1) - unat ` (owned sfs1 sv1 - owned sfs2 sv2)"
    using a b by simp
  moreover have "owned sfs sv - owned sfs2 sv2 = (owned sfs sv - owned sfs1 sv1) \<union> (owned sfs1 sv1 - owned sfs2 sv2)"
    using o by blast
  ultimately have "used sfs2 = used sfs - unat ` (owned sfs sv - owned sfs2 sv2)" by (simp add: image_Un Diff_Diff_Int Diff_Un set_diff_eq)
  moreover have "same_fs sfs sfs2" "same_sv sv sv2" using a b same_sv_trans by (auto simp: same_fs_def)
  moreover have "\<forall>x. x \<notin> owned sfs sv \<longrightarrow> secs sfs2 x = secs sfs x" using a b o by (metis subsetD)
  moreover have "\<forall>fb. blockmap sfs2 sv2 fb = 0 \<or> blockmap sfs2 sv2 fb = blockmap sfs sv fb
             \<and> secs sfs2 (blockmap sfs sv fb) = secs sfs (blockmap sfs sv fb)" using a b by metis
  moreover have "fs_ok sfs2" "file_inv sfs2 sv2" using b by simp_all
  moreover have "owned sfs2 sv2 \<subseteq> owned sfs sv" using o by (rule subset_trans)
  ultimately show ?thesis unfolding trim_def by (intro conjI)
qed

text \<open>A step that cuts the block map down to \<open>m\<close>.\<close>

lemma trimI:
  assumes "file_inv sfs sv" "fs_ok sfs'" "same_fs sfs sfs'" "same_sv sv sv'" "inode_ok (sv_i sv')"
    and "\<And>fb. blockmap sfs' sv' fb = blockmap sfs sv fb \<or> blockmap sfs' sv' fb = 0"
    and "sfi_indirect (sv_i sv') = sfi_indirect (sv_i sv) \<or> sfi_indirect (sv_i sv') = 0"
    and "used sfs' = used sfs - unat ` (owned sfs sv - owned sfs' sv')"
    and "\<And>b. b \<noteq> sfi_indirect (sv_i sv) \<or> b = 0 \<Longrightarrow> secs sfs' b = secs sfs b"
  shows "trim sfs sv sfs' sv'"
proof -
  note fi = assms(1)[unfolded file_inv_def]
  have o: "owned sfs' sv' \<subseteq> owned sfs sv" unfolding owned_def using assms(6,7) by auto
  have us: "b \<in> owned sfs' sv' \<Longrightarrow> valid_block sfs b \<Longrightarrow> valid_block sfs' b" for b
    using assms(3,8) by (simp add: valid_block_def same_fs_def unat_image_iff)
  have v: "valid_block sfs' (blockmap sfs' sv' fb)" if "blockmap sfs' sv' fb \<noteq> 0" for fb
  proof (rule us)
    show "blockmap sfs' sv' fb \<in> owned sfs' sv'" using that by (auto simp: owned_def)
    show "valid_block sfs (blockmap sfs' sv' fb)" using fi that assms(6) by metis
  qed
  have vi: "valid_block sfs' (sfi_indirect (sv_i sv'))" if "sfi_indirect (sv_i sv') \<noteq> 0"
  proof (rule us)
    show "sfi_indirect (sv_i sv') \<in> owned sfs' sv'" using that by (simp add: owned_def)
    show "valid_block sfs (sfi_indirect (sv_i sv'))" using fi that assms(7) by metis
  qed
  have "file_inv sfs' sv'" unfolding file_inv_def
    using assms(5,6,7) v vi fi by metis
  moreover have "secs sfs' b = secs sfs b" if "b \<notin> owned sfs sv" for b
    using that assms(9)[of b] by (auto simp: owned_def)
  moreover have "blockmap sfs sv fb \<noteq> 0 \<Longrightarrow> secs sfs' (blockmap sfs sv fb) = secs sfs (blockmap sfs sv fb)" for fb
    using fi assms(9) by metis
  ultimately show ?thesis unfolding trim_def using assms(2-4,6,8) o by metis
qed

lemma bfree_ok:
  assumes "fs_ok sfs" "valid_block sfs b"
  obtains sfs' where "sfs_bfree sfs b = Some sfs'" "fs_ok sfs'" "same_fs sfs sfs'" "used sfs' = used sfs - {unat b}"
    "sfs_device sfs' = sfs_device sfs"
proof -
  have bm: "bm_inv (sfs_freemap sfs)" "unat b \<in> used sfs" using assms by (simp_all add: fs_ok_def valid_block_def)
  obtain fm where fm: "bitmap_unmark (sfs_freemap sfs) b = Some fm" "bm_inv fm" "bm_cap fm = bm_cap (sfs_freemap sfs)"
    "bm_used fm = used sfs - {unat b}"
    using bmap.release_used[OF bm] by blast
  let ?s = "sfs\<lparr>sfs_freemap := fm, sfs_freemapdirty := True\<rparr>"
  have b: "unat b \<noteq> 0" "unat b < unat (nblocks sfs)"
    using assms(2) by (auto simp: valid_block_def word_less_nat_alt unat_eq_zero)
  have "fs_ok ?s" using assms(1) fm b by (auto simp: fs_ok_def)
  then show thesis using that[of ?s] fm by (simp add: sfs_bfree_def same_fs_def)
qed

subsection \<open>The direct blocks\<close>

lemma trunc_direct_one:
  assumes "fs_ok sfs" "file_inv sfs sv" "i < 15" "sfi_direct (sv_i sv) ! i \<noteq> 0"
    and "sv' = sv\<lparr>sv_i := (sv_i sv)\<lparr>sfi_direct := (sfi_direct (sv_i sv))[i := 0]\<rparr>, sv_dirty := True\<rparr>"
  obtains sfs' where "sfs_bfree sfs (sfi_direct (sv_i sv) ! i) = Some sfs'" "trim sfs sv sfs' sv'"
    "blockmap sfs' sv' = (blockmap sfs sv)(i := 0)"
proof -
  let ?b = "sfi_direct (sv_i sv) ! i"
  have len: "length (sfi_direct (sv_i sv)) = 15" using assms(2) by (simp add: file_inv_def inode_ok_def)
  have b: "?b = blockmap sfs sv i" using assms(3) by (simp add: blockmap_def)
  have vb: "valid_block sfs ?b" using assms(2,4) b by (simp add: file_inv_def)
  obtain sfs' where f: "sfs_bfree sfs ?b = Some sfs'" "fs_ok sfs'" "same_fs sfs sfs'" "used sfs' = used sfs - {unat ?b}"
    "sfs_device sfs' = sfs_device sfs"
    using bfree_ok[OF assms(1) vb] .
  have bm: "blockmap sfs' sv' = (blockmap sfs sv)(i := 0)"
    using assms(3) len by (intro ext) (auto simp: blockmap_def assms(5) f(5))
  have ind: "sfi_indirect (sv_i sv') = sfi_indirect (sv_i sv)" by (simp add: assms(5))
  have inj: "blockmap sfs sv fb = ?b \<Longrightarrow> fb = i" for fb
    using assms(2,4) b unfolding file_inv_def by metis
  have nb: "?b \<noteq> sfi_indirect (sv_i sv)" using assms(2,4) b unfolding file_inv_def by metis
  have "x \<in> owned sfs' sv' \<longleftrightarrow> x \<in> owned sfs sv \<and> x \<noteq> ?b" for x
    unfolding owned_def bm ind mem_Collect_eq fun_upd_apply using inj b nb assms(4) by metis
  moreover have "?b \<in> owned sfs sv" using assms(4) b by (auto simp: owned_def)
  ultimately have "owned sfs sv - owned sfs' sv' = {?b}" by blast
  then have "trim sfs sv sfs' sv'"
    using assms(2,5) f bm ind by (intro trimI) (auto simp: same_sv_def file_inv_def inode_ok_def)
  then show thesis using that f(1) bm by blast
qed

lemma trunc_direct_ok:
  assumes "fs_ok sfs" "file_inv sfs sv" "\<forall>i\<in>set is. i < 15"
  shows "\<exists>sfs' sv'. trunc_direct is bl sfs sv = Some (sfs', sv') \<and> trim sfs sv sfs' sv'
     \<and> sfi_indirect (sv_i sv') = sfi_indirect (sv_i sv)
     \<and> blockmap sfs' sv' = (\<lambda>fb. if fb \<in> set is \<and> unat bl \<le> fb then 0 else blockmap sfs sv fb)"
  using assms
proof (induction "is" arbitrary: sfs sv)
  case Nil
  then show ?case by (simp add: trim_refl)
next
  case (Cons i "is")
  have i: "i < 15" and len: "length (sfi_direct (sv_i sv)) = 15"
    using Cons.prems by (auto simp: file_inv_def inode_ok_def)
  have b: "sfi_direct (sv_i sv) ! i = blockmap sfs sv i" using i by (simp add: blockmap_def)
  have "unat (of_nat i :: u32) = i" using i by (intro unat_of_nat_u32) simp
  then have cmp: "(of_nat i :: u32) \<ge> bl \<longleftrightarrow> unat bl \<le> i" by (simp add: word_le_nat_alt)
  show ?case
  proof (cases "unat bl \<le> i \<and> sfi_direct (sv_i sv) ! i \<noteq> 0")
    case False
    obtain sfs' sv' where IH: "trunc_direct is bl sfs sv = Some (sfs', sv')" "trim sfs sv sfs' sv'"
      "sfi_indirect (sv_i sv') = sfi_indirect (sv_i sv)"
      "blockmap sfs' sv' = (\<lambda>fb. if fb \<in> set is \<and> unat bl \<le> fb then 0 else blockmap sfs sv fb)"
      using Cons.IH[OF Cons.prems(1,2)] Cons.prems(3) by auto
    have "trunc_direct (i # is) bl sfs sv = Some (sfs', sv')"
      using False IH(1) cmp i len by (auto simp: rd_def)
    moreover have "blockmap sfs' sv' = (\<lambda>fb. if fb \<in> set (i # is) \<and> unat bl \<le> fb then 0 else blockmap sfs sv fb)"
      unfolding IH(4) using False b by auto
    ultimately show ?thesis using IH(2,3) by simp
  next
    case True
    define sv1 where "sv1 = sv\<lparr>sv_i := (sv_i sv)\<lparr>sfi_direct := (sfi_direct (sv_i sv))[i := 0]\<rparr>, sv_dirty := True\<rparr>"
    obtain sfs1 where one: "sfs_bfree sfs (sfi_direct (sv_i sv) ! i) = Some sfs1" "trim sfs sv sfs1 sv1"
      "blockmap sfs1 sv1 = (blockmap sfs sv)(i := 0)"
      using trunc_direct_one[OF Cons.prems(1,2) i _ sv1_def] True by blast
    have ok1: "fs_ok sfs1" "file_inv sfs1 sv1" using one(2) by (simp_all add: trim_def)
    obtain sfs' sv' where IH: "trunc_direct is bl sfs1 sv1 = Some (sfs', sv')" "trim sfs1 sv1 sfs' sv'"
      "sfi_indirect (sv_i sv') = sfi_indirect (sv_i sv1)"
      "blockmap sfs' sv' = (\<lambda>fb. if fb \<in> set is \<and> unat bl \<le> fb then 0 else blockmap sfs1 sv1 fb)"
      using Cons.IH[OF ok1] Cons.prems(3) by auto
    have "trunc_direct (i # is) bl sfs sv = Some (sfs', sv')"
      using True IH(1) cmp i len one(1) by (simp add: rd_def wr_def sv1_def)
    moreover have "blockmap sfs' sv' = (\<lambda>fb. if fb \<in> set (i # is) \<and> unat bl \<le> fb then 0 else blockmap sfs sv fb)"
      unfolding IH(4) one(3) using True by auto
    ultimately show ?thesis using IH(3) trim_trans[OF one(2) IH(2)] by (simp add: sv1_def)
  qed
qed

subsection \<open>The indirect block\<close>

text \<open>The entries that are cut; the code's test is off by one from that of the direct blocks.\<close>

definition past_cut :: "u32 \<Rightarrow> nat \<Rightarrow> bool" where
  "past_cut bl j \<longleftrightarrow> unat bl < 15 + j"

definition freed :: "u32 \<Rightarrow> u32 list \<Rightarrow> nat list \<Rightarrow> u32 set" where
  "freed bl idbuf js = {idbuf ! j | j. j \<in> set js \<and> past_cut bl j \<and> idbuf ! j \<noteq> 0}"

lemma past_cut_word: "j < 128 \<Longrightarrow> bl < 15 + of_nat j \<longleftrightarrow> past_cut bl j"
proof -
  assume j: "j < 128"
  then have "unat (of_nat (15 + j) :: u32) = 15 + j" by (intro unat_of_nat_u32) simp
  then have "unat (15 + of_nat j :: u32) = 15 + j" by simp
  then show ?thesis by (simp add: past_cut_def word_less_nat_alt)
qed

lemma freed_Cons:
  "freed bl idbuf (j # js) = (if past_cut bl j \<and> idbuf ! j \<noteq> 0 then insert (idbuf ! j) (freed bl idbuf js) else freed bl idbuf js)"
  by (auto simp: freed_def)

lemma trunc_entries_ok:
  assumes "fs_ok sfs" "length idbuf = 128" "distinct js" "\<forall>j\<in>set js. j < 128"
    and "\<forall>j\<in>set js. idbuf ! j \<noteq> 0 \<longrightarrow> valid_block sfs (idbuf ! j)"
    and "\<forall>j\<in>set js. \<forall>k\<in>set js. idbuf ! j = idbuf ! k \<and> idbuf ! j \<noteq> 0 \<longrightarrow> j = k"
  shows "\<exists>sfs' idbuf'. trunc_entries js bl sfs idbuf nz dirty = Some (sfs', idbuf',
        nz \<or> (\<exists>j\<in>set js. \<not> past_cut bl j \<and> idbuf ! j \<noteq> 0), dirty \<or> (\<exists>j\<in>set js. past_cut bl j \<and> idbuf ! j \<noteq> 0))
     \<and> fs_ok sfs' \<and> same_fs sfs sfs' \<and> sfs_device sfs' = sfs_device sfs
     \<and> used sfs' = used sfs - unat ` freed bl idbuf js
     \<and> length idbuf' = 128 \<and> (\<forall>k<128. idbuf' ! k = (if k \<in> set js \<and> past_cut bl k then 0 else idbuf ! k))"
  using assms
proof (induction js arbitrary: sfs idbuf nz dirty)
  case Nil
  then show ?case by (simp add: same_fs_def freed_def)
next
  case (Cons j js)
  have j: "j < 128" "j \<notin> set js" using Cons.prems by auto
  have tl: "distinct js" "\<forall>j\<in>set js. j < 128" "\<forall>j\<in>set js. idbuf ! j \<noteq> 0 \<longrightarrow> valid_block sfs (idbuf ! j)"
    "\<forall>j\<in>set js. \<forall>k\<in>set js. idbuf ! j = idbuf ! k \<and> idbuf ! j \<noteq> 0 \<longrightarrow> j = k"
    using Cons.prems(3,4,5,6) by (simp_all del: not_gr_zero) (meson list.set_intros(2))
  show ?case
  proof (cases "past_cut bl j \<and> idbuf ! j \<noteq> 0")
    case False
    define nz1 where "nz1 = (nz \<or> idbuf ! j \<noteq> 0)"
    obtain sfs' idbuf' where IH: "trunc_entries js bl sfs idbuf nz1 dirty = Some (sfs', idbuf',
        nz1 \<or> (\<exists>j\<in>set js. \<not> past_cut bl j \<and> idbuf ! j \<noteq> 0), dirty \<or> (\<exists>j\<in>set js. past_cut bl j \<and> idbuf ! j \<noteq> 0))"
      "fs_ok sfs'" "same_fs sfs sfs'" "sfs_device sfs' = sfs_device sfs" "used sfs' = used sfs - unat ` freed bl idbuf js"
      "length idbuf' = 128" "\<forall>k<128. idbuf' ! k = (if k \<in> set js \<and> past_cut bl k then 0 else idbuf ! k)"
      using Cons.IH[OF Cons.prems(1,2) tl, of nz1 dirty] by blast
    have "trunc_entries (j # js) bl sfs idbuf nz dirty = trunc_entries js bl sfs idbuf nz1 dirty"
      using False j past_cut_word[OF j(1), of bl] Cons.prems(2) by (auto simp: rd_def nz1_def)
    moreover have "\<forall>k<128. idbuf' ! k = (if k \<in> set (j # js) \<and> past_cut bl k then 0 else idbuf ! k)"
      using IH(7) False by auto
    ultimately show ?thesis using IH(1-6) False by (auto simp: freed_Cons nz1_def)
  next
    case True
    define idbuf1 where "idbuf1 = idbuf[j := 0]"
    have vb: "valid_block sfs (idbuf ! j)" using Cons.prems(5) True by simp
    obtain sfs1 where f: "sfs_bfree sfs (idbuf ! j) = Some sfs1" "fs_ok sfs1" "same_fs sfs sfs1"
      "used sfs1 = used sfs - {unat (idbuf ! j)}" "sfs_device sfs1 = sfs_device sfs"
      using bfree_ok[OF Cons.prems(1) vb] .
    have i1: "idbuf1 ! k = idbuf ! k" if "k \<in> set js" for k using that j(2) unfolding idbuf1_def by (metis nth_list_update_neq)
    have v1: "\<forall>k\<in>set js. idbuf1 ! k \<noteq> 0 \<longrightarrow> valid_block sfs1 (idbuf1 ! k)"
    proof (intro ballI impI)
      fix k assume k: "k \<in> set js" "idbuf1 ! k \<noteq> 0"
      then have "idbuf ! k \<noteq> idbuf ! j" using Cons.prems(6) True j i1 by (metis list.set_intros)
      then have "unat (idbuf ! k) \<noteq> unat (idbuf ! j)" by (simp add: word_unat_eq_iff)
      moreover have "valid_block sfs (idbuf ! k)" using tl(3) k i1 by simp
      ultimately show "valid_block sfs1 (idbuf1 ! k)"
        using i1[OF k(1)] f(3,4) unfolding valid_block_def same_fs_def by simp
    qed
    have l1: "length idbuf1 = 128" using Cons.prems(2) by (simp add: idbuf1_def)
    have inj1: "\<forall>j\<in>set js. \<forall>k\<in>set js. idbuf1 ! j = idbuf1 ! k \<and> idbuf1 ! j \<noteq> 0 \<longrightarrow> j = k"
      using tl(4) i1 by metis
    have fr: "freed bl idbuf1 js = freed bl idbuf js"
      unfolding freed_def by (rule Collect_cong) (metis i1)
    obtain sfs' idbuf' where IH: "trunc_entries js bl sfs1 idbuf1 nz True = Some (sfs', idbuf',
        nz \<or> (\<exists>j\<in>set js. \<not> past_cut bl j \<and> idbuf1 ! j \<noteq> 0), True)"
      "fs_ok sfs'" "same_fs sfs1 sfs'" "sfs_device sfs' = sfs_device sfs1" "used sfs' = used sfs1 - unat ` freed bl idbuf1 js"
      "length idbuf' = 128" "\<forall>k<128. idbuf' ! k = (if k \<in> set js \<and> past_cut bl k then 0 else idbuf1 ! k)"
      using Cons.IH[OF f(2) l1 tl(1,2) v1 inj1, of nz True] by auto
    have "trunc_entries (j # js) bl sfs idbuf nz dirty = trunc_entries js bl sfs1 idbuf1 nz True"
      using True j past_cut_word[OF j(1), of bl] Cons.prems(2) f(1) by (simp add: rd_def wr_def idbuf1_def)
    moreover have "\<forall>k<128. idbuf' ! k = (if k \<in> set (j # js) \<and> past_cut bl k then 0 else idbuf ! k)"
      using IH(7) True j Cons.prems(2) by (auto simp: idbuf1_def nth_list_update)
    moreover have "used sfs' = used sfs - unat ` freed bl idbuf (j # js)"
      using IH(5) f(4) True by (auto simp: fr freed_Cons)
    moreover have "same_fs sfs sfs'" using f(3) IH(3) by (simp add: same_fs_def)
    ultimately show ?thesis using IH(1,2,4,6) f(5) i1 True by (auto cong: bex_cong)
  qed
qed

definition cutmap :: "u32 \<Rightarrow> (nat \<Rightarrow> u32) \<Rightarrow> nat \<Rightarrow> u32" where
  "cutmap bl m = (\<lambda>fb. if 15 \<le> fb \<and> unat bl < fb \<and> unat bl < 142 then 0 else m fb)"

lemma blockmap_indirect:
  assumes "sfi_indirect (sv_i sv) \<noteq> 0" "j < 128"
  shows "blockmap sfs sv (15 + j) = get_words 128 (secs sfs (sfi_indirect (sv_i sv))) ! j"
  using assms by (simp add: blockmap_def)

lemma blockmap_past: "143 \<le> fb \<Longrightarrow> blockmap sfs sv fb = 0"
  by (simp add: blockmap_def)

lemma owned_cut:
  assumes "file_inv sfs sv" "sfi_indirect (sv_i sv) \<noteq> 0" "unat bl < 142"
    and "idbuf = get_words 128 (secs sfs (sfi_indirect (sv_i sv)))" "blockmap sfs' sv' = cutmap bl (blockmap sfs sv)"
    and "sfi_indirect (sv_i sv') = sfi_indirect (sv_i sv) \<or> sfi_indirect (sv_i sv') = 0"
  shows "owned sfs sv - owned sfs' sv' = freed bl idbuf [0..<128]
     \<union> (if sfi_indirect (sv_i sv') = 0 then {sfi_indirect (sv_i sv)} else {})"
proof -
  let ?ind = "sfi_indirect (sv_i sv)"
  note fi = assms(1)[unfolded file_inv_def]
  have fr: "x \<in> freed bl idbuf [0..<128] \<longleftrightarrow> x \<noteq> 0 \<and> (\<exists>fb. x = blockmap sfs sv fb \<and> 15 \<le> fb \<and> unat bl < fb)" for x
  proof
    assume "x \<in> freed bl idbuf [0..<128]"
    then obtain j where "j < 128" "past_cut bl j" "x = idbuf ! j" "x \<noteq> 0" by (auto simp: freed_def)
    then show "x \<noteq> 0 \<and> (\<exists>fb. x = blockmap sfs sv fb \<and> 15 \<le> fb \<and> unat bl < fb)"
      using blockmap_indirect[OF assms(2), of j sfs] assms(4) by (auto simp: past_cut_def intro!: exI[of _ "15 + j"])
  next
    assume "x \<noteq> 0 \<and> (\<exists>fb. x = blockmap sfs sv fb \<and> 15 \<le> fb \<and> unat bl < fb)"
    then obtain fb where fb: "x \<noteq> 0" "x = blockmap sfs sv fb" "15 \<le> fb" "unat bl < fb" by blast
    then have "fb < 143" using blockmap_past[of fb sfs sv] by (meson not_le)
    then have "fb - 15 < 128" "past_cut bl (fb - 15)" "x = idbuf ! (fb - 15)"
      using fb blockmap_indirect[OF assms(2), of "fb - 15" sfs] assms(4) by (simp_all add: past_cut_def)
    then show "x \<in> freed bl idbuf [0..<128]" using fb(1) by (auto simp: freed_def)
  qed
  have ni: "x \<in> freed bl idbuf [0..<128] \<Longrightarrow> x \<noteq> ?ind" for x using fr fi by metis
  have ow: "x \<in> owned sfs' sv' \<longleftrightarrow> x \<in> owned sfs sv \<and> x \<notin> freed bl idbuf [0..<128] \<and> (x = ?ind \<longrightarrow> sfi_indirect (sv_i sv') = ?ind)" for x
  proof -
    have "x \<noteq> 0 \<Longrightarrow> (\<exists>fb. x = blockmap sfs' sv' fb) \<longleftrightarrow> (\<exists>fb. x = blockmap sfs sv fb) \<and> x \<notin> freed bl idbuf [0..<128]"
      unfolding assms(5) cutmap_def fr using assms(3) fi by metis
    then show ?thesis unfolding owned_def mem_Collect_eq using assms(2,6) ni fi by metis
  qed
  have "?ind \<in> owned sfs sv" using assms(2) by (simp add: owned_def)
  moreover have "x \<in> freed bl idbuf [0..<128] \<Longrightarrow> x \<in> owned sfs sv" for x using fr by (auto simp: owned_def)
  ultimately show ?thesis using ow assms(2,6) by auto
qed

text \<open>The entries as \<open>trunc_entries\<close> leaves them.\<close>

lemma trunc_read:
  assumes "fs_ok sfs" "file_inv sfs sv" "ind = sfi_indirect (sv_i sv)" "ind \<noteq> 0" "idbuf = get_words 128 (secs sfs ind)"
  obtains dev sfs2 idbuf' where "sfs_rblock (sfs_device sfs) (replicate 512 0) ind = Some (ESUCCESS, secs sfs ind, dev)"
    "trunc_entries [0..<128] bl (sfs\<lparr>sfs_device := dev\<rparr>) idbuf False False = Some (sfs2, idbuf',
       \<exists>j<128. \<not> past_cut bl j \<and> idbuf ! j \<noteq> 0, \<exists>j<128. past_cut bl j \<and> idbuf ! j \<noteq> 0)"
    "fs_ok sfs2" "same_fs sfs sfs2" "secs sfs2 = secs sfs" "used sfs2 = used sfs - unat ` freed bl idbuf [0..<128]"
    "length idbuf' = 128" "\<forall>k<128. idbuf' ! k = (if past_cut bl k then 0 else idbuf ! k)" "valid_block sfs2 ind"
proof -
  have vi: "valid_block sfs ind" using assms(2-4) by (simp add: file_inv_def)
  then have "ind < nblocks sfs" by (simp add: valid_block_def)
  then obtain dev where dev: "sfs_rblock (sfs_device sfs) (replicate 512 0) ind = Some (ESUCCESS, secs sfs ind, dev)"
    "dev_step sfs (sfs\<lparr>sfs_device := dev\<rparr>)"
    using rblock_step[OF assms(1), of ind "replicate 512 0"] by auto
  define sfs1 where "sfs1 = sfs\<lparr>sfs_device := dev\<rparr>"
  note d = dev_step_same[OF dev(2), folded sfs1_def]
  have ok1: "fs_ok sfs1" using dev_step_io[OF dev(2) assms(1,2)] by (simp add: io_step_def sfs1_def)
  have b: "j < 128 \<Longrightarrow> idbuf ! j = blockmap sfs sv (15 + j)" for j
    using blockmap_indirect[of sv j sfs] assms(3-5) by simp
  have vb: "valid_block sfs1 = valid_block sfs"
    using d(5,6) by (intro ext) (simp add: valid_block_def same_fs_def)
  have v: "\<forall>j\<in>set [0..<128]. idbuf ! j \<noteq> 0 \<longrightarrow> valid_block sfs1 (idbuf ! j)"
    using assms(2) b by (auto simp: file_inv_def vb)
  have inj: "\<forall>j\<in>set [0..<128]. \<forall>k\<in>set [0..<128]. idbuf ! j = idbuf ! k \<and> idbuf ! j \<noteq> 0 \<longrightarrow> j = k"
  proof (intro ballI impI)
    fix j k assume "j \<in> set [0..<128]" "k \<in> set [0..<128]" "idbuf ! j = idbuf ! k \<and> idbuf ! j \<noteq> 0"
    then have "15 + j = 15 + k" using assms(2) b[of j] b[of k] unfolding file_inv_def by (metis atLeastLessThan_iff atLeastLessThan_upt)
    then show "j = k" by simp
  qed
  obtain sfs2 idbuf' where t: "trunc_entries [0..<128] bl sfs1 idbuf False False = Some (sfs2, idbuf',
       False \<or> (\<exists>j\<in>set [0..<128]. \<not> past_cut bl j \<and> idbuf ! j \<noteq> 0), False \<or> (\<exists>j\<in>set [0..<128]. past_cut bl j \<and> idbuf ! j \<noteq> 0))"
    "fs_ok sfs2" "same_fs sfs1 sfs2" "sfs_device sfs2 = sfs_device sfs1" "used sfs2 = used sfs1 - unat ` freed bl idbuf [0..<128]"
    "length idbuf' = 128" "\<forall>k<128. idbuf' ! k = (if k \<in> set [0..<128] \<and> past_cut bl k then 0 else idbuf ! k)"
    using trunc_entries_ok[OF ok1 _ _ _ v inj, of bl False False] assms(5) by auto
  have nf: "ind \<notin> freed bl idbuf [0..<128]"
  proof
    assume "ind \<in> freed bl idbuf [0..<128]"
    then obtain j where "j < 128" "ind = idbuf ! j" by (auto simp: freed_def)
    then show False using assms(2-4) b unfolding file_inv_def by metis
  qed
  have sf: "same_fs sfs sfs2" "secs sfs2 = secs sfs" "used sfs2 = used sfs - unat ` freed bl idbuf [0..<128]"
    using t(3-5) d by (simp_all add: same_fs_def)
  have "valid_block sfs2 ind" using vi nf sf(1,3) by (simp add: valid_block_def same_fs_def unat_image_iff)
  moreover have "trunc_entries [0..<128] bl (sfs\<lparr>sfs_device := dev\<rparr>) idbuf False False = Some (sfs2, idbuf',
       \<exists>j<128. \<not> past_cut bl j \<and> idbuf ! j \<noteq> 0, \<exists>j<128. past_cut bl j \<and> idbuf ! j \<noteq> 0)"
    using t(1) by (simp add: sfs1_def Bex_def)
  ultimately show thesis using that[OF dev(1)] t(2,6,7) sf by auto
qed

lemma trunc_indirect_ok:
  assumes "fs_ok sfs" "file_inv sfs sv"
  shows "\<exists>sfs' sv'. trunc_indirect bl sfs sv = Some (ESUCCESS, sfs', sv') \<and> trim sfs sv sfs' sv'
     \<and> blockmap sfs' sv' = cutmap bl (blockmap sfs sv)
     \<and> ((\<forall>fb\<ge>15. cutmap bl (blockmap sfs sv) fb = 0) \<and> unat bl < 142 \<longrightarrow> sfi_indirect (sv_i sv') = 0)"
proof -
  define ind where "ind = sfi_indirect (sv_i sv)"
  define idbuf where "idbuf = get_words 128 (secs sfs ind)"
  have bl: "bl < 142 \<longleftrightarrow> unat bl < 142" by (simp add: word_less_nat_alt)
  show ?thesis
  proof (cases "unat bl < 142 \<and> ind \<noteq> 0")
    case False
    have "cutmap bl (blockmap sfs sv) = blockmap sfs sv"
      using False by (intro ext) (auto simp: cutmap_def blockmap_def ind_def)
    moreover have "trunc_indirect bl sfs sv = Some (ESUCCESS, sfs, sv)"
      using False bl by (auto simp: trunc_indirect_def ind_def)
    ultimately show ?thesis using False trim_refl[OF assms] by (auto simp: ind_def)
  next
    case True
    then have T: "unat bl < 142" "ind \<noteq> 0" by simp_all
    have b: "j < 128 \<Longrightarrow> idbuf ! j = blockmap sfs sv (15 + j)" for j
      using blockmap_indirect[of sv j sfs] T by (simp add: idbuf_def ind_def)
    obtain dev sfs2 idbuf' where r: "sfs_rblock (sfs_device sfs) (replicate 512 0) ind = Some (ESUCCESS, secs sfs ind, dev)"
      "trunc_entries [0..<128] bl (sfs\<lparr>sfs_device := dev\<rparr>) idbuf False False = Some (sfs2, idbuf',
         \<exists>j<128. \<not> past_cut bl j \<and> idbuf ! j \<noteq> 0, \<exists>j<128. past_cut bl j \<and> idbuf ! j \<noteq> 0)"
      "fs_ok sfs2" "same_fs sfs sfs2" "secs sfs2 = secs sfs" "used sfs2 = used sfs - unat ` freed bl idbuf [0..<128]"
      "length idbuf' = 128" "\<forall>k<128. idbuf' ! k = (if past_cut bl k then 0 else idbuf ! k)" "valid_block sfs2 ind"
      using trunc_read[OF assms ind_def T(2) idbuf_def, of bl] .
    have cm: "cutmap bl (blockmap sfs sv) (15 + j) = idbuf' ! j" if "j < 128" for j
      using that r(8) b T(1) by (auto simp: cutmap_def past_cut_def)
    have hi: "15 \<le> fb \<Longrightarrow> cutmap bl (blockmap sfs sv) fb = (if fb < 143 then idbuf' ! (fb - 15) else 0)" for fb
      using cm[of "fb - 15"] blockmap_past[of fb sfs sv] by (auto simp: cutmap_def)
    have lo: "fb < 15 \<Longrightarrow> cutmap bl (blockmap sfs sv) fb = sfi_direct (sv_i sv) ! fb" for fb
      by (simp add: cutmap_def blockmap_def)
    define nz where "nz \<longleftrightarrow> (\<exists>j<128. \<not> past_cut bl j \<and> idbuf ! j \<noteq> 0)"
    define dirty where "dirty \<longleftrightarrow> (\<exists>j<128. past_cut bl j \<and> idbuf ! j \<noteq> 0)"
    have run: "trunc_indirect bl sfs sv = (if \<not> nz then do {
          sfs \<leftarrow> sfs_bfree sfs2 ind;
          Some (ESUCCESS, sfs, sv\<lparr>sv_i := (sv_i sv)\<lparr>sfi_indirect := 0\<rparr>, sv_dirty := True\<rparr>) }
        else if dirty then do {
          (result, dev) \<leftarrow> sfs_wblock (sfs_device sfs2) (put_words idbuf') ind;
          Some (result, sfs2\<lparr>sfs_device := dev\<rparr>, sv) }
        else Some (ESUCCESS, sfs2, sv))"
      using T bl r(1) r(2)[folded nz_def dirty_def] by (simp add: trunc_indirect_def ind_def[symmetric] idbuf_def Let_def)
    have io: "inode_ok (sv_i sv)" using assms(2) by (simp add: file_inv_def)
    consider (none) "\<forall>j<128. idbuf' ! j = 0" "\<not> nz"
      | (some) j where "j < 128" "idbuf' ! j \<noteq> 0" nz dirty
      | (same) j where "j < 128" "idbuf' ! j \<noteq> 0" nz "\<not> dirty"
      using r(8) unfolding nz_def by metis
    then show ?thesis
    proof cases
      case none
      obtain sfs3 where f: "sfs_bfree sfs2 ind = Some sfs3" "fs_ok sfs3" "same_fs sfs2 sfs3" "used sfs3 = used sfs2 - {unat ind}"
        "sfs_device sfs3 = sfs_device sfs2"
        using bfree_ok[OF r(3,9)] .
      define sv' where "sv' = sv\<lparr>sv_i := (sv_i sv)\<lparr>sfi_indirect := 0\<rparr>, sv_dirty := True\<rparr>"
      have bm: "blockmap sfs3 sv' = cutmap bl (blockmap sfs sv)"
        unfolding fun_eq_iff blockmap_def[of sfs3 sv'] using lo hi none(1) by (simp add: sv'_def)
      have "owned sfs sv - owned sfs3 sv' = freed bl idbuf [0..<128] \<union> {ind}"
        using owned_cut[OF assms(2) _ T(1) _ bm] T(2) by (simp add: sv'_def ind_def idbuf_def)
      then have "trim sfs sv sfs3 sv'"
        using f r(3-6) io bm by (intro trimI[OF assms(2)]) (auto simp: same_fs_def same_sv_def inode_ok_def sv'_def cutmap_def)
      then show ?thesis using run none(2) f(1) bm by (simp add: sv'_def)
    next
      case (some j)
      have "ind < nblocks sfs2" using r(9) by (simp add: valid_block_def)
      then obtain dev3 where w: "sfs_wblock (sfs_device sfs2) (put_words idbuf') ind = Some (ESUCCESS, dev3)"
        "lh_sectors dev3 = (secs sfs2)(ind := put_words idbuf')" "fs_ok (sfs2\<lparr>sfs_device := dev3\<rparr>)"
        "same_fs sfs2 (sfs2\<lparr>sfs_device := dev3\<rparr>)"
        using wblock_step[OF r(3), of ind "put_words idbuf'"] r(7) by auto
      define sfs3 where "sfs3 = sfs2\<lparr>sfs_device := dev3\<rparr>"
      have bm: "blockmap sfs3 sv = cutmap bl (blockmap sfs sv)"
        unfolding fun_eq_iff blockmap_def[of sfs3 sv] using lo hi T(2) r(7)
        by (simp add: ind_def[symmetric] sfs3_def w(2))
      have "owned sfs sv - owned sfs3 sv = freed bl idbuf [0..<128]"
        using owned_cut[OF assms(2) _ T(1) _ bm] T(2) by (simp add: ind_def idbuf_def)
      then have "trim sfs sv sfs3 sv"
        using w r(3-6) io bm T(2) by (intro trimI[OF assms(2)]) (auto simp: same_fs_def same_sv_def sfs3_def cutmap_def ind_def)
      moreover have "cutmap bl (blockmap sfs sv) (15 + j) \<noteq> 0" using cm some by simp
      then have "\<not> (\<forall>fb\<ge>15. cutmap bl (blockmap sfs sv) fb = 0)" using le_add1 by blast
      ultimately show ?thesis using run some(3,4) w(1) bm by (auto simp: sfs3_def)
    next
      case (same j)
      have fr: "freed bl idbuf [0..<128] = {}" using same(4) by (auto simp: freed_def dirty_def)
      have bs: "blockmap sfs2 sv = blockmap sfs sv" by (intro ext) (simp add: blockmap_def r(5))
      have id: "k < 128 \<Longrightarrow> idbuf' ! k = idbuf ! k" for k using r(8) same(4) by (auto simp: dirty_def)
      have bm: "blockmap sfs2 sv = cutmap bl (blockmap sfs sv)"
        unfolding fun_eq_iff blockmap_def[of sfs2 sv] using lo hi id T(2)
        by (simp add: ind_def[symmetric] r(5) idbuf_def)
      have "owned sfs2 sv = owned sfs sv" by (simp add: owned_def bs)
      then have "trim sfs sv sfs2 sv"
        using r(3-6) io bs fr by (intro trimI[OF assms(2)]) (auto simp: same_sv_def)
      moreover have "cutmap bl (blockmap sfs sv) (15 + j) \<noteq> 0" using cm same by simp
      then have "\<not> (\<forall>fb\<ge>15. cutmap bl (blockmap sfs sv) fb = 0)" using le_add1 by blast
      ultimately show ?thesis using run same(3,4) bm by auto
    qed
  qed
qed

section \<open>The whole operation\<close>

text \<open>The blocks of the file that a truncation to \<open>n\<close> blocks keeps.\<close>

definition kept :: "nat \<Rightarrow> (nat \<Rightarrow> u32) \<Rightarrow> nat \<Rightarrow> u32" where
  "kept n m = (\<lambda>fb. if fb < n \<or> 15 \<le> fb \<and> (fb = n \<or> 142 \<le> n) then m fb else 0)"

lemma blocklen_nat:
  assumes "len + 512 < 2 ^ 31"
  shows "unat (file_block (c_int (c_int (int len + 512) - 1))) = (len + 511) div 512"
proof -
  have 1: "c_int (int len + 512) = int len + 512" using assms by (intro c_int_id) simp_all
  have 2: "c_int (int len + 512 - 1) = int (len + 511)" using assms by (subst c_int_id) simp_all
  have "len + 511 < 2 ^ 31" using assms by simp
  then show ?thesis unfolding 1 2 by (rule file_block_nat)
qed

text \<open>
  Truncation always succeeds here; the file has the new size, keeps the blocks below it, and every
  block it no longer has is free.
\<close>

lemma truncate_outcome:
  assumes "fs_ok sfs" "file_inv sfs sv" "len + 512 < 2 ^ 31"
  shows "\<exists>sfs' sv1. sfs_truncate (int len) sfs sv = Some (ESUCCESS, sfs', resized sv1 (of_nat len))
     \<and> trim sfs sv sfs' sv1 \<and> blockmap sfs' sv1 = kept ((len + 511) div 512) (blockmap sfs sv)
     \<and> (len = 0 \<longrightarrow> owned sfs' sv1 = {})"
proof -
  define bl where "bl = file_block (c_int (c_int (int len + 512) - 1))"
  define n where "n = (len + 511) div 512"
  have bl: "unat bl = n" using blocklen_nat[OF assms(3)] by (simp add: bl_def n_def)
  obtain sfs1 sv1 where d: "trunc_direct [0..<15] bl sfs sv = Some (sfs1, sv1)" "trim sfs sv sfs1 sv1"
    "sfi_indirect (sv_i sv1) = sfi_indirect (sv_i sv)"
    "blockmap sfs1 sv1 = (\<lambda>fb. if fb \<in> set [0..<15] \<and> unat bl \<le> fb then 0 else blockmap sfs sv fb)"
    using trunc_direct_ok[OF assms(1,2), of "[0..<15]" bl] by auto
  have ok1: "fs_ok sfs1" "file_inv sfs1 sv1" using d(2) by (simp_all add: trim_def)
  obtain sfs' sv2 where i: "trunc_indirect bl sfs1 sv1 = Some (ESUCCESS, sfs', sv2)" "trim sfs1 sv1 sfs' sv2"
    "blockmap sfs' sv2 = cutmap bl (blockmap sfs1 sv1)"
    "(\<forall>fb\<ge>15. cutmap bl (blockmap sfs1 sv1) fb = 0) \<and> unat bl < 142 \<longrightarrow> sfi_indirect (sv_i sv2) = 0"
    using trunc_indirect_ok[OF ok1, of bl] by blast
  have bm: "blockmap sfs' sv2 = kept n (blockmap sfs sv)"
    unfolding i(3) d(4) bl cutmap_def kept_def by (intro ext) auto
  have "owned sfs' sv2 = {}" if "len = 0"
  proof -
    have n: "n = 0" using that by (simp add: n_def)
    have z: "blockmap sfs' sv2 fb = 0" for fb using n bm by (auto simp: kept_def)
    then have "sfi_indirect (sv_i sv2) = 0" using i(3,4) bl n by simp
    then show ?thesis using z by (simp add: owned_def)
  qed
  moreover have "sfs_truncate (int len) sfs sv = Some (ESUCCESS, sfs', resized sv2 (of_nat len))"
    using d(1) i(1) by (simp add: sfs_truncate_def bl_def[symmetric] Let_def resized_def)
  ultimately show ?thesis using trim_trans[OF d(2) i(2)] bm by (auto simp: n_def)
qed

section \<open>Properties\<close>

lemma trim_content:
  assumes "trim sfs sv sfs' sv'" "blockmap sfs' sv' (m div 512) = blockmap sfs sv (m div 512)"
  shows "fcontent sfs' sv' m = fcontent sfs sv m"
proof -
  have "blockmap sfs sv (m div 512) = 0 \<or> secs sfs' (blockmap sfs sv (m div 512)) = secs sfs (blockmap sfs sv (m div 512))"
    using assms(1)[unfolded trim_def, THEN conjunct2, THEN conjunct2, THEN conjunct2, THEN conjunct2, THEN conjunct2,
        THEN conjunct2, THEN conjunct2, THEN spec, of "m div 512"] assms(2) by auto
  then show ?thesis by (auto simp: fcontent_def bdata_def assms(2))
qed




definition ex_big_fs :: sfs_fs where
  "ex_big_fs = ex_fs\<lparr>sfs_freemap := \<lparr>bm_nbits = 8, bm_v = [31]\<rparr>,
     sfs_device := (ex_disk (\<lambda>k. LHD_OK))\<lparr>lh_sectors :=
       (\<lambda>b. if b = 3 then put_words (4 # replicate 127 0) else replicate 512 (ucast b))\<rparr>\<rparr>"

definition ex_big :: sfs_vnode where
  "ex_big = ex_sv\<lparr>sv_i := (sv_i ex_sv)\<lparr>sfi_indirect := 3, sfi_size := 8192\<rparr>\<rparr>"

lemma ex_big_map: "blockmap ex_big_fs ex_big fb = (if fb = 15 then 4 else 0)"
proof -
  have g: "get_words 128 (put_words (4 # replicate 127 0)) = 4 # replicate 127 0" by (rule get_put_words) simp
  have "(4 # replicate 127 0) ! (fb - 15) = (0 :: u32)" if "15 < fb" "fb < 143"
    using that by (cases "fb - 15") simp_all
  then show ?thesis by (auto simp: blockmap_def ex_big_def ex_big_fs_def ex_sv_def g simp del: put_words.simps)
qed

lemma ex_big_ok: "fs_ok ex_big_fs" "file_inv ex_big_fs ex_big"
proof -
  have "lhd_good (sfs_device ex_big_fs)" "lhd_ready (sfs_device ex_big_fs)"
    by (simp_all add: lhd_good_def lhd_ready_def op_state_def ex_big_fs_def ex_disk_def LHD_OK_def LHD_STATEMASK_def
        del: put_words.simps)
  moreover have "bm_inv \<lparr>bm_nbits = 8, bm_v = [31]\<rparr>" by (auto simp: bm_inv_def)
  moreover have u: "{0, 3, 4} \<subseteq> bm_used \<lparr>bm_nbits = 8, bm_v = [31]\<rparr>" by (simp add: bm_used_def bm_bit_def)
  ultimately show "fs_ok ex_big_fs"
    by (simp add: fs_ok_def bm_cap_def) (simp add: ex_big_fs_def ex_fs_def ex_disk_def)
  have "valid_block ex_big_fs 3" "valid_block ex_big_fs 4"
    using u by (simp_all add: valid_block_def ex_big_fs_def ex_fs_def)
  then show "file_inv ex_big_fs ex_big"
    unfolding file_inv_def ex_big_map by (auto simp: ex_big_def ex_sv_def inode_ok_def)
qed


end
