(* ===== verification/Spec2Isabelle.thy ===== *)
theory Spec2Isabelle
  imports Lib_Printf Kernel_Array Kernel_Queue Kernel_Bitmap Thread_Props Vm_Props Sfs_Trunc
begin

text \<open>A verification development of OS/161.\<close>

end
